(* ===== verification/Kernel_Prelude.thy ===== *)
theory Kernel_Prelude
  imports Main "HOL-Library.Word"
begin

text \<open>
  Shared vocabulary of the development: the status codes every kernel operation returns
  (\<^verbatim>\<open>system/public/zircon/errors.h\<close>), the signal and rights words
  (\<^verbatim>\<open>system/public/zircon/types.h\<close>, \<^verbatim>\<open>rights.h\<close>), the window of user memory
  a \<^verbatim>\<open>user_in_ptr\<close> or \<^verbatim>\<open>user_out_ptr\<close> points to, and the generic lemmas on
  bits, words and lists that the component theories share.
\<close>

unbundle bit_operations_syntax

section \<open>Types and status codes\<close>

type_synonym byte = "8 word"
type_synonym zx_signals_t = "32 word"
type_synonym zx_rights_t = "32 word"
type_synonym zx_koid_t = "64 word"

datatype zx_status_t =
    ZX_OK
  | ZX_ERR_INTERNAL
  | ZX_ERR_NOT_SUPPORTED
  | ZX_ERR_NO_RESOURCES
  | ZX_ERR_NO_MEMORY
  | ZX_ERR_INTERNAL_INTR_RETRY
  | ZX_ERR_INTERNAL_INTR_KILLED
  | ZX_ERR_INVALID_ARGS
  | ZX_ERR_BAD_HANDLE
  | ZX_ERR_WRONG_TYPE
  | ZX_ERR_BAD_SYSCALL
  | ZX_ERR_OUT_OF_RANGE
  | ZX_ERR_BUFFER_TOO_SMALL
  | ZX_ERR_BAD_STATE
  | ZX_ERR_TIMED_OUT
  | ZX_ERR_SHOULD_WAIT
  | ZX_ERR_CANCELED
  | ZX_ERR_PEER_CLOSED
  | ZX_ERR_NOT_FOUND
  | ZX_ERR_ALREADY_EXISTS
  | ZX_ERR_ALREADY_BOUND
  | ZX_ERR_UNAVAILABLE
  | ZX_ERR_ACCESS_DENIED
  | ZX_ERR_STOP

definition ZX_KOID_INVALID :: zx_koid_t where
  "ZX_KOID_INVALID = 0"

definition ZX_KOID_KERNEL :: zx_koid_t where
  "ZX_KOID_KERNEL = 1"

section \<open>Lemma collections\<close>

named_theorems sig_defs \<open>definitions of the signal constants\<close>
named_theorems const_defs \<open>definitions of the numeric constants of the sources\<close>

section \<open>Signals\<close>

definition ZX_USER_SIGNAL_ALL :: zx_signals_t where
  [sig_defs]: "ZX_USER_SIGNAL_ALL = 0xff000000"

definition ZX_OBJECT_READABLE :: zx_signals_t where
  [sig_defs]: "ZX_OBJECT_READABLE = 1"

definition ZX_OBJECT_WRITABLE :: zx_signals_t where
  [sig_defs]: "ZX_OBJECT_WRITABLE = 2"

definition ZX_OBJECT_PEER_CLOSED :: zx_signals_t where
  [sig_defs]: "ZX_OBJECT_PEER_CLOSED = 4"

definition ZX_OBJECT_SIGNALED :: zx_signals_t where
  [sig_defs]: "ZX_OBJECT_SIGNALED = 8"

text \<open>\<open>has_sig s m\<close> is the C++ condition \<^verbatim>\<open>s & m\<close> used as a truth value.\<close>

definition has_sig :: "32 word \<Rightarrow> 32 word \<Rightarrow> bool" where
  "has_sig s m \<longleftrightarrow> s AND m \<noteq> 0"

text \<open>The two updates of \<^verbatim>\<open>Dispatcher::UpdateStateHelper\<close>: clear, then set.\<close>

definition upd_sig :: "32 word \<Rightarrow> 32 word \<Rightarrow> 32 word \<Rightarrow> 32 word" where
  "upd_sig s clear_mask set_mask = (s AND NOT clear_mask) OR set_mask"

lemma has_sig_bit: "has_sig s m \<longleftrightarrow> (\<exists>n<32. bit s n \<and> bit m n)"
  by (auto simp: has_sig_def bit_eq_iff bit_and_iff)

lemma has_sig_zero [simp]: "\<not> has_sig 0 m" "\<not> has_sig s 0"
  by (simp_all add: has_sig_def)

lemma has_sig_or: "has_sig (s OR t) m \<longleftrightarrow> has_sig s m \<or> has_sig t m"
  by (auto simp: has_sig_bit bit_or_iff)

lemma has_sig_or_mask: "has_sig s (m OR k) \<longleftrightarrow> has_sig s m \<or> has_sig s k"
  by (auto simp: has_sig_bit bit_or_iff)

text \<open>
  Clearing a mask removes every signal inside it and leaves alone a signal disjoint from
  it; setting one adds it. The three facts carry the signal reasoning of every object.
\<close>

lemma has_sig_upd_set:
  "m AND set_mask \<noteq> 0 \<Longrightarrow> has_sig (upd_sig s c set_mask) m"
proof -
  assume "m AND set_mask \<noteq> 0"
  then have "has_sig set_mask m"
    by (simp add: has_sig_def and.commute)
  then show ?thesis
    by (simp add: upd_sig_def has_sig_or)
qed

lemma has_sig_upd_clear:
  assumes "m AND set_mask = 0" and "m AND NOT c = 0"
  shows "\<not> has_sig (upd_sig s c set_mask) m"
proof -
  have "\<not> has_sig (s AND NOT c) m"
  proof -
    have "(s AND NOT c) AND m = s AND (m AND NOT c)"
      by (simp add: ac_simps)
    with assms(2) show ?thesis by (simp add: has_sig_def)
  qed
  moreover have "\<not> has_sig set_mask m"
    using assms(1) by (simp add: has_sig_def and.commute)
  ultimately show ?thesis by (simp add: upd_sig_def has_sig_or)
qed

lemma has_sig_upd_other:
  assumes "m AND set_mask = 0" and "m AND c = 0"
  shows "has_sig (upd_sig s c set_mask) m = has_sig s m"
proof -
  have "has_sig (s AND NOT c) m = has_sig s m"
  proof -
    have "n < 32 \<Longrightarrow> bit m n \<Longrightarrow> \<not> bit c n" for n
      using assms(2) by (simp add: bit_eq_iff bit_and_iff)
    then show ?thesis
      by (auto simp: has_sig_bit bit_and_iff bit_not_iff)
  qed
  moreover have "\<not> has_sig set_mask m"
    using assms(1) by (simp add: has_sig_def and.commute)
  ultimately show ?thesis by (simp add: upd_sig_def has_sig_or)
qed

lemma mask_disjoint_from_allowed:
  fixes m t a :: "32 word"
  assumes "m AND a = 0" and "t AND NOT a = 0"
  shows "m AND t = 0"
proof (rule bit_eqI)
  fix n
  assume n: "possible_bit TYPE(32 word) n"
  then have "bit t n \<Longrightarrow> bit a n"
    using assms(2) by (auto simp: bit_eq_iff bit_and_iff bit_not_iff)
  moreover have "bit m n \<Longrightarrow> \<not> bit a n"
    using assms(1) n by (auto simp: bit_eq_iff bit_and_iff)
  ultimately show "bit (m AND t) n = bit (0 :: 32 word) n"
    by (auto simp: bit_and_iff)
qed

lemma upd_sig_none [simp]: "upd_sig s 0 0 = s"
  by (simp add: upd_sig_def)

text \<open>
  Objects with many signals reason bit by bit: a single-bit signal is \<open>sig_bit n\<close>, its
  presence is \<open>bit s n\<close>, and an update acts on each bit on its own.
\<close>

definition sig_bit :: "nat \<Rightarrow> zx_signals_t" where
  "sig_bit n = push_bit n 1"

named_theorems sig_bits \<open>signals bit by bit\<close>

lemma bit_sig_bit [sig_bits]: "bit (sig_bit n) k \<longleftrightarrow> k = n \<and> n < 32"
  by (auto simp: sig_bit_def bit_simps)

lemma has_sig_sig_bit [sig_bits]: "n < 32 \<Longrightarrow> has_sig s (sig_bit n) \<longleftrightarrow> bit s n"
  by (auto simp: has_sig_bit bit_sig_bit)

lemma bit_upd_sig [sig_bits]: "n < 32 \<Longrightarrow> bit (upd_sig s c t) n \<longleftrightarrow> bit s n \<and> \<not> bit c n \<or> bit t n"
  by (auto simp: upd_sig_def bit_or_iff bit_and_iff bit_not_iff)

lemma bit_if_mask [sig_bits]: "bit (if b then m else 0 :: 32 word) n \<longleftrightarrow> b \<and> bit m n"
  by simp

lemma bit_or_mask [sig_bits]: "bit (m OR k :: 32 word) n \<longleftrightarrow> bit m n \<or> bit k n"
  by (simp add: bit_or_iff)

lemma object_signals_are_bits [sig_bits]:
  "ZX_OBJECT_READABLE = sig_bit 0" "ZX_OBJECT_WRITABLE = sig_bit 1"
  "ZX_OBJECT_PEER_CLOSED = sig_bit 2" "ZX_OBJECT_SIGNALED = sig_bit 3"
  by (simp_all add: sig_defs sig_bit_def)

lemma user_all_bits: "bit ZX_USER_SIGNAL_ALL n \<longleftrightarrow> 24 \<le> n \<and> n < 32"
proof -
  have all: "ZX_USER_SIGNAL_ALL = push_bit 24 (mask 8)"
    by (simp add: sig_defs mask_eq_exp_minus_1 push_bit_eq_mult)
  show ?thesis unfolding all bit_push_bit_iff by (auto simp: bit_mask_iff)
qed

text \<open>A mask that a user may pass has none of the signals that the kernel drives.\<close>

lemma user_mask_bits:
  fixes m :: zx_signals_t
  assumes "m AND NOT (ZX_USER_SIGNAL_ALL OR 0) = 0" "n < 24"
  shows "\<not> bit m n"
proof -
  have "\<not> bit (m AND NOT (ZX_USER_SIGNAL_ALL OR 0)) n"
    using assms(1) by simp
  then show ?thesis
    using assms(2) by (simp add: bit_and_iff bit_not_iff bit_or_iff user_all_bits)
qed

section \<open>User memory\<close>

text \<open>
  A user pointer is modelled by the window of user memory it points to: the byte at every
  offset, and whether the page behind that offset is accessible. A copy of \<open>n\<close> bytes at
  offset \<open>off\<close> succeeds when every byte of it is accessible
  (\<^verbatim>\<open>lib/user_copy/user_ptr.h\<close>: \<^verbatim>\<open>byte_offset\<close>, \<^verbatim>\<open>copy_array_from_user\<close>,
  \<^verbatim>\<open>copy_array_to_user\<close>).
\<close>

record user_ptr =
  ub_byte :: "nat \<Rightarrow> byte"
  ub_ok :: "nat \<Rightarrow> bool"

definition user_range_ok :: "user_ptr \<Rightarrow> nat \<Rightarrow> nat \<Rightarrow> bool" where
  "user_range_ok p off n \<longleftrightarrow> list_all (ub_ok p) [off..<off + n]"

definition copy_array_from_user :: "user_ptr \<Rightarrow> nat \<Rightarrow> nat \<Rightarrow> byte list option" where
  "copy_array_from_user p off n =
     (if user_range_ok p off n then Some (map (ub_byte p) [off..<off + n]) else None)"

definition user_bytes :: "user_ptr \<Rightarrow> nat \<Rightarrow> byte list" where
  "user_bytes p n = map (ub_byte p) [0..<n]"

lemma user_range_okD: "user_range_ok p off n \<Longrightarrow> off \<le> i \<Longrightarrow> i < off + n \<Longrightarrow> ub_ok p i"
  by (simp add: user_range_ok_def list_all_iff)

lemma copy_array_from_user_Some:
  "copy_array_from_user p off n = Some bs \<longleftrightarrow>
     user_range_ok p off n \<and> bs = map (ub_byte p) [off..<off + n]"
  by (auto simp: copy_array_from_user_def)

lemma user_range_ok_all [simp]: "(\<And>i. ub_ok p i) \<Longrightarrow> user_range_ok p off n"
  by (simp add: user_range_ok_def list_all_iff)

lemma user_range_ok_0 [simp]: "user_range_ok p off 0"
  by (simp add: user_range_ok_def)

lemma user_range_ok_split:
  "m \<le> n \<Longrightarrow> user_range_ok p off n \<longleftrightarrow> user_range_ok p off m \<and> user_range_ok p (off + m) (n - m)"
proof -
  assume "m \<le> n"
  then have "[off..<off + n] = [off..<off + m] @ [off + m..<off + m + (n - m)]"
    by (metis add.assoc le_add1 le_add_diff_inverse upt_add_eq_append)
  then show ?thesis
    by (simp add: user_range_ok_def)
qed

section \<open>Lists\<close>

lemma nth_map_upt_add [simp]: "i < n \<Longrightarrow> map f [a..<a + n] ! i = f (a + i)"
  by simp

lemma map_upt_append:
  "map f [a..<a + m] @ map f [a + m..<a + m + n] = map f [a..<a + (m + n)]"
  by (metis add.assoc le_add1 map_append upt_add_eq_append)

section \<open>Free-running counters\<close>

text \<open>
  Counters that wrap at \<open>2 ^ w\<close> and index a ring of \<open>2 ^ k\<close> slots by their low bits.
\<close>

lemma unat_less_pow: "unat (w :: 'a::len word) < 2 ^ LENGTH('a)"
  by (rule unsigned_less)

lemma unat_pow2 [simp]: "k < LENGTH('a) \<Longrightarrow> unat (2 ^ k :: 'a::len word) = 2 ^ k"
  by (metis of_nat_numeral of_nat_power unat_of_nat mod_less power_strict_increasing_iff one_less_numeral_iff semiring_norm(76))

lemma unat_and_pow2_mask:
  fixes w :: "'a::len word"
  shows "unat (w AND (2 ^ k - 1)) = unat w mod 2 ^ k"
proof -
  have "w AND (2 ^ k - 1) = take_bit k w"
    by (simp only: take_bit_eq_mask mask_eq_exp_minus_1)
  then show ?thesis
    by (simp only: unsigned_take_bit_eq) (simp add: take_bit_eq_mod)
qed

lemma unat_add_mod_pow2:
  fixes w :: "'a::len word"
  assumes "k \<le> LENGTH('a)"
  shows "unat (w + of_nat n) mod 2 ^ k = (unat w + n) mod 2 ^ k"
proof -
  have "(2::nat) ^ k dvd 2 ^ LENGTH('a)"
    using assms by (rule le_imp_power_dvd)
  then show ?thesis
    by (simp add: unat_word_ariths unat_of_nat mod_mod_cancel mod_simps)
qed

lemma unat_of_nat_small:
  "n \<le> unat (w :: 'a::len word) \<Longrightarrow> unat (of_nat n :: 'a word) = n"
  by (simp add: unat_of_nat) (meson le_less_trans unsigned_less mod_less)

lemma unat_diff_add_of_nat:
  fixes h t :: "'a::len word"
  assumes "unat (h - t) + n < 2 ^ LENGTH('a)"
  shows "unat (h + of_nat n - t) = unat (h - t) + n"
proof -
  have "unat (h + of_nat n - t) = unat ((h - t) + of_nat n)"
    by (simp add: algebra_simps)
  also have "\<dots> = (unat (h - t) + unat (of_nat n :: 'a word)) mod 2 ^ LENGTH('a)"
    by (rule unat_word_ariths)
  finally show ?thesis
    using assms by (simp add: unat_of_nat)
qed

lemma unat_diff_sub_of_nat:
  fixes h t :: "'a::len word"
  assumes "n \<le> unat (h - t)"
  shows "unat (h - (t + of_nat n)) = unat (h - t) - n"
proof -
  have "unat (h - (t + of_nat n)) = unat ((h - t) - of_nat n)"
    by (simp add: algebra_simps)
  then show ?thesis
    using assms unat_of_nat_small [OF assms] unat_sub_if' [of "h - t" "of_nat n"] by simp
qed

lemma mod_add_cancel_less:
  fixes h :: nat
  assumes "(h + i) mod N = (h + j) mod N" "i < N" "j < N"
  shows "i = j"
proof -
  have "a = b" if "(h + a) mod N = (h + b) mod N" "a < N" "b < N" "a \<le> b" for a b
  proof -
    have "N dvd (h + b) - (h + a)"
      using that(1,4) by (metis mod_eq_dvd_iff_nat nat_add_left_cancel_le)
    then show ?thesis
      using that by (auto dest: dvd_imp_le)
  qed
  then show ?thesis
    using assms by (metis nat_le_linear)
qed

section \<open>Byte arrays\<close>

text \<open>
  A byte array is a function from offset to byte; \<open>blit data at bs\<close> is the array after
  \<open>bs\<close> has been copied to offset \<open>at\<close>.
\<close>

definition blit :: "(nat \<Rightarrow> byte) \<Rightarrow> nat \<Rightarrow> byte list \<Rightarrow> nat \<Rightarrow> byte" where
  "blit data at bs i = (if at \<le> i \<and> i < at + length bs then bs ! (i - at) else data i)"

section \<open>Powers of two\<close>

lemma pow2_of_and_pred_nat:
  fixes n :: nat
  assumes "n \<noteq> 0" "n AND (n - 1) = 0"
  shows "\<exists>k. n = 2 ^ k"
  using assms
proof (induction n rule: less_induct)
  case (less n)
  show ?case
  proof (cases "even n")
    case True
    then obtain m where m: "n = 2 * m" by (auto elim: evenE)
    with less.prems have "m \<noteq> 0" by simp
    then have "n - 1 = Suc (2 * (m - 1))" using m by simp
    then have "n AND (n - 1) = 2 * (m AND (m - 1))"
      using m by (simp add: and_nat_rec [of "2 * m"] and_nat_rec [of "2*m" "Suc (2 * (m - 1))"])
    with less.prems have "m AND (m - 1) = 0" by simp
    moreover have "m < n" using m less.prems(1) by simp
    ultimately obtain k where "m = 2 ^ k" using less.IH [of m] \<open>m \<noteq> 0\<close> by blast
    then have "n = 2 ^ Suc k" using m by simp
    then show ?thesis by blast
  next
    case False
    then obtain m where m: "n = Suc (2 * m)" by (auto elim: oddE)
    then have "n AND (n - 1) = 2 * m"
      by (simp add: and_nat_rec [of "Suc (2 * m)"])
    with less.prems have "n = 2 ^ 0" using m by simp
    then show ?thesis by blast
  qed
qed

lemma pow2_of_and_pred_word:
  fixes n :: "64 word"
  assumes "n \<noteq> 0" "n AND (n - 1) = 0"
  shows "\<exists>k. unat n = 2 ^ k"
proof (rule pow2_of_and_pred_nat)
  show "unat n \<noteq> 0" using assms(1) by (simp add: unat_eq_0)
  have "unat (n - 1) = unat n - 1"
    using assms(1) by (simp add: unat_minus_one)
  then show "unat n AND (unat n - 1) = 0"
    using assms(2) by (metis unsigned_and_eq unat_0)
qed

lemma nat_pow2_le_4096: "(2::nat) ^ k \<le> 4096 \<Longrightarrow> k < 13"
proof (rule ccontr)
  assume "(2::nat) ^ k \<le> 4096" "\<not> k < 13"
  moreover have "(2::nat) ^ 13 \<le> 2 ^ k" using \<open>\<not> k < 13\<close> by (intro power_increasing) auto
  ultimately show False by simp
qed

lemma unat_mult_small:
  fixes a b :: "64 word"
  assumes "a \<le> 4096" "b \<le> 4096"
  shows "unat (a * b) = unat a * unat b"
proof -
  have "unat a \<le> 4096" "unat b \<le> 4096"
    using assms by (simp_all add: word_le_nat_alt)
  then have "unat a * unat b \<le> 4096 * 4096" by (intro mult_le_mono)
  then show ?thesis by (simp add: unat_mult_lem [THEN iffD1] unat_word_ariths)
qed

lemma unat_ucast32_small:
  fixes a :: "64 word"
  assumes "a \<le> 4096"
  shows "unat (ucast a :: 32 word) = unat a"
proof -
  have "unat a \<le> 4096" using assms by (simp add: word_le_nat_alt)
  then show ?thesis by (simp add: unsigned_ucast_eq take_bit_nat_eq_self)
qed

end
