(* ===== verification/Dispatcher.thy ===== *)
theory Dispatcher
  imports Kernel_Prelude "HOL-Library.Multiset" "HOL-Library.Sublist"
begin

text \<open>
  The base class of every kernel object (\<^verbatim>\<open>kernel/object/dispatcher.cpp\<close> and
  \<^verbatim>\<open>object/include/object/dispatcher.h\<close>): the kernel object id, the handle count,
  the signal word with its observers, and the cookie jar.

  Two views of the signal state are given. The full one (\<open>tracker\<close>) holds the observer
  list and runs the callbacks of each observer, whose effect on the rest of the kernel is
  a function on a world \<open>'w\<close>. The record the object theories extend (\<open>dispatcher\<close>)
  keeps the signal word and, in \<open>state_changes\<close>, the sequence of states that
  \<^verbatim>\<open>UpdateStateHelper\<close> hands to its observers. The lemma \<open>tracker_run_simulates\<close>
  shows that the second view determines the first.

  Each operation runs under the object's lock, so it is one atomic step of the model.
\<close>

section \<open>Kernel object ids and handle counts\<close>

record dispatcher =
  obj_koid :: zx_koid_t
  obj_handle_count :: "32 word"
  obj_signals :: zx_signals_t
  state_changes :: "zx_signals_t list"

text \<open>\<^verbatim>\<open>GenerateKernelObjectId\<close>: \<^verbatim>\<open>fetch_add\<close> on the counter \<^verbatim>\<open>global_koid\<close>.\<close>

definition initial_global_koid :: zx_koid_t where
  "initial_global_koid = 1024"

definition GenerateKernelObjectId :: "zx_koid_t \<Rightarrow> zx_koid_t \<times> zx_koid_t" where
  "GenerateKernelObjectId global_koid = (global_koid, global_koid + 1)"

definition new_dispatcher :: "zx_koid_t \<Rightarrow> zx_signals_t \<Rightarrow> dispatcher" where
  "new_dispatcher koid sigs =
     \<lparr>obj_koid = koid, obj_handle_count = 0, obj_signals = sigs, state_changes = []\<rparr>"

definition increment_handle_count :: "'a dispatcher_scheme \<Rightarrow> 'a dispatcher_scheme" where
  "increment_handle_count d = d\<lparr>obj_handle_count := obj_handle_count d + 1\<rparr>"

definition decrement_handle_count :: "'a dispatcher_scheme \<Rightarrow> bool \<times> 'a dispatcher_scheme" where
  "decrement_handle_count d =
     (let d' = d\<lparr>obj_handle_count := obj_handle_count d - 1\<rparr> in (obj_handle_count d' = 0, d'))"

section \<open>Signal state as the object theories see it\<close>

definition UpdateStateLocked ::
    "zx_signals_t \<Rightarrow> zx_signals_t \<Rightarrow> 'a dispatcher_scheme \<Rightarrow> 'a dispatcher_scheme" where
  "UpdateStateLocked clear_mask set_mask d =
     (let new = upd_sig (obj_signals d) clear_mask set_mask
      in if obj_signals d = new then d
         else d\<lparr>obj_signals := new, state_changes := state_changes d @ [new]\<rparr>)"

section \<open>Observers\<close>

type_synonym observer_flags = "32 word"

definition kNeedRemoval :: observer_flags where
  [const_defs]: "kNeedRemoval = 1"

definition kHandled :: observer_flags where
  [const_defs]: "kHandled = 2"

record 'o tracker =
  trk_signals :: zx_signals_t
  trk_observers :: "'o list"

text \<open>
  The loop shared by \<^verbatim>\<open>UpdateInternalLocked\<close> and \<^verbatim>\<open>CancelWithFunc\<close>: call
  \<open>f\<close> on every observer in list order; those whose flags ask for removal leave the list
  and are collected in order. Returns the accumulated flags, the kept observers, the
  removed ones and the world.
\<close>

fun visit_observers ::
    "('o \<Rightarrow> 'w \<Rightarrow> observer_flags \<times> 'w) \<Rightarrow> 'o list \<Rightarrow> 'w \<Rightarrow> observer_flags \<times> 'o list \<times> 'o list \<times> 'w" where
  "visit_observers f [] w = (0, [], [], w)"
| "visit_observers f (ob # obs) w =
     (let (it_flags, w1) = f ob w;
          (flags, kept, removed, w2) = visit_observers f obs w1
      in if it_flags AND kNeedRemoval \<noteq> 0
         then (it_flags OR flags, kept, ob # removed, w2)
         else (it_flags OR flags, ob # kept, removed, w2))"

definition UpdateInternalLocked ::
    "('o \<Rightarrow> zx_signals_t \<Rightarrow> 'w \<Rightarrow> observer_flags \<times> 'w) \<Rightarrow> zx_signals_t \<Rightarrow> 'o list \<Rightarrow> 'w
       \<Rightarrow> 'o list \<times> 'o list \<times> 'w" where
  "UpdateInternalLocked on_state_change sigs obs w =
     (case visit_observers (\<lambda>ob. on_state_change ob sigs) obs w of
        (_, kept, removed, w') \<Rightarrow> (kept, removed, w'))"

definition UpdateStateHelper ::
    "('o \<Rightarrow> zx_signals_t \<Rightarrow> 'w \<Rightarrow> observer_flags \<times> 'w) \<Rightarrow> ('o \<Rightarrow> 'w \<Rightarrow> 'w) \<Rightarrow>
     zx_signals_t \<Rightarrow> zx_signals_t \<Rightarrow> 'o tracker \<times> 'w \<Rightarrow> 'o tracker \<times> 'w" where
  "UpdateStateHelper on_state_change on_removed clear_mask set_mask = (\<lambda>(t, w).
     let new = upd_sig (trk_signals t) clear_mask set_mask
     in if trk_signals t = new then (t, w)
        else case UpdateInternalLocked on_state_change new (trk_observers t) w of
               (kept, removed, w') \<Rightarrow>
                 (t\<lparr>trk_signals := new, trk_observers := kept\<rparr>, fold on_removed removed w'))"

definition AddObserverHelper ::
    "('o \<Rightarrow> zx_signals_t \<Rightarrow> 'w \<Rightarrow> observer_flags \<times> 'w) \<Rightarrow> ('o \<Rightarrow> 'w \<Rightarrow> 'w) \<Rightarrow>
     'o \<Rightarrow> 'o tracker \<times> 'w \<Rightarrow> 'o tracker \<times> 'w" where
  "AddObserverHelper on_initialize on_removed ob = (\<lambda>(t, w).
     case on_initialize ob (trk_signals t) w of
       (flags, w1) \<Rightarrow>
         if flags AND kNeedRemoval = 0
         then (t\<lparr>trk_observers := ob # trk_observers t\<rparr>, w1)
         else (t, on_removed ob w1))"

definition add_observer ::
    "bool \<Rightarrow> ('o \<Rightarrow> zx_signals_t \<Rightarrow> 'w \<Rightarrow> observer_flags \<times> 'w) \<Rightarrow> ('o \<Rightarrow> 'w \<Rightarrow> 'w) \<Rightarrow>
     'o \<Rightarrow> 'o tracker \<times> 'w \<Rightarrow> zx_status_t \<times> 'o tracker \<times> 'w" where
  "add_observer is_waitable on_initialize on_removed ob tw =
     (if \<not> is_waitable then (ZX_ERR_NOT_SUPPORTED, tw)
      else (ZX_OK, AddObserverHelper on_initialize on_removed ob tw))"

definition RemoveObserver :: "'o \<Rightarrow> 'o tracker \<Rightarrow> 'o tracker" where
  "RemoveObserver ob t = t\<lparr>trk_observers := remove1 ob (trk_observers t)\<rparr>"

definition CancelWithFunc ::
    "('o \<Rightarrow> 'w \<Rightarrow> observer_flags \<times> 'w) \<Rightarrow> ('o \<Rightarrow> 'w \<Rightarrow> 'w) \<Rightarrow>
     'o tracker \<times> 'w \<Rightarrow> observer_flags \<times> 'o tracker \<times> 'w" where
  "CancelWithFunc f on_removed = (\<lambda>(t, w).
     case visit_observers f (trk_observers t) w of
       (flags, kept, removed, w') \<Rightarrow>
         (flags AND NOT kNeedRemoval, t\<lparr>trk_observers := kept\<rparr>, fold on_removed removed w'))"

definition Cancel ::
    "('o \<Rightarrow> 'h \<Rightarrow> 'w \<Rightarrow> observer_flags \<times> 'w) \<Rightarrow> ('o \<Rightarrow> 'w \<Rightarrow> 'w) \<Rightarrow> 'h \<Rightarrow>
     'o tracker \<times> 'w \<Rightarrow> 'o tracker \<times> 'w" where
  "Cancel on_cancel on_removed handle tw =
     snd (CancelWithFunc (\<lambda>ob. on_cancel ob handle) on_removed tw)"

definition CancelByKey ::
    "('o \<Rightarrow> 'h \<Rightarrow> 'p \<Rightarrow> 'k \<Rightarrow> 'w \<Rightarrow> observer_flags \<times> 'w) \<Rightarrow> ('o \<Rightarrow> 'w \<Rightarrow> 'w) \<Rightarrow> 'h \<Rightarrow> 'p \<Rightarrow> 'k \<Rightarrow>
     'o tracker \<times> 'w \<Rightarrow> bool \<times> 'o tracker \<times> 'w" where
  "CancelByKey on_cancel_by_key on_removed handle port key tw =
     (case CancelWithFunc (\<lambda>ob. on_cancel_by_key ob handle port key) on_removed tw of
        (flags, tw') \<Rightarrow> (flags AND kHandled \<noteq> 0, tw'))"

section \<open>Cookies\<close>

record cookie_jar =
  jar_scope :: zx_koid_t
  jar_cookie :: "64 word"

definition SetCookie ::
    "cookie_jar option \<Rightarrow> zx_koid_t \<Rightarrow> 64 word \<Rightarrow> zx_status_t \<times> cookie_jar option" where
  "SetCookie jar scope cookie =
     (case jar of
        None \<Rightarrow> (ZX_ERR_NOT_SUPPORTED, None)
      | Some j \<Rightarrow>
          if jar_scope j = ZX_KOID_INVALID then (ZX_OK, Some (j\<lparr>jar_scope := scope, jar_cookie := cookie\<rparr>))
          else if jar_scope j = scope then (ZX_OK, Some (j\<lparr>jar_cookie := cookie\<rparr>))
          else (ZX_ERR_ACCESS_DENIED, Some j))"

definition GetCookie :: "cookie_jar option \<Rightarrow> zx_koid_t \<Rightarrow> zx_status_t + 64 word" where
  "GetCookie jar scope =
     (case jar of
        None \<Rightarrow> Inl ZX_ERR_NOT_SUPPORTED
      | Some j \<Rightarrow> if jar_scope j = scope then Inr (jar_cookie j) else Inl ZX_ERR_ACCESS_DENIED)"

definition InvalidateCookieLocked :: "cookie_jar option \<Rightarrow> zx_status_t \<times> cookie_jar option" where
  "InvalidateCookieLocked jar =
     (case jar of
        None \<Rightarrow> (ZX_ERR_NOT_SUPPORTED, None)
      | Some j \<Rightarrow> (ZX_OK, Some (j\<lparr>jar_scope := ZX_KOID_KERNEL\<rparr>)))"

section \<open>Solo and peered objects\<close>

text \<open>
  The two endpoints of a peered object share one lock, so the state of the pair is one
  value \<open>'s\<close>. The subclass supplies whether the \<^verbatim>\<open>peer_\<close> pointer of a side is set,
  how to reset it, how to update a side's signals, and its two close hooks.
\<close>

datatype side = Side0 | Side1

fun peer_of :: "side \<Rightarrow> side" where
  "peer_of Side0 = Side1"
| "peer_of Side1 = Side0"

definition solo_user_signal_self ::
    "bool \<Rightarrow> zx_signals_t \<Rightarrow> zx_signals_t \<Rightarrow> zx_signals_t \<Rightarrow> 'a dispatcher_scheme
       \<Rightarrow> zx_status_t \<times> 'a dispatcher_scheme" where
  "solo_user_signal_self is_waitable extra_signals clear_mask set_mask d =
     (let allowed = ZX_USER_SIGNAL_ALL OR extra_signals
      in if \<not> is_waitable then (ZX_ERR_NOT_SUPPORTED, d)
         else if set_mask AND NOT allowed \<noteq> 0 \<or> clear_mask AND NOT allowed \<noteq> 0
              then (ZX_ERR_INVALID_ARGS, d)
         else (ZX_OK, UpdateStateLocked clear_mask set_mask d))"

definition user_signal_self ::
    "(side \<Rightarrow> zx_signals_t \<Rightarrow> zx_signals_t \<Rightarrow> 's \<Rightarrow> 's) \<Rightarrow> zx_signals_t \<Rightarrow> side
       \<Rightarrow> zx_signals_t \<Rightarrow> zx_signals_t \<Rightarrow> 's \<Rightarrow> zx_status_t \<times> 's" where
  "user_signal_self update_state extra_signals x clear_mask set_mask s =
     (let allowed = ZX_USER_SIGNAL_ALL OR extra_signals
      in if set_mask AND NOT allowed \<noteq> 0 \<or> clear_mask AND NOT allowed \<noteq> 0
         then (ZX_ERR_INVALID_ARGS, s)
         else (ZX_OK, update_state x clear_mask set_mask s))"

definition user_signal_peer ::
    "(side \<Rightarrow> 's \<Rightarrow> bool) \<Rightarrow> (side \<Rightarrow> zx_signals_t \<Rightarrow> zx_signals_t \<Rightarrow> 's \<Rightarrow> 's) \<Rightarrow> zx_signals_t
       \<Rightarrow> side \<Rightarrow> zx_signals_t \<Rightarrow> zx_signals_t \<Rightarrow> 's \<Rightarrow> zx_status_t \<times> 's" where
  "user_signal_peer has_peer update_state extra_signals x clear_mask set_mask s =
     (let allowed = ZX_USER_SIGNAL_ALL OR extra_signals
      in if set_mask AND NOT allowed \<noteq> 0 \<or> clear_mask AND NOT allowed \<noteq> 0
         then (ZX_ERR_INVALID_ARGS, s)
         else if \<not> has_peer x s then (ZX_ERR_PEER_CLOSED, s)
         else (ZX_OK, update_state (peer_of x) clear_mask set_mask s))"

definition on_zero_handles ::
    "(side \<Rightarrow> 's \<Rightarrow> bool) \<Rightarrow> (side \<Rightarrow> 's \<Rightarrow> 's) \<Rightarrow> (side \<Rightarrow> 's \<Rightarrow> 's) \<Rightarrow> (side \<Rightarrow> 's \<Rightarrow> 's)
       \<Rightarrow> side \<Rightarrow> 's \<Rightarrow> 's" where
  "on_zero_handles has_peer reset_peer on_zero_handles_locked on_peer_zero_handles x s =
     (let peer = has_peer x s;
          s1 = on_zero_handles_locked x (reset_peer x s)
      in if peer then on_peer_zero_handles (peer_of x) (reset_peer (peer_of x) s1) else s1)"

section \<open>Signal lemmas\<close>

lemma peer_of_peer_of [simp]: "peer_of (peer_of x) = x"
  by (cases x) auto

lemma peer_of_neq [simp]: "peer_of x \<noteq> x" "x \<noteq> peer_of x"
  by (cases x; simp)+

lemma side_cases_peer: "y = x \<or> y = peer_of x"
  by (cases x; cases y) auto

lemma all_sides: "(\<forall>y. P y) \<longleftrightarrow> P x \<and> P (peer_of x)"
  using side_cases_peer by metis

lemma obj_signals_UpdateStateLocked [simp]:
  "obj_signals (UpdateStateLocked c t d) = upd_sig (obj_signals d) c t"
  by (simp add: UpdateStateLocked_def Let_def)

lemma UpdateStateLocked_other [simp]:
  "obj_koid (UpdateStateLocked c t d) = obj_koid d"
  "obj_handle_count (UpdateStateLocked c t d) = obj_handle_count d"
  "dispatcher.more (UpdateStateLocked c t d) = dispatcher.more d"
  by (simp_all add: UpdateStateLocked_def Let_def)

lemma UpdateStateLocked_noop: "upd_sig (obj_signals d) c t = obj_signals d \<Longrightarrow> UpdateStateLocked c t d = d"
  by (simp add: UpdateStateLocked_def)

section \<open>Observer lemmas\<close>

text \<open>One notification round: run the callbacks on a new state, then reap.\<close>

definition notify ::
    "('o \<Rightarrow> zx_signals_t \<Rightarrow> 'w \<Rightarrow> observer_flags \<times> 'w) \<Rightarrow> ('o \<Rightarrow> 'w \<Rightarrow> 'w) \<Rightarrow> zx_signals_t
       \<Rightarrow> 'o list \<times> 'w \<Rightarrow> 'o list \<times> 'w" where
  "notify on_state_change on_removed sigs = (\<lambda>(obs, w).
     case UpdateInternalLocked on_state_change sigs obs w of
       (kept, removed, w') \<Rightarrow> (kept, fold on_removed removed w'))"

definition tracker_run ::
    "('o \<Rightarrow> zx_signals_t \<Rightarrow> 'w \<Rightarrow> observer_flags \<times> 'w) \<Rightarrow> ('o \<Rightarrow> 'w \<Rightarrow> 'w) \<Rightarrow>
     (zx_signals_t \<times> zx_signals_t) list \<Rightarrow> 'o tracker \<times> 'w \<Rightarrow> 'o tracker \<times> 'w" where
  "tracker_run on_state_change on_removed =
     fold (\<lambda>(c, t). UpdateStateHelper on_state_change on_removed c t)"

definition dispatcher_run ::
    "(zx_signals_t \<times> zx_signals_t) list \<Rightarrow> 'a dispatcher_scheme \<Rightarrow> 'a dispatcher_scheme" where
  "dispatcher_run = fold (\<lambda>(c, t). UpdateStateLocked c t)"

lemma UpdateStateHelper_notify:
  "UpdateStateHelper osc onr c t (trk, w) =
     (let new = upd_sig (trk_signals trk) c t
      in if trk_signals trk = new then (trk, w)
         else case notify osc onr new (trk_observers trk, w) of
                (obs, w') \<Rightarrow> (\<lparr>trk_signals = new, trk_observers = obs\<rparr>, w'))"
  by (simp add: UpdateStateHelper_def notify_def Let_def split: prod.split)

lemma tracker_run_step:
  assumes "obj_signals d = trk_signals trk"
  shows "\<exists>more. state_changes (UpdateStateLocked c t d) = state_changes d @ more \<and>
           UpdateStateHelper osc onr c t (trk, w) =
             (case fold (notify osc onr) more (trk_observers trk, w) of
                (obs, w') \<Rightarrow> (\<lparr>trk_signals = obj_signals (UpdateStateLocked c t d), trk_observers = obs\<rparr>, w'))"
proof (cases "upd_sig (trk_signals trk) c t = trk_signals trk")
  case True
  with assms show ?thesis
    by (auto simp: UpdateStateLocked_def UpdateStateHelper_notify)
next
  case False
  let ?n = "upd_sig (trk_signals trk) c t"
  have "state_changes (UpdateStateLocked c t d) = state_changes d @ [?n]"
    using False assms by (auto simp: UpdateStateLocked_def Let_def)
  moreover have "UpdateStateHelper osc onr c t (trk, w) =
      (case fold (notify osc onr) [?n] (trk_observers trk, w) of
         (obs, w') \<Rightarrow> (\<lparr>trk_signals = obj_signals (UpdateStateLocked c t d), trk_observers = obs\<rparr>, w'))"
    using False assms by (auto simp: UpdateStateHelper_notify Let_def)
  ultimately show ?thesis by blast
qed

lemma tracker_run_changes:
  assumes "obj_signals d = trk_signals trk"
  shows "\<exists>more. state_changes (dispatcher_run ups d) = state_changes d @ more \<and>
           tracker_run osc onr ups (trk, w) =
             (case fold (notify osc onr) more (trk_observers trk, w) of
                (obs, w') \<Rightarrow> (\<lparr>trk_signals = obj_signals (dispatcher_run ups d), trk_observers = obs\<rparr>, w'))"
  using assms
proof (induction ups arbitrary: d trk w)
  case Nil
  then show ?case by (simp add: dispatcher_run_def tracker_run_def)
next
  case (Cons u ups)
  obtain c t where u: "u = (c, t)" by (cases u)
  let ?d1 = "UpdateStateLocked c t d"
  obtain m1 where m1: "state_changes ?d1 = state_changes d @ m1"
    and h: "UpdateStateHelper osc onr c t (trk, w) =
             (case fold (notify osc onr) m1 (trk_observers trk, w) of
                (obs, w') \<Rightarrow> (\<lparr>trk_signals = obj_signals ?d1, trk_observers = obs\<rparr>, w'))"
    using tracker_run_step [OF Cons.prems, of c t osc onr w] by blast
  obtain obs w1 where f1: "fold (notify osc onr) m1 (trk_observers trk, w) = (obs, w1)"
    by (cases "fold (notify osc onr) m1 (trk_observers trk, w)")
  let ?trk1 = "\<lparr>trk_signals = obj_signals ?d1, trk_observers = obs\<rparr>"
  obtain m2 where m2: "state_changes (dispatcher_run ups ?d1) = state_changes ?d1 @ m2"
    and r: "tracker_run osc onr ups (?trk1, w1) =
             (case fold (notify osc onr) m2 (obs, w1) of
                (obs, w') \<Rightarrow> (\<lparr>trk_signals = obj_signals (dispatcher_run ups ?d1), trk_observers = obs\<rparr>, w'))"
    using Cons.IH [of ?d1 ?trk1 w1] by auto
  have "state_changes (dispatcher_run (u # ups) d) = state_changes d @ (m1 @ m2)"
    using m1 m2 u by (simp add: dispatcher_run_def)
  moreover have "tracker_run osc onr (u # ups) (trk, w) =
      (case fold (notify osc onr) (m1 @ m2) (trk_observers trk, w) of
         (obs, w') \<Rightarrow> (\<lparr>trk_signals = obj_signals (dispatcher_run (u # ups) d), trk_observers = obs\<rparr>, w'))"
    using h f1 r u by (simp add: tracker_run_def dispatcher_run_def)
  ultimately show ?case by blast
qed


lemma visit_observers_mset:
  "visit_observers f obs w = (fl, kept, removed, w') \<Longrightarrow> mset kept + mset removed = mset obs"
  by (induction obs arbitrary: w fl kept removed w') (auto simp: Let_def split: prod.splits if_splits)

lemma visit_observers_subseq:
  "visit_observers f obs w = (fl, kept, removed, w') \<Longrightarrow> subseq kept obs \<and> subseq removed obs"
  by (induction obs arbitrary: w fl kept removed w')
     (auto simp: Let_def intro: list_emb_Cons split: prod.splits if_splits)

text \<open>
  An observer whose callback has no effect is left alone by a visit.
\<close>

lemma visit_observers_idle:
  assumes "\<And>ob. ob \<in> set obs \<Longrightarrow> f ob w = (0, w)"
  shows "visit_observers f obs w = (0, obs, [], w)"
  using assms by (induction obs) (auto simp: Let_def)

lemma visit_observers_removed_flags:
  "visit_observers f obs w = (fl, kept, removed, w') \<Longrightarrow> removed = [] \<Longrightarrow> kept = obs"
  by (induction obs arbitrary: w fl kept w') (auto simp: Let_def split: prod.splits if_splits)

text \<open>
  cancelling never loses or invents an observer. The observers that stay and the ones
  that are removed (and get \<^verbatim>\<open>OnRemoved\<close>) partition the list, and the ones that stay
  keep their order.
\<close>

theorem CancelWithFunc_partition:
  "\<exists>flags removed w1.
     CancelWithFunc f onr (t, w) =
       (flags AND NOT kNeedRemoval,
        t\<lparr>trk_observers := fst (snd (visit_observers f (trk_observers t) w))\<rparr>,
        fold onr removed w1) \<and>
     subseq (fst (snd (visit_observers f (trk_observers t) w))) (trk_observers t) \<and>
     subseq removed (trk_observers t) \<and>
     mset (fst (snd (visit_observers f (trk_observers t) w))) + mset removed = mset (trk_observers t)"
proof -
  obtain fl kept removed w1 where v: "visit_observers f (trk_observers t) w = (fl, kept, removed, w1)"
    by (metis prod_cases4)
  show ?thesis
    using visit_observers_mset [OF v] visit_observers_subseq [OF v]
    by (auto simp: CancelWithFunc_def v)
qed

section \<open>Cookie lemmas\<close>

text \<open>
  a cookie set under a scope is read back under that scope, and under no other: once a
  (valid) scope owns the jar, other scopes can neither read nor replace the cookie.
\<close>

theorem cookie_roundtrip_and_protection:
  assumes "SetCookie (Some j) scope cookie = (ZX_OK, Some j')" and "scope \<noteq> ZX_KOID_INVALID"
  shows "GetCookie (Some j') scope = Inr cookie \<and>
         (\<forall>other c2. other \<noteq> scope \<longrightarrow>
            GetCookie (Some j') other = Inl ZX_ERR_ACCESS_DENIED \<and>
            SetCookie (Some j') other c2 = (ZX_ERR_ACCESS_DENIED, Some j'))"
  using assms by (auto simp: SetCookie_def GetCookie_def split: if_splits)

theorem cookie_roundtrip_and_protection_witness:
  "SetCookie (Some \<lparr>jar_scope = 0, jar_cookie = 0\<rparr>) 5 7 = (ZX_OK, Some \<lparr>jar_scope = 5, jar_cookie = 7\<rparr>) \<and>
   GetCookie (Some \<lparr>jar_scope = 5, jar_cookie = 7\<rparr>) 5 = Inr 7"
proof -
  have h: "SetCookie (Some \<lparr>jar_scope = 0, jar_cookie = 0\<rparr>) 5 7 =
             (ZX_OK, Some \<lparr>jar_scope = 5, jar_cookie = 7\<rparr>)"
    by (simp add: SetCookie_def ZX_KOID_INVALID_def)
  have n: "(5 :: zx_koid_t) \<noteq> ZX_KOID_INVALID"
    by (simp add: ZX_KOID_INVALID_def)
  show ?thesis
    using h cookie_roundtrip_and_protection [OF h n] by simp
qed

section \<open>The peered interface\<close>

text \<open>
  What a peered object promises to the code of \<^verbatim>\<open>PeeredDispatcher\<close>: the peer
  pointers and the signals of the two sides are separate, and neither close hook touches
  the pointers; the hook of the surviving side asserts the peer-closed signal and
  withdraws the writable one.
\<close>

locale peered_object =
  fixes has_peer :: "side \<Rightarrow> 's \<Rightarrow> bool"
    and reset_peer :: "side \<Rightarrow> 's \<Rightarrow> 's"
    and update_state :: "side \<Rightarrow> zx_signals_t \<Rightarrow> zx_signals_t \<Rightarrow> 's \<Rightarrow> 's"
    and zero_locked :: "side \<Rightarrow> 's \<Rightarrow> 's"
    and peer_zero :: "side \<Rightarrow> 's \<Rightarrow> 's"
    and sigs :: "side \<Rightarrow> 's \<Rightarrow> zx_signals_t"
  assumes reset_peer: "has_peer y (reset_peer x s) \<longleftrightarrow> y \<noteq> x \<and> has_peer y s"
    and update_peer: "has_peer y (update_state x c t s) = has_peer y s"
    and update_sigs: "sigs y (update_state x c t s) = (if y = x then upd_sig (sigs x s) c t else sigs y s)"
    and zero_peer: "has_peer y (zero_locked x s) = has_peer y s"
    and peer_zero_peer: "has_peer y (peer_zero x s) = has_peer y s"
    and peer_zero_closed: "has_sig (sigs x (peer_zero x s)) ZX_OBJECT_PEER_CLOSED"
    and peer_zero_not_writable: "\<not> has_sig (sigs x (peer_zero x s)) ZX_OBJECT_WRITABLE"
begin

text \<open>Both peer pointers agree: neither side can see a peer that does not see it.\<close>

definition linked :: "'s \<Rightarrow> bool" where
  "linked s \<longleftrightarrow> (has_peer Side0 s \<longleftrightarrow> has_peer Side1 s)"

lemma linked_peer: "linked s \<Longrightarrow> has_peer (peer_of x) s = has_peer x s"
  by (cases x) (auto simp: linked_def)

lemma close_disconnects:
  assumes "linked s"
  shows "\<not> has_peer y (on_zero_handles has_peer reset_peer zero_locked peer_zero x s)"
  using assms side_cases_peer [of y x]
  by (auto simp: on_zero_handles_def Let_def reset_peer zero_peer peer_zero_peer linked_peer)

lemma close_signals:
  assumes "has_peer x s"
  shows "has_sig (sigs (peer_of x) (on_zero_handles has_peer reset_peer zero_locked peer_zero x s))
           ZX_OBJECT_PEER_CLOSED \<and>
         \<not> has_sig (sigs (peer_of x) (on_zero_handles has_peer reset_peer zero_locked peer_zero x s))
           ZX_OBJECT_WRITABLE"
  using assms by (simp add: on_zero_handles_def Let_def peer_zero_closed peer_zero_not_writable)

lemma signal_peer_after_close:
  assumes "linked s" "c AND NOT (ZX_USER_SIGNAL_ALL OR extra) = 0" "t AND NOT (ZX_USER_SIGNAL_ALL OR extra) = 0"
  shows "user_signal_peer has_peer update_state extra y c t
           (on_zero_handles has_peer reset_peer zero_locked peer_zero x s) =
         (ZX_ERR_PEER_CLOSED, on_zero_handles has_peer reset_peer zero_locked peer_zero x s)"
  using assms close_disconnects [OF assms(1)] by (simp add: user_signal_peer_def Let_def)

text \<open>A user signal changes no signal outside the allowed mask, on either side.\<close>

lemma user_signal_self_kernel_bits:
  assumes "m AND (ZX_USER_SIGNAL_ALL OR extra) = 0"
  shows "has_sig (sigs y (snd (user_signal_self update_state extra x c t s))) m = has_sig (sigs y s) m"
proof (cases "t AND NOT (ZX_USER_SIGNAL_ALL OR extra) \<noteq> 0 \<or> c AND NOT (ZX_USER_SIGNAL_ALL OR extra) \<noteq> 0")
  case True
  then show ?thesis by (auto simp: user_signal_self_def Let_def)
next
  case False
  then have "m AND t = 0" "m AND c = 0"
    using assms by (meson mask_disjoint_from_allowed)+
  then show ?thesis
    using False by (auto simp: user_signal_self_def Let_def update_sigs has_sig_upd_other)
qed

lemma user_signal_peer_kernel_bits:
  assumes "m AND (ZX_USER_SIGNAL_ALL OR extra) = 0"
  shows "has_sig (sigs y (snd (user_signal_peer has_peer update_state extra x c t s))) m =
         has_sig (sigs y s) m"
proof (cases "t AND NOT (ZX_USER_SIGNAL_ALL OR extra) \<noteq> 0 \<or> c AND NOT (ZX_USER_SIGNAL_ALL OR extra) \<noteq> 0")
  case True
  then show ?thesis by (auto simp: user_signal_peer_def Let_def)
next
  case False
  then have "m AND t = 0" "m AND c = 0"
    using assms by (meson mask_disjoint_from_allowed)+
  then show ?thesis
    using False by (auto simp: user_signal_peer_def Let_def update_sigs has_sig_upd_other)
qed

end

end
