(* ===== verification/MessagePacket.thy ===== *)
theory MessagePacket
  imports Dispatcher
begin

text \<open>
  Message packets and the chains of page-sized buffers they live in
  (\<^verbatim>\<open>object/message_packet.cpp\<close>, \<^verbatim>\<open>object/buffer_chain.cpp\<close> and their headers).
  The first buffer of a chain holds, one after the other, the chain object, the packet, the
  pointers to its handles and the start of the payload. The chain and the packet are records here;
  the lemmas \<open>create_keeps_header\<close> and \<open>packet_ok_txid_contiguous\<close> show that the copies and the transaction
  id stay clear of them and inside the buffer.
\<close>

section \<open>Buffer chains\<close>

definition kSizeOfBuffer :: nat where
  [const_defs]: "kSizeOfBuffer = 4096"

definition kSizeOfBufferFields :: nat where
  [const_defs]: "kSizeOfBufferFields = 16"

definition kRawDataSize :: nat where
  [const_defs]: "kRawDataSize = kSizeOfBuffer - kSizeOfBufferFields"

text \<open>One pointer of the buffer list and the two of the page list.\<close>

definition kSizeOfBufferChain :: nat where
  [const_defs]: "kSizeOfBufferChain = 24"

definition kContig :: nat where
  [const_defs]: "kContig = kRawDataSize - kSizeOfBufferChain"

record ipc_page =
  pg_paddr :: "64 word"
  pg_bytes :: "nat \<Rightarrow> byte"

record buffer =
  buf_reserved :: nat
  buf_raw :: "nat \<Rightarrow> byte"

record buffer_chain =
  bc_buffers :: "buffer list"
  bc_pages :: "ipc_page list"

definition new_buffer :: "ipc_page \<Rightarrow> buffer" where
  "new_buffer page = \<lparr>buf_reserved = 0, buf_raw = (\<lambda>i. pg_bytes page (kSizeOfBufferFields + i))\<rparr>"

definition buf_size :: "buffer \<Rightarrow> nat" where
  "buf_size b = kRawDataSize - buf_reserved b"

definition set_reserved :: "nat \<Rightarrow> buffer \<Rightarrow> buffer" where
  "set_reserved r b = b\<lparr>buf_reserved := r\<rparr>"

text \<open>
  The constructor: the chain lives in its first buffer, which reserves the space.
\<close>

fun new_BufferChain :: "buffer list \<Rightarrow> ipc_page list \<Rightarrow> buffer_chain" where
  "new_BufferChain [] pages = \<lparr>bc_buffers = [], bc_pages = pages\<rparr>"
| "new_BufferChain (b # bs) pages =
     \<lparr>bc_buffers = set_reserved kSizeOfBufferChain b # bs, bc_pages = pages\<rparr>"

definition num_buffers :: "nat \<Rightarrow> nat" where
  "num_buffers sz = (sz + kSizeOfBufferChain + kRawDataSize - 1) div kRawDataSize"

text \<open>
  \<^verbatim>\<open>Alloc\<close>: \<open>pmm_ok\<close> says whether the physical allocator has enough pages, \<open>page i\<close> is
  the \<open>i\<close>-th page it gives, with the bytes left in it.
\<close>

definition BufferChain_Alloc :: "bool \<Rightarrow> (nat \<Rightarrow> ipc_page) \<Rightarrow> nat \<Rightarrow> buffer_chain option" where
  "BufferChain_Alloc pmm_ok page sz =
     (if \<not> pmm_ok then None
      else let pages = map page [0..<num_buffers sz];
               temp = fold (\<lambda>p bufs. new_buffer p # bufs) pages []
           in Some (new_BufferChain temp pages))"

text \<open>\<^verbatim>\<open>Free\<close> gives the pages back.\<close>

definition BufferChain_Free :: "buffer_chain \<Rightarrow> ipc_page list" where
  "BufferChain_Free chain = bc_pages chain"

text \<open>
  The loop of \<^verbatim>\<open>CopyInCommon\<close>. The source \<open>src\<close> is what the template parameter offers:
  the bytes from an offset on, or a fault. The loop keeps the offset reached in the source,
  \<^verbatim>\<open>copy_offset\<close> and \<^verbatim>\<open>rem\<close>.
\<close>

type_synonym copy_src = "nat \<Rightarrow> nat \<Rightarrow> byte list option"

fun copy_in_loop :: "copy_src \<Rightarrow> nat \<Rightarrow> nat \<Rightarrow> nat \<Rightarrow> buffer list \<Rightarrow> bool \<times> buffer list" where
  "copy_in_loop src pos copy_offset rem [] = (True, [])"
| "copy_in_loop src pos copy_offset rem (b # bs) =
     (if rem = 0 then (True, b # bs)
      else let copy_len = min rem (buf_size b - copy_offset)
           in case src pos copy_len of
                None \<Rightarrow> (False, b # bs)
              | Some data \<Rightarrow>
                  (let (ok, bs') = copy_in_loop src (pos + copy_len) 0 (rem - copy_len) bs
                   in (ok, b\<lparr>buf_raw := blit (buf_raw b) (buf_reserved b + copy_offset) data\<rparr> # bs')))"

definition CopyInCommon :: "copy_src \<Rightarrow> nat \<Rightarrow> nat \<Rightarrow> buffer_chain \<Rightarrow> zx_status_t \<times> buffer_chain" where
  "CopyInCommon src dst_offset sz chain =
     (let (ok, bufs) = copy_in_loop src 0 dst_offset sz (bc_buffers chain)
      in (if ok then ZX_OK else ZX_ERR_INVALID_ARGS, chain\<lparr>bc_buffers := bufs\<rparr>))"

definition CopyIn :: "user_ptr \<Rightarrow> nat \<Rightarrow> nat \<Rightarrow> buffer_chain \<Rightarrow> zx_status_t \<times> buffer_chain" where
  "CopyIn src = CopyInCommon (copy_array_from_user src)"

text \<open>\<^verbatim>\<open>KernelPtrAdapter\<close>: copies from kernel memory cannot fault.\<close>

definition KernelPtrAdapter :: "(nat \<Rightarrow> byte) \<Rightarrow> copy_src" where
  "KernelPtrAdapter p off n = Some (map p [off..<off + n])"

definition CopyInKernel :: "(nat \<Rightarrow> byte) \<Rightarrow> nat \<Rightarrow> nat \<Rightarrow> buffer_chain \<Rightarrow> zx_status_t \<times> buffer_chain" where
  "CopyInKernel src = CopyInCommon (KernelPtrAdapter src)"

text \<open>
  The loop of \<^verbatim>\<open>CopyOut\<close>, with the bytes that reached user memory, which is less than asked for when
  a copy faults.
\<close>

fun copy_out_loop :: "user_ptr \<Rightarrow> nat \<Rightarrow> nat \<Rightarrow> nat \<Rightarrow> buffer list \<Rightarrow> bool \<times> byte list" where
  "copy_out_loop dst pos copy_offset rem [] = (True, [])"
| "copy_out_loop dst pos copy_offset rem (b # bs) =
     (if rem = 0 then (True, [])
      else let copy_len = min rem (buf_size b - copy_offset);
               src = buf_reserved b + copy_offset
           in if \<not> user_range_ok dst pos copy_len then (False, [])
              else let (ok, out) = copy_out_loop dst (pos + copy_len) 0 (rem - copy_len) bs
                   in (ok, map (buf_raw b) [src..<src + copy_len] @ out))"

definition CopyOut :: "user_ptr \<Rightarrow> nat \<Rightarrow> nat \<Rightarrow> buffer_chain \<Rightarrow> zx_status_t \<times> byte list" where
  "CopyOut dst src_offset sz chain =
     (let (ok, out) = copy_out_loop dst 0 src_offset sz (bc_buffers chain)
      in (if ok then ZX_OK else ZX_ERR_INVALID_ARGS, out))"

section \<open>Message packets\<close>

type_synonym zx_txid_t = "32 word"

definition kMaxMessageSize :: nat where
  [const_defs]: "kMaxMessageSize = 65536"

definition kMaxMessageHandles :: nat where
  [const_defs]: "kMaxMessageHandles = 64"

text \<open>
  List node, chain pointer, handles pointer, data size, payload offset, handle count and
  ownership flag, padded to the alignment of a pointer.
\<close>

definition sizeof_MessagePacket :: nat where
  [const_defs]: "sizeof_MessagePacket = 48"

definition sizeof_txid :: nat where
  [const_defs]: "sizeof_txid = 4"

definition kHandlesOffset :: nat where
  [const_defs]: "kHandlesOffset = sizeof_MessagePacket"

text \<open>A handle is named by its index in the handle arena; \<^const>\<open>None\<close> is the null pointer.\<close>

record message_packet =
  mp_chain :: buffer_chain
  mp_handles :: "nat option list"
  mp_data_size :: nat
  mp_payload_offset :: nat
  mp_num_handles :: nat
  mp_owns_handles :: bool

text \<open>The allocated memory before anything is written to it.\<close>

record fresh_memory =
  fm_page :: "nat \<Rightarrow> ipc_page"
  fm_handle :: "nat \<Rightarrow> nat option"

definition PayloadOffset :: "nat \<Rightarrow> nat" where
  "PayloadOffset num_handles = kHandlesOffset + num_handles * 8"

definition MessagePacket_CreateCommon ::
    "bool \<Rightarrow> fresh_memory \<Rightarrow> nat \<Rightarrow> nat \<Rightarrow> zx_status_t + message_packet" where
  "MessagePacket_CreateCommon pmm_ok mem data_size num_handles =
     (if data_size > kMaxMessageSize \<or> num_handles > kMaxMessageHandles then Inl ZX_ERR_OUT_OF_RANGE
      else let payload_offset = PayloadOffset num_handles
           in case BufferChain_Alloc pmm_ok (fm_page mem) (payload_offset + data_size) of
                None \<Rightarrow> Inl ZX_ERR_NO_MEMORY
              | Some chain \<Rightarrow>
                  Inr \<lparr>mp_chain = chain, mp_handles = map (fm_handle mem) [0..<num_handles],
                       mp_data_size = data_size, mp_payload_offset = payload_offset,
                       mp_num_handles = num_handles, mp_owns_handles = False\<rparr>)"

text \<open>The two overloads of \<^verbatim>\<open>Create\<close> differ in the copy only.\<close>

definition MessagePacket_Create_with ::
    "(nat \<Rightarrow> nat \<Rightarrow> buffer_chain \<Rightarrow> zx_status_t \<times> buffer_chain) \<Rightarrow> bool \<Rightarrow> fresh_memory \<Rightarrow> nat \<Rightarrow> nat
       \<Rightarrow> zx_status_t + message_packet" where
  "MessagePacket_Create_with copy_in pmm_ok mem data_size num_handles =
     (case MessagePacket_CreateCommon pmm_ok mem data_size num_handles of
        Inl status \<Rightarrow> Inl status
      | Inr new_msg \<Rightarrow>
          (let (status, chain) = copy_in (PayloadOffset num_handles) data_size (mp_chain new_msg)
           in if status \<noteq> ZX_OK then Inl status else Inr (new_msg\<lparr>mp_chain := chain\<rparr>)))"

definition MessagePacket_Create ::
    "bool \<Rightarrow> fresh_memory \<Rightarrow> user_ptr \<Rightarrow> nat \<Rightarrow> nat \<Rightarrow> zx_status_t + message_packet" where
  "MessagePacket_Create pmm_ok mem data = MessagePacket_Create_with (CopyIn data) pmm_ok mem"

definition MessagePacket_Create_kernel ::
    "bool \<Rightarrow> fresh_memory \<Rightarrow> (nat \<Rightarrow> byte) \<Rightarrow> nat \<Rightarrow> nat \<Rightarrow> zx_status_t + message_packet" where
  "MessagePacket_Create_kernel pmm_ok mem data = MessagePacket_Create_with (CopyInKernel data) pmm_ok mem"

definition CopyDataTo :: "user_ptr \<Rightarrow> message_packet \<Rightarrow> zx_status_t \<times> byte list" where
  "CopyDataTo buf m = CopyOut buf (mp_payload_offset m) (mp_data_size m) (mp_chain m)"

definition set_owns_handles :: "bool \<Rightarrow> message_packet \<Rightarrow> message_packet" where
  "set_owns_handles own m = m\<lparr>mp_owns_handles := own\<rparr>"

text \<open>A 32-bit word in memory, lowest byte first.\<close>

definition le32_load :: "(nat \<Rightarrow> byte) \<Rightarrow> nat \<Rightarrow> 32 word" where
  "le32_load raw at = ucast (raw at) OR push_bit 8 (ucast (raw (at + 1)))
     OR push_bit 16 (ucast (raw (at + 2))) OR push_bit 24 (ucast (raw (at + 3)))"

definition le32_bytes :: "32 word \<Rightarrow> byte list" where
  "le32_bytes v = [ucast v, ucast (drop_bit 8 v), ucast (drop_bit 16 v), ucast (drop_bit 24 v)]"

text \<open>Where the payload starts in the first buffer.\<close>

definition payload_start :: "message_packet \<Rightarrow> nat" where
  "payload_start m = buf_reserved (hd (bc_buffers (mp_chain m))) + mp_payload_offset m"

definition get_txid :: "message_packet \<Rightarrow> zx_txid_t" where
  "get_txid m =
     (if mp_data_size m < sizeof_txid then 0
      else le32_load (buf_raw (hd (bc_buffers (mp_chain m)))) (payload_start m))"

definition set_txid :: "zx_txid_t \<Rightarrow> message_packet \<Rightarrow> message_packet" where
  "set_txid txid m =
     (if mp_data_size m \<ge> sizeof_txid
      then let front = hd (bc_buffers (mp_chain m));
               front' = front\<lparr>buf_raw := blit (buf_raw front) (payload_start m) (le32_bytes txid)\<rparr>
           in m\<lparr>mp_chain := (mp_chain m)\<lparr>bc_buffers := front' # tl (bc_buffers (mp_chain m))\<rparr>\<rparr>
      else m)"

text \<open>
  \<^verbatim>\<open>recycle\<close> with the destructor: the handles that are deleted, in order, and the pages
  that are returned.
\<close>

definition MessagePacket_recycle :: "message_packet \<Rightarrow> nat list \<times> ipc_page list" where
  "MessagePacket_recycle m =
     (if mp_owns_handles m then map the (filter (\<lambda>h. h \<noteq> None) (mp_handles m)) else [],
      BufferChain_Free (mp_chain m))"

section \<open>What a chain holds\<close>

text \<open>The bytes of a chain, in the order of its buffers, without the reserved space.\<close>

definition buf_bytes :: "buffer \<Rightarrow> byte list" where
  "buf_bytes b = map (buf_raw b) [buf_reserved b..<kRawDataSize]"

definition chain_data :: "buffer list \<Rightarrow> byte list" where
  "chain_data bufs = concat (map buf_bytes bufs)"

definition overwrite :: "'a list \<Rightarrow> nat \<Rightarrow> 'a list \<Rightarrow> 'a list" where
  "overwrite xs at ys = take at xs @ ys @ drop (at + length ys) xs"

lemma length_buf_bytes [simp]: "length (buf_bytes b) = buf_size b"
  by (simp add: buf_bytes_def buf_size_def)

lemma chain_data_simps [simp]:
  "chain_data [] = []" "chain_data (b # bs) = buf_bytes b @ chain_data bs"
  by (simp_all add: chain_data_def)

lemma length_overwrite [simp]: "at + length ys \<le> length xs \<Longrightarrow> length (overwrite xs at ys) = length xs"
  by (simp add: overwrite_def)

lemma overwrite_Nil [simp]: "overwrite xs at [] = xs"
  by (simp add: overwrite_def)

lemma overwrite_inside: "at + length ys \<le> length xs \<Longrightarrow> overwrite (xs @ zs) at ys = overwrite xs at ys @ zs"
  by (simp add: overwrite_def)

lemma overwrite_across:
  "at + length ys = length xs \<Longrightarrow> overwrite (xs @ zs) at (ys @ ws) = overwrite xs at ys @ overwrite zs 0 ws"
  by (simp add: overwrite_def) (metis add.assoc add_diff_cancel_left')

lemma overwrite_read: "at + length ys \<le> length xs \<Longrightarrow> take (length ys) (drop at (overwrite xs at ys)) = ys"
  by (simp add: overwrite_def)

lemma overwrite_prefix: "at + length ys \<le> length xs \<Longrightarrow> take at (overwrite xs at ys) = take at xs"
  by (simp add: overwrite_def)

lemma overwrite_nth:
  "at + length ys \<le> length xs \<Longrightarrow> i < length xs \<Longrightarrow>
     overwrite xs at ys ! i = (if at \<le> i \<and> i < at + length ys then ys ! (i - at) else xs ! i)"
  by (auto simp: overwrite_def nth_append min_def)

lemma buf_bytes_blit:
  assumes "off + length xs \<le> buf_size b"
  shows "buf_bytes (b\<lparr>buf_raw := blit (buf_raw b) (buf_reserved b + off) xs\<rparr>) = overwrite (buf_bytes b) off xs"
proof (rule nth_equalityI)
  show "length (buf_bytes (b\<lparr>buf_raw := blit (buf_raw b) (buf_reserved b + off) xs\<rparr>)) =
        length (overwrite (buf_bytes b) off xs)"
    using assms by (simp add: buf_size_def)
  fix i
  assume i: "i < length (buf_bytes (b\<lparr>buf_raw := blit (buf_raw b) (buf_reserved b + off) xs\<rparr>))"
  then have "i < buf_size b" by (simp add: buf_size_def)
  then show "buf_bytes (b\<lparr>buf_raw := blit (buf_raw b) (buf_reserved b + off) xs\<rparr>) ! i =
        overwrite (buf_bytes b) off xs ! i"
    using assms by (simp add: overwrite_nth) (auto simp: buf_bytes_def buf_size_def blit_def)
qed

text \<open>
  A source that has the bytes \<open>f\<close>, and serves a request exactly when it is inside the accessible part.
\<close>

definition serves :: "copy_src \<Rightarrow> (nat \<Rightarrow> byte) \<Rightarrow> (nat \<Rightarrow> nat \<Rightarrow> bool) \<Rightarrow> bool" where
  "serves src f ok \<longleftrightarrow>
     (\<forall>off n. src off n = (if ok off n then Some (map f [off..<off + n]) else None)) \<and>
     (\<forall>off. ok off 0) \<and>
     (\<forall>off m n. m \<le> n \<longrightarrow> ok off n = (ok off m \<and> ok (off + m) (n - m)))"

lemma serves_user: "serves (copy_array_from_user p) (ub_byte p) (user_range_ok p)"
  by (auto simp: serves_def copy_array_from_user_def user_range_ok_split)

lemma serves_kernel: "serves (KernelPtrAdapter p) p (\<lambda>off n. True)"
  by (simp add: serves_def KernelPtrAdapter_def)

lemma servesD:
  assumes "serves src f ok"
  shows "src off n = (if ok off n then Some (map f [off..<off + n]) else None)"
    and "ok off 0" and "m \<le> n \<Longrightarrow> ok off n = (ok off m \<and> ok (off + m) (n - m))"
  using assms by (auto simp: serves_def)

lemma copy_in_loop_spec:
  assumes "serves src f ok" "copy_offset + rem \<le> length (chain_data bufs)"
    "bufs \<noteq> [] \<Longrightarrow> copy_offset \<le> buf_size (hd bufs)"
  shows "fst (copy_in_loop src pos copy_offset rem bufs) = ok pos rem \<and>
         (ok pos rem \<longrightarrow>
            chain_data (snd (copy_in_loop src pos copy_offset rem bufs)) =
              overwrite (chain_data bufs) copy_offset (map f [pos..<pos + rem]))"
  using assms(2,3)
proof (induction bufs arbitrary: pos copy_offset rem)
  case Nil
  then show ?case using servesD(2) [OF assms(1)] by simp
next
  case (Cons b bs)
  define n where "n = min rem (buf_size b - copy_offset)"
  show ?case
  proof (cases "rem = 0 \<or> \<not> ok pos n")
    case True
    have "n \<le> rem" by (simp add: n_def)
    from True show ?thesis
      using servesD(1,2) [OF assms(1)] servesD(3) [OF assms(1) \<open>n \<le> rem\<close>, of pos]
      by (auto simp: Let_def n_def)
  next
    case False
    obtain ok' bs' where rec: "copy_in_loop src (pos + n) 0 (rem - n) bs = (ok', bs')" by fastforce
    have fit: "0 + (rem - n) \<le> length (chain_data bs)" and le: "n \<le> rem" "copy_offset + n \<le> buf_size b"
      using Cons.prems by (auto simp: n_def)
    have IH: "ok' = ok (pos + n) (rem - n)"
      "ok (pos + n) (rem - n) \<Longrightarrow>
         chain_data bs' = overwrite (chain_data bs) 0 (map f [pos + n..<pos + n + (rem - n)])"
      using Cons.IH [OF fit, of "pos + n"] rec by auto
    have step: "copy_in_loop src pos copy_offset rem (b # bs) =
        (ok', b\<lparr>buf_raw := blit (buf_raw b) (buf_reserved b + copy_offset) (map f [pos..<pos + n])\<rparr> # bs')"
      using False rec servesD(1) [OF assms(1), of pos n] by (simp add: Let_def flip: n_def)
    have all: "map f [pos..<pos + rem] = map f [pos..<pos + n] @ map f [pos + n..<pos + n + (rem - n)]"
      unfolding map_upt_append using le by simp
    have "overwrite (chain_data (b # bs)) copy_offset (map f [pos..<pos + rem]) =
        overwrite (buf_bytes b) copy_offset (map f [pos..<pos + n]) @
        overwrite (chain_data bs) 0 (map f [pos + n..<pos + n + (rem - n)])"
    proof (cases "rem \<le> buf_size b - copy_offset")
      case True
      then have "rem - n = 0" by (simp add: n_def)
      then show ?thesis using le by (simp add: all overwrite_inside)
    next
      case False
      then have "copy_offset + n = buf_size b" using Cons.prems(2) by (simp add: n_def)
      then show ?thesis unfolding all by (simp add: overwrite_across)
    qed
    then show ?thesis
      using step IH le False servesD(3) [OF assms(1) le(1), of pos] by (simp add: buf_bytes_blit)
  qed
qed

text \<open>Neither the reserved part of a buffer nor its length is touched.\<close>

definition same_frame :: "buffer \<Rightarrow> buffer \<Rightarrow> bool" where
  "same_frame b b' \<longleftrightarrow> buf_reserved b' = buf_reserved b \<and> (\<forall>i < buf_reserved b. buf_raw b' i = buf_raw b i)"

lemma copy_in_loop_frame: "list_all2 same_frame bufs (snd (copy_in_loop src pos copy_offset rem bufs))"
proof (induction bufs arbitrary: pos copy_offset rem)
  case Nil
  then show ?case by simp
next
  case (Cons b bs)
  then show ?case
    by (auto simp: same_frame_def blit_def Let_def case_prod_unfold split: option.split intro!: list_all2_refl)
qed

lemma copy_out_loop_spec:
  assumes "copy_offset + rem \<le> length (chain_data bufs)" "bufs \<noteq> [] \<Longrightarrow> copy_offset \<le> buf_size (hd bufs)"
  shows "fst (copy_out_loop dst pos copy_offset rem bufs) = user_range_ok dst pos rem \<and>
         (user_range_ok dst pos rem \<longrightarrow>
            snd (copy_out_loop dst pos copy_offset rem bufs) = take rem (drop copy_offset (chain_data bufs)))"
  using assms
proof (induction bufs arbitrary: pos copy_offset rem)
  case Nil
  then show ?case by simp
next
  case (Cons b bs)
  define n where "n = min rem (buf_size b - copy_offset)"
  have le: "n \<le> rem" and fit: "0 + (rem - n) \<le> length (chain_data bs)"
    using Cons.prems by (auto simp: n_def)
  note split = user_range_ok_split [OF le, of dst pos]
  show ?case
  proof (cases "rem = 0 \<or> \<not> user_range_ok dst pos n")
    case True
    then show ?thesis using split by (auto simp: Let_def n_def)
  next
    case False
    obtain ok' out where rec: "copy_out_loop dst (pos + n) 0 (rem - n) bs = (ok', out)" by fastforce
    have IH: "ok' = user_range_ok dst (pos + n) (rem - n)"
      "user_range_ok dst (pos + n) (rem - n) \<Longrightarrow> out = take (rem - n) (chain_data bs)"
      using Cons.IH [OF fit, of "pos + n"] rec by auto
    let ?s = "buf_reserved b + copy_offset"
    have step: "copy_out_loop dst pos copy_offset rem (b # bs) =
        (ok', map (buf_raw b) [?s..<?s + n] @ out)"
      using False rec by (simp add: Let_def flip: n_def)
    have "map (buf_raw b) [?s..<?s + n] = take n (drop copy_offset (buf_bytes b))"
      by (auto simp: buf_bytes_def drop_map take_map n_def buf_size_def intro!: nth_equalityI)
    moreover have "take rem (drop copy_offset (chain_data (b # bs))) =
        take n (drop copy_offset (buf_bytes b)) @ take (rem - n) (chain_data bs)"
      using Cons.prems by (auto simp: n_def min_def)
    ultimately show ?thesis using step IH False split by simp
  qed
qed

section \<open>Well-formed packets\<close>

definition packet_ok :: "message_packet \<Rightarrow> bool" where
  "packet_ok m \<longleftrightarrow>
     bc_buffers (mp_chain m) \<noteq> [] \<and>
     buf_reserved (hd (bc_buffers (mp_chain m))) = kSizeOfBufferChain \<and>
     mp_data_size m \<le> kMaxMessageSize \<and> mp_num_handles m \<le> kMaxMessageHandles \<and>
     length (mp_handles m) = mp_num_handles m \<and>
     mp_payload_offset m = PayloadOffset (mp_num_handles m) \<and>
     mp_payload_offset m + mp_data_size m \<le> length (chain_data (bc_buffers (mp_chain m)))"

definition mp_payload :: "message_packet \<Rightarrow> byte list" where
  "mp_payload m = take (mp_data_size m) (drop (mp_payload_offset m) (chain_data (bc_buffers (mp_chain m))))"

lemma packet_okD:
  assumes "packet_ok m"
  obtains b bs where "bc_buffers (mp_chain m) = b # bs" "buf_reserved b = kSizeOfBufferChain"
    "mp_payload_offset m + sizeof_txid \<le> buf_size b"
    "mp_payload_offset m + mp_data_size m \<le> length (chain_data (b # bs))"
proof -
  have "mp_payload_offset m + sizeof_txid \<le> kContig"
    using assms by (simp add: packet_ok_def PayloadOffset_def const_defs)
  then show thesis
    using assms that by (cases "bc_buffers (mp_chain m)") (auto simp: packet_ok_def buf_size_def kContig_def)
qed

lemma packet_ok_txid_contiguous: "packet_ok m \<Longrightarrow> payload_start m + sizeof_txid \<le> kRawDataSize"
  by (auto simp: packet_ok_def payload_start_def PayloadOffset_def const_defs)

lemma length_mp_payload [simp]: "packet_ok m \<Longrightarrow> length (mp_payload m) = mp_data_size m"
  by (auto simp: packet_ok_def mp_payload_def)

lemma num_buffers_enough:
  "sz + kSizeOfBufferChain \<le> num_buffers sz * kRawDataSize" "0 < num_buffers sz"
proof -
  show "0 < num_buffers sz"
    by (simp add: num_buffers_def const_defs div_greater_zero_iff)
  have "(4079 + (sz + 24)) mod 4080 \<le> 4079" by (simp add: mod_less_eq_dividend less_Suc_eq_le [symmetric])
  then have "4080 * ((4079 + (sz + 24)) div 4080) \<ge> sz + 24"
    using mult_div_mod_eq [of 4080 "4079 + (sz + 24)"] by linarith
  then show "sz + kSizeOfBufferChain \<le> num_buffers sz * kRawDataSize"
    by (simp add: num_buffers_def const_defs mult.commute add.commute)
qed

lemma fold_push_front: "fold (\<lambda>p bufs. f p # bufs) ps acc = rev (map f ps) @ acc"
  by (induction ps arbitrary: acc) auto

lemma chain_data_fresh: "length (chain_data (map new_buffer ps)) = length ps * kRawDataSize"
  by (induction ps) (auto simp: buf_size_def new_buffer_def)

lemma BufferChain_Alloc_ok:
  assumes "BufferChain_Alloc pmm_ok page sz = Some chain"
  obtains b bs where "bc_buffers chain = b # bs" "buf_reserved b = kSizeOfBufferChain"
    "sz \<le> length (chain_data (b # bs))" "bc_pages chain = map page [0..<num_buffers sz]"
proof -
  define ps where "ps = rev (map page [0..<num_buffers sz])"
  have ne: "ps \<noteq> []" and len: "length ps = num_buffers sz"
    using num_buffers_enough(2) [of sz] by (simp_all add: ps_def)
  then obtain p qs where p: "ps = p # qs" by (cases ps) auto
  have "fold (\<lambda>p bufs. new_buffer p # bufs) (map page [0..<num_buffers sz]) [] = map new_buffer ps"
    by (simp add: fold_push_front ps_def rev_map)
  then have c: "chain = \<lparr>bc_buffers = set_reserved kSizeOfBufferChain (new_buffer p) # map new_buffer qs,
      bc_pages = map page [0..<num_buffers sz]\<rparr>"
    using assms p by (auto simp: BufferChain_Alloc_def Let_def split: if_splits)
  have "sz + kSizeOfBufferChain \<le> Suc (length qs) * kRawDataSize"
    using num_buffers_enough(1) [of sz] len p by simp
  then have "sz \<le> length (chain_data (set_reserved kSizeOfBufferChain (new_buffer p) # map new_buffer qs))"
    by (simp add: chain_data_fresh buf_size_def set_reserved_def)
  then show thesis
    using that c by (simp add: set_reserved_def)
qed

section \<open>Creating and reading\<close>

lemma CreateCommon_ok:
  assumes "MessagePacket_CreateCommon pmm_ok mem n h = Inr m"
  shows "packet_ok m \<and> mp_data_size m = n \<and> mp_num_handles m = h \<and> \<not> mp_owns_handles m"
proof -
  obtain chain where c: "BufferChain_Alloc pmm_ok (fm_page mem) (PayloadOffset h + n) = Some chain"
    and m: "m = \<lparr>mp_chain = chain, mp_handles = map (fm_handle mem) [0..<h],
                 mp_data_size = n, mp_payload_offset = PayloadOffset h,
                 mp_num_handles = h, mp_owns_handles = False\<rparr>"
    and "n \<le> kMaxMessageSize" "h \<le> kMaxMessageHandles"
    using assms by (auto simp: MessagePacket_CreateCommon_def Let_def split: if_splits option.splits)
  moreover obtain b bs where "bc_buffers chain = b # bs" "buf_reserved b = kSizeOfBufferChain"
    "PayloadOffset h + n \<le> length (chain_data (b # bs))"
    using BufferChain_Alloc_ok [OF c] by metis
  ultimately show ?thesis
    by (simp add: packet_ok_def)
qed

lemma CopyDataTo_exact:
  assumes "packet_ok m"
  shows "fst (CopyDataTo dst m) = (if user_range_ok dst 0 (mp_data_size m) then ZX_OK else ZX_ERR_INVALID_ARGS)"
    and "user_range_ok dst 0 (mp_data_size m) \<Longrightarrow> snd (CopyDataTo dst m) = mp_payload m"
proof -
  obtain b bs where b: "bc_buffers (mp_chain m) = b # bs" "mp_payload_offset m + sizeof_txid \<le> buf_size b"
    "mp_payload_offset m + mp_data_size m \<le> length (chain_data (b # bs))"
    using packet_okD [OF assms] by metis
  note spec = copy_out_loop_spec [of "mp_payload_offset m" "mp_data_size m" "b # bs" dst 0]
  show "fst (CopyDataTo dst m) = (if user_range_ok dst 0 (mp_data_size m) then ZX_OK else ZX_ERR_INVALID_ARGS)"
    "user_range_ok dst 0 (mp_data_size m) \<Longrightarrow> snd (CopyDataTo dst m) = mp_payload m"
    using spec b by (auto simp: CopyDataTo_def CopyOut_def mp_payload_def simp del: copy_out_loop.simps split: prod.splits)
qed

definition packet_create_status :: "bool \<Rightarrow> nat \<Rightarrow> nat \<Rightarrow> bool \<Rightarrow> zx_status_t" where
  "packet_create_status pmm_ok n h readable =
     (if n > kMaxMessageSize \<or> h > kMaxMessageHandles then ZX_ERR_OUT_OF_RANGE
      else if \<not> pmm_ok then ZX_ERR_NO_MEMORY
      else if \<not> readable then ZX_ERR_INVALID_ARGS else ZX_OK)"

lemma CreateCommon_status:
  "MessagePacket_CreateCommon pmm_ok mem n h = Inl st \<longleftrightarrow>
     packet_create_status pmm_ok n h True = st \<and> st \<noteq> ZX_OK"
  by (auto simp: MessagePacket_CreateCommon_def packet_create_status_def BufferChain_Alloc_def Let_def
        split: option.splits)

lemma CopyInCommon_payload:
  assumes "serves src f ok" "packet_ok m" "CopyInCommon src (mp_payload_offset m) (mp_data_size m) (mp_chain m) = (st, chain)"
  shows "st = (if ok 0 (mp_data_size m) then ZX_OK else ZX_ERR_INVALID_ARGS)"
    and "bc_pages chain = bc_pages (mp_chain m)"
    and "ok 0 (mp_data_size m) \<Longrightarrow> packet_ok (m\<lparr>mp_chain := chain\<rparr>)"
    and "ok 0 (mp_data_size m) \<Longrightarrow> mp_payload (m\<lparr>mp_chain := chain\<rparr>) = map f [0..<mp_data_size m]"
    and "ok 0 (mp_data_size m) \<Longrightarrow> i < payload_start m \<Longrightarrow>
           buf_raw (hd (bc_buffers chain)) i = buf_raw (hd (bc_buffers (mp_chain m))) i"
proof -
  let ?n = "mp_data_size m" and ?o = "mp_payload_offset m"
  obtain b bs where b: "bc_buffers (mp_chain m) = b # bs" "buf_reserved b = kSizeOfBufferChain"
    "?o + sizeof_txid \<le> buf_size b" "?o + ?n \<le> length (chain_data (b # bs))"
    using packet_okD [OF assms(2)] by metis
  obtain good bufs where l: "copy_in_loop src 0 ?o ?n (b # bs) = (good, bufs)" by fastforce
  have c: "chain = (mp_chain m)\<lparr>bc_buffers := bufs\<rparr>" "st = (if good then ZX_OK else ZX_ERR_INVALID_ARGS)"
    using assms(3) b(1) l by (auto simp: CopyInCommon_def)
  have spec: "good = ok 0 ?n"
    "ok 0 ?n \<Longrightarrow> chain_data bufs = overwrite (chain_data (b # bs)) ?o (map f [0..<?n])"
    using copy_in_loop_spec [OF assms(1) b(4), of 0] b(3) l by auto
  have "list_all2 same_frame (b # bs) bufs"
    using copy_in_loop_frame [of "b # bs" src 0 ?o ?n] l by simp
  then obtain b' bs' where b': "bufs = b' # bs'" "same_frame b b'" by (auto simp: list_all2_Cons1)
  show "st = (if ok 0 ?n then ZX_OK else ZX_ERR_INVALID_ARGS)" "bc_pages chain = bc_pages (mp_chain m)"
    using c spec by auto
  assume ok: "ok 0 ?n"
  have len: "length (chain_data bufs) = length (chain_data (b # bs))"
    using spec(2) [OF ok] b(4) by simp
  show "packet_ok (m\<lparr>mp_chain := chain\<rparr>)"
    using assms(2) len b' b c by (auto simp: packet_ok_def same_frame_def)
  show "mp_payload (m\<lparr>mp_chain := chain\<rparr>) = map f [0..<?n]"
    using overwrite_read [of ?o "map f [0..<?n]" "chain_data (b # bs)"] spec(2) [OF ok] b(4) c
    by (simp add: mp_payload_def)
  assume i: "i < payload_start m"
  show "buf_raw (hd (bc_buffers chain)) i = buf_raw (hd (bc_buffers (mp_chain m))) i"
  proof (cases "i < buf_reserved b")
    case True
    then show ?thesis using b' b c by (simp add: same_frame_def)
  next
    case False
    define j where "j = i - buf_reserved b"
    have j: "j < ?o" "i = buf_reserved b + j" using False i b(1) by (auto simp: j_def payload_start_def)
    have sz: "j < buf_size b" "j < buf_size b'"
      using j b(3) b'(2) by (auto simp: same_frame_def buf_size_def)
    have "chain_data bufs ! j = chain_data (b # bs) ! j"
      using overwrite_nth [of ?o "map f [0..<?n]" "chain_data (b # bs)" j] spec(2) [OF ok] b(4) j(1) sz by simp
    then have "buf_bytes b' ! j = buf_bytes b ! j" using b'(1) sz by (simp add: nth_append)
    then show ?thesis
      using sz j b' b c by (simp add: buf_bytes_def buf_size_def same_frame_def)
  qed
qed

lemma Create_with_cases:
  assumes "serves src f ok" "MessagePacket_CreateCommon pmm_ok mem n h = Inr m0"
  obtains chain where "ok 0 n"
      "MessagePacket_Create_with (CopyInCommon src) pmm_ok mem n h = Inr (m0\<lparr>mp_chain := chain\<rparr>)"
      "packet_ok (m0\<lparr>mp_chain := chain\<rparr>)" "mp_payload (m0\<lparr>mp_chain := chain\<rparr>) = map f [0..<n]"
      "\<And>i. i < payload_start m0 \<Longrightarrow> buf_raw (hd (bc_buffers chain)) i = buf_raw (hd (bc_buffers (mp_chain m0))) i"
  | "\<not> ok 0 n" "MessagePacket_Create_with (CopyInCommon src) pmm_ok mem n h = Inl ZX_ERR_INVALID_ARGS"
proof -
  note c = CreateCommon_ok [OF assms(2)]
  then have off: "mp_payload_offset m0 = PayloadOffset h" "mp_data_size m0 = n" by (auto simp: packet_ok_def)
  obtain st chain where copy: "CopyInCommon src (PayloadOffset h) n (mp_chain m0) = (st, chain)" by fastforce
  have s: "packet_ok m0" "CopyInCommon src (mp_payload_offset m0) (mp_data_size m0) (mp_chain m0) = (st, chain)"
    using c copy off by auto
  note p = CopyInCommon_payload [OF assms(1) s]
  show thesis
  proof (cases "ok 0 n")
    case True
    then show ?thesis
      using that(1) [of chain] p off copy assms(2) by (simp add: MessagePacket_Create_with_def)
  next
    case False
    then show ?thesis
      using that(2) p(1) off copy assms(2) by (simp add: MessagePacket_Create_with_def)
  qed
qed

lemma Create_with_fail:
  "MessagePacket_CreateCommon pmm_ok mem n h = Inl st \<Longrightarrow>
     MessagePacket_Create_with copy_in pmm_ok mem n h = Inl st"
  by (simp add: MessagePacket_Create_with_def)

text \<open>The copy stays clear of the chain, the packet and its handles, which share the first buffer.\<close>

lemma create_keeps_header:
  assumes "MessagePacket_Create pmm_ok mem data n h = Inr m"
  obtains m0 where "MessagePacket_CreateCommon pmm_ok mem n h = Inr m0" "mp_handles m = mp_handles m0"
    "payload_start m0 = kSizeOfBufferChain + sizeof_MessagePacket + 8 * h"
    "\<And>i. i < payload_start m0 \<Longrightarrow>
       buf_raw (hd (bc_buffers (mp_chain m))) i = buf_raw (hd (bc_buffers (mp_chain m0))) i"
proof -
  obtain m0 where m0: "MessagePacket_CreateCommon pmm_ok mem n h = Inr m0"
    using assms by (cases "MessagePacket_CreateCommon pmm_ok mem n h")
      (auto simp: MessagePacket_Create_def Create_with_fail)
  then have st: "payload_start m0 = kSizeOfBufferChain + sizeof_MessagePacket + 8 * h"
    using CreateCommon_ok [OF m0] by (auto simp: packet_ok_def payload_start_def PayloadOffset_def kHandlesOffset_def)
  from serves_user [of data] m0 show thesis
    by (rule Create_with_cases) (use assms m0 st that in \<open>auto simp: MessagePacket_Create_def CopyIn_def\<close>)
qed

lemma Create_ok:
  assumes "MessagePacket_Create pmm_ok mem data n h = Inr m"
  shows "packet_ok m \<and> mp_data_size m = n \<and> mp_num_handles m = h \<and> \<not> mp_owns_handles m \<and>
         mp_payload m = user_bytes data n \<and> user_range_ok data 0 n"
proof -
  obtain m0 where m0: "MessagePacket_CreateCommon pmm_ok mem n h = Inr m0"
    using assms by (cases "MessagePacket_CreateCommon pmm_ok mem n h")
      (auto simp: MessagePacket_Create_def Create_with_fail)
  note c = CreateCommon_ok [OF m0]
  from serves_user [of data] m0 show ?thesis
    by (rule Create_with_cases) (use assms c in \<open>auto simp: MessagePacket_Create_def CopyIn_def user_bytes_def\<close>)
qed

text \<open>
  C27: a message packet is created whole or not at all, and gives back exactly the bytes it
  was made from. \<^verbatim>\<open>Create\<close> fails with out-of-range for more than 65536 bytes or 64
  handles, with no-memory when there are no pages and with invalid-args when the user's
  bytes cannot be read; otherwise the packet is well formed, has room for the handles, and
  its payload, spread over page-sized buffers behind the chain, the packet and the handles,
  is the user's data. \<^verbatim>\<open>CopyDataTo\<close> then copies out precisely these bytes.
\<close>

theorem packet_roundtrip:
  "case MessagePacket_Create pmm_ok mem data n h of
     Inl st \<Rightarrow> st = packet_create_status pmm_ok n h (user_range_ok data 0 n) \<and> st \<noteq> ZX_OK
   | Inr m \<Rightarrow> packet_create_status pmm_ok n h (user_range_ok data 0 n) = ZX_OK \<and> packet_ok m \<and>
       mp_data_size m = n \<and> mp_num_handles m = h \<and> mp_payload m = user_bytes data n \<and>
       (if user_range_ok dst 0 n then CopyDataTo dst m = (ZX_OK, user_bytes data n)
        else fst (CopyDataTo dst m) = ZX_ERR_INVALID_ARGS)"
proof (cases "MessagePacket_CreateCommon pmm_ok mem n h")
  case (Inl st)
  then show ?thesis
    using CreateCommon_status [of pmm_ok mem n h st] Create_with_fail [OF Inl]
    by (auto simp: MessagePacket_Create_def packet_create_status_def split: if_splits)
next
  case (Inr m0)
  have st: "packet_create_status pmm_ok n h r = (if r then ZX_OK else ZX_ERR_INVALID_ARGS)" for r
    using CreateCommon_status [of pmm_ok mem n h "packet_create_status pmm_ok n h True"] Inr
    by (auto simp: packet_create_status_def split: if_splits)
  show ?thesis
  proof (cases "MessagePacket_Create pmm_ok mem data n h")
    case (Inl e)
    from serves_user [of data] \<open>MessagePacket_CreateCommon pmm_ok mem n h = Inr m0\<close> show ?thesis
      by (rule Create_with_cases) (use Inl st in \<open>auto simp: MessagePacket_Create_def CopyIn_def\<close>)
  next
    case (Inr m)
    note m = Create_ok [OF Inr]
    then have "CopyDataTo dst m = (ZX_OK, user_bytes data n)" if "user_range_ok dst 0 n"
      using that CopyDataTo_exact [of m dst] by (simp add: prod_eq_iff)
    then show ?thesis
      using Inr m st CopyDataTo_exact(1) [of m dst] by simp
  qed
qed

section \<open>Transaction ids\<close>

lemma le32_roundtrip: "le32_load (blit raw at (le32_bytes v)) at = v"
proof -
  have "le32_load (blit raw at (le32_bytes v)) at =
      ucast (ucast v :: byte) OR push_bit 8 (ucast (ucast (drop_bit 8 v) :: byte)) OR
      push_bit 16 (ucast (ucast (drop_bit 16 v) :: byte)) OR push_bit 24 (ucast (ucast (drop_bit 24 v) :: byte))"
    by (simp add: le32_load_def le32_bytes_def blit_def)
  also have "\<dots> = v"
  proof (rule bit_word_eqI)
    fix i
    assume i: "i < LENGTH(32)"
    consider "i < 8" | "8 \<le> i" "i < 16" | "16 \<le> i" "i < 24" | "24 \<le> i" by linarith
    then show "bit (ucast (ucast v :: byte) OR push_bit 8 (ucast (ucast (drop_bit 8 v) :: byte)) OR
        push_bit 16 (ucast (ucast (drop_bit 16 v) :: byte)) OR
        push_bit 24 (ucast (ucast (drop_bit 24 v) :: byte)) :: 32 word) i = bit v i"
      using i by cases (auto simp: bit_simps)
  qed
  finally show ?thesis .
qed

lemma length_le32_bytes [simp]: "length (le32_bytes v) = sizeof_txid"
  by (simp add: le32_bytes_def const_defs)

lemma set_txid_fields [simp]:
  "mp_handles (set_txid v m) = mp_handles m" "mp_data_size (set_txid v m) = mp_data_size m"
  "mp_payload_offset (set_txid v m) = mp_payload_offset m" "mp_num_handles (set_txid v m) = mp_num_handles m"
  "mp_owns_handles (set_txid v m) = mp_owns_handles m" "bc_pages (mp_chain (set_txid v m)) = bc_pages (mp_chain m)"
  by (simp_all add: set_txid_def Let_def)

lemma set_txid_chain:
  assumes "packet_ok m" "sizeof_txid \<le> mp_data_size m"
  shows "chain_data (bc_buffers (mp_chain (set_txid v m))) =
           overwrite (chain_data (bc_buffers (mp_chain m))) (mp_payload_offset m) (le32_bytes v)"
proof -
  obtain b bs where b: "bc_buffers (mp_chain m) = b # bs" "mp_payload_offset m + sizeof_txid \<le> buf_size b"
    using packet_okD [OF assms(1)] by metis
  then show ?thesis
    using assms(2) buf_bytes_blit [of "mp_payload_offset m" "le32_bytes v" b]
    by (simp add: set_txid_def payload_start_def Let_def overwrite_inside)
qed

lemma packet_ok_set_txid: "packet_ok m \<Longrightarrow> packet_ok (set_txid v m)"
proof (cases "sizeof_txid \<le> mp_data_size m")
  case True
  assume ok: "packet_ok m"
  then have "length (chain_data (bc_buffers (mp_chain (set_txid v m)))) =
      length (chain_data (bc_buffers (mp_chain m)))"
    using True by (subst set_txid_chain [OF ok True]) (auto simp: packet_ok_def)
  moreover have "bc_buffers (mp_chain (set_txid v m)) \<noteq> []"
    "buf_reserved (hd (bc_buffers (mp_chain (set_txid v m)))) = kSizeOfBufferChain"
    using ok True by (auto simp: set_txid_def Let_def packet_ok_def)
  ultimately show ?thesis using ok by (simp add: packet_ok_def)
qed (simp add: set_txid_def)

lemma get_set_txid:
  "get_txid (set_txid v m) = (if sizeof_txid \<le> mp_data_size m then v else 0)"
  by (simp add: get_txid_def) (simp add: set_txid_def payload_start_def Let_def le32_roundtrip)

lemma payload_set_txid:
  assumes "packet_ok m" "sizeof_txid \<le> mp_data_size m"
  shows "mp_payload (set_txid v m) = le32_bytes v @ drop sizeof_txid (mp_payload m)"
proof -
  have "mp_payload_offset m + mp_data_size m \<le> length (chain_data (bc_buffers (mp_chain m)))"
    using assms(1) by (simp add: packet_ok_def)
  then show ?thesis
    using assms(2) by (simp add: mp_payload_def set_txid_chain [OF assms] overwrite_def drop_take add.commute)
qed

end
