(* ===== verification/Channel.thy ===== *)
theory Channel
  imports MessagePacket
begin

text \<open>
  Channels (\<^verbatim>\<open>object/channel_dispatcher.cpp\<close>): pairs of endpoints, each with a queue of
  message packets that the other endpoint fills, and calls, which send a request and wait for the packet
  with the same transaction id. The state holds all channels and the message waiter of every thread:
  an endpoint is named by the number of its pair and its side, a waiter by its thread. The two
  endpoints of a pair share a lock; an operation that holds it is one step. A call is two steps, since other
  threads run while it waits. \<open>chan_peers\<close> interprets the peered interface for every pair.
\<close>

section \<open>State\<close>

definition ZX_CHANNEL_READABLE :: zx_signals_t where
  [sig_defs]: "ZX_CHANNEL_READABLE = ZX_OBJECT_READABLE"

definition ZX_CHANNEL_WRITABLE :: zx_signals_t where
  [sig_defs]: "ZX_CHANNEL_WRITABLE = ZX_OBJECT_WRITABLE"

definition ZX_CHANNEL_PEER_CLOSED :: zx_signals_t where
  [sig_defs]: "ZX_CHANNEL_PEER_CLOSED = ZX_OBJECT_PEER_CLOSED"

record channel = dispatcher +
  ch_peer :: bool
  ch_messages :: "message_packet list"
  ch_message_count :: nat
  ch_max_message_count :: nat
  ch_owner :: zx_koid_t
  ch_txid :: "32 word"
  ch_waiters :: "nat list"

type_synonym chan_ref = "nat \<times> side"

fun peer_ref :: "chan_ref \<Rightarrow> chan_ref" where
  "peer_ref (k, x) = (k, peer_of x)"

record message_waiter =
  mw_channel :: "chan_ref option"
  mw_msg :: "message_packet option"
  mw_signaled :: bool
  mw_txid :: zx_txid_t
  mw_status :: zx_status_t

record chan_state =
  cs_chan :: "chan_ref \<Rightarrow> channel"
  cs_waiter :: "nat \<Rightarrow> message_waiter"
  cs_shot :: "nat list"

definition chan_upd :: "chan_ref \<Rightarrow> (channel \<Rightarrow> channel) \<Rightarrow> chan_state \<Rightarrow> chan_state" where
  "chan_upd r f s = s\<lparr>cs_chan := (cs_chan s)(r := f (cs_chan s r))\<rparr>"

definition waiter_upd :: "nat \<Rightarrow> (message_waiter \<Rightarrow> message_waiter) \<Rightarrow> chan_state \<Rightarrow> chan_state" where
  "waiter_upd t f s = s\<lparr>cs_waiter := (cs_waiter s)(t := f (cs_waiter s t))\<rparr>"

section \<open>Creation\<close>

definition new_channel :: "zx_koid_t \<Rightarrow> channel" where
  "new_channel koid =
     \<lparr>obj_koid = koid, obj_handle_count = 0, obj_signals = ZX_CHANNEL_WRITABLE, state_changes = [],
      ch_peer = True, ch_messages = [], ch_message_count = 0, ch_max_message_count = 0,
      ch_owner = ZX_KOID_INVALID, ch_txid = 0, ch_waiters = []\<rparr>"

text \<open>The three allocations: the holder and the two endpoints.\<close>

definition ChannelDispatcher_Create ::
    "bool list \<Rightarrow> zx_koid_t \<Rightarrow> zx_koid_t \<Rightarrow> zx_status_t + (side \<Rightarrow> channel)" where
  "ChannelDispatcher_Create alloc_ok koid0 koid1 =
     (if \<not> list_all id alloc_ok then Inl ZX_ERR_NO_MEMORY
      else Inr (\<lambda>x. case x of Side0 \<Rightarrow> new_channel koid0 | Side1 \<Rightarrow> new_channel koid1))"

definition new_waiter :: message_waiter where
  "new_waiter = \<lparr>mw_channel = None, mw_msg = None, mw_signaled = False, mw_txid = 0,
                 mw_status = ZX_ERR_BAD_STATE\<rparr>"

section \<open>Message waiters\<close>

definition BeginWait :: "nat \<Rightarrow> chan_ref \<Rightarrow> chan_state \<Rightarrow> zx_status_t \<times> chan_state" where
  "BeginWait t channel s =
     (if mw_channel (cs_waiter s t) \<noteq> None then (ZX_ERR_BAD_STATE, s)
      else (ZX_OK, waiter_upd t (\<lambda>w. w\<lparr>mw_status := ZX_ERR_TIMED_OUT, mw_channel := Some channel,
                                       mw_signaled := False\<rparr>) s))"

definition waiter_Deliver :: "nat \<Rightarrow> message_packet \<Rightarrow> chan_state \<Rightarrow> chan_state" where
  "waiter_Deliver t msg =
     waiter_upd t (\<lambda>w. w\<lparr>mw_msg := Some msg, mw_status := ZX_OK, mw_signaled := True\<rparr>)"

definition waiter_Cancel :: "zx_status_t \<Rightarrow> nat \<Rightarrow> chan_state \<Rightarrow> chan_state" where
  "waiter_Cancel status t = waiter_upd t (\<lambda>w. w\<lparr>mw_status := status, mw_signaled := True\<rparr>)"

text \<open>
  \<^verbatim>\<open>Wait\<close>, with the value that blocking on the event would return: an event that is
  already signaled is not waited for.
\<close>

definition waiter_Wait :: "zx_status_t \<Rightarrow> message_waiter \<Rightarrow> zx_status_t" where
  "waiter_Wait blocked w =
     (if mw_channel w = None then ZX_ERR_BAD_STATE else if mw_signaled w then ZX_OK else blocked)"

definition EndWait :: "nat \<Rightarrow> chan_state \<Rightarrow> zx_status_t \<times> message_packet option \<times> chan_state" where
  "EndWait t s =
     (let w = cs_waiter s t
      in if mw_channel w = None then (ZX_ERR_BAD_STATE, None, s)
         else (mw_status w, mw_msg w, waiter_upd t (\<lambda>w. w\<lparr>mw_msg := None, mw_channel := None\<rparr>) s))"

definition RemoveWaiter :: "chan_ref \<Rightarrow> nat \<Rightarrow> chan_state \<Rightarrow> chan_state" where
  "RemoveWaiter r t s =
     (if t \<notin> set (ch_waiters (cs_chan s r)) then s
      else chan_upd r (\<lambda>c. c\<lparr>ch_waiters := remove1 t (ch_waiters c)\<rparr>) s)"

text \<open>The destructor, run when the thread goes; the packet it still holds is destroyed with it.\<close>

definition MessageWaiter_dtor :: "nat \<Rightarrow> chan_state \<Rightarrow> message_packet option \<times> chan_state" where
  "MessageWaiter_dtor t s =
     (mw_msg (cs_waiter s t),
      waiter_upd t (\<lambda>w. new_waiter)
        (case mw_channel (cs_waiter s t) of None \<Rightarrow> s | Some r \<Rightarrow> RemoveWaiter r t s))"

section \<open>Reading and writing\<close>

text \<open>
  \<^verbatim>\<open>Read\<close>: the status, the two in-out parameters, the packet handed over, and the state.
\<close>

definition channel_Read ::
    "chan_ref \<Rightarrow> zx_koid_t \<Rightarrow> nat \<Rightarrow> nat \<Rightarrow> bool \<Rightarrow> chan_state
       \<Rightarrow> (zx_status_t \<times> nat \<times> nat \<times> message_packet option) \<times> chan_state" where
  "channel_Read r owner max_size max_handle_count may_discard s =
     (let c = cs_chan s r in
      if owner \<noteq> ch_owner c then ((ZX_ERR_BAD_HANDLE, max_size, max_handle_count, None), s)
      else case ch_messages c of
             [] \<Rightarrow> ((if ch_peer c then ZX_ERR_SHOULD_WAIT else ZX_ERR_PEER_CLOSED,
                    max_size, max_handle_count, None), s)
           | m # ms \<Rightarrow>
               (let msg_size = mp_data_size m;
                    msg_handle_count = mp_num_handles m;
                    too_small = (msg_size > max_size \<or> msg_handle_count > max_handle_count)
                in if too_small \<and> \<not> may_discard
                   then ((ZX_ERR_BUFFER_TOO_SMALL, msg_size, msg_handle_count, None), s)
                   else ((if too_small then ZX_ERR_BUFFER_TOO_SMALL else ZX_OK,
                          msg_size, msg_handle_count, Some m),
                         chan_upd r (\<lambda>c.
                           let c' = c\<lparr>ch_messages := ms, ch_message_count := ch_message_count c - 1\<rparr>
                           in if ms = [] then UpdateStateLocked ZX_CHANNEL_READABLE 0 c' else c') s)))"

text \<open>The waiter that a packet arriving at an endpoint answers.\<close>

definition reply_target :: "chan_ref \<Rightarrow> message_packet \<Rightarrow> chan_state \<Rightarrow> nat option" where
  "reply_target r msg s =
     find (\<lambda>t. mw_txid (cs_waiter s t) = get_txid msg) (ch_waiters (cs_chan s r))"

definition channel_WriteSelf :: "chan_ref \<Rightarrow> message_packet \<Rightarrow> chan_state \<Rightarrow> chan_state" where
  "channel_WriteSelf r msg s =
     (case reply_target r msg s of
        Some t \<Rightarrow> waiter_Deliver t msg (chan_upd r (\<lambda>c. c\<lparr>ch_waiters := remove1 t (ch_waiters c)\<rparr>) s)
      | None \<Rightarrow>
          chan_upd r (\<lambda>c.
            let n = ch_message_count c + 1
            in UpdateStateLocked 0 ZX_CHANNEL_READABLE
                 (c\<lparr>ch_messages := ch_messages c @ [msg], ch_message_count := n,
                    ch_max_message_count := (if n > ch_max_message_count c then n else ch_max_message_count c)\<rparr>)) s)"

definition channel_Write :: "chan_ref \<Rightarrow> zx_koid_t \<Rightarrow> message_packet \<Rightarrow> chan_state \<Rightarrow> zx_status_t \<times> chan_state" where
  "channel_Write r owner msg s =
     (let c = cs_chan s r in
      if owner \<noteq> ch_owner c then (ZX_ERR_BAD_HANDLE, s)
      else if \<not> ch_peer c then (ZX_ERR_PEER_CLOSED, s)
      else (ZX_OK, channel_WriteSelf (peer_ref r) msg s))"

section \<open>Calls\<close>

text \<open>
  The loop at \<^verbatim>\<open>alloc_txid\<close>: the ids in use and the counter give the new id and the
  counter after it. \<^const>\<open>None\<close> is a loop that does not end.
\<close>

partial_function (option) alloc_txid :: "zx_txid_t list \<Rightarrow> 32 word \<Rightarrow> (zx_txid_t \<times> 32 word) option" where
  "alloc_txid used counter =
     (let counter' = counter + 1;
          txid = counter' OR 0x80000000
      in if txid \<in> set used then alloc_txid used counter' else Some (txid, counter'))"

declare alloc_txid.simps [code]

text \<open>
  The first half of \<^verbatim>\<open>Call\<close>, up to the wait. The result is the status with which the
  call returns at once, or no status when the thread goes on to wait.
\<close>

definition channel_Call ::
    "nat \<Rightarrow> chan_ref \<Rightarrow> zx_koid_t \<Rightarrow> message_packet \<Rightarrow> chan_state \<Rightarrow> (zx_status_t option \<times> chan_state) option" where
  "channel_Call t r owner msg s =
     (let (begun, s1) = BeginWait t r s in
      if begun \<noteq> ZX_OK then Some (Some ZX_ERR_BAD_STATE, s1\<lparr>cs_shot := cs_shot s1 @ [t]\<rparr>)
      else let c = cs_chan s1 r in
           if owner \<noteq> ch_owner c then Some (Some ZX_ERR_BAD_HANDLE, s1)
           else if \<not> ch_peer c then Some (Some ZX_ERR_PEER_CLOSED, snd (snd (EndWait t s1)))
           else case alloc_txid (map (\<lambda>u. mw_txid (cs_waiter s1 u)) (ch_waiters c)) (ch_txid c) of
                  None \<Rightarrow> None
                | Some (txid, counter) \<Rightarrow>
                    (let s2 = chan_upd r (\<lambda>c. c\<lparr>ch_txid := counter, ch_waiters := ch_waiters c @ [t]\<rparr>)
                                (waiter_upd t (\<lambda>w. w\<lparr>mw_txid := txid\<rparr>) s1)
                     in Some (None, channel_WriteSelf (peer_ref r) (set_txid txid msg) s2)))"

text \<open>
  \<^verbatim>\<open>ResumeInterruptedCall\<close> from the moment \<^verbatim>\<open>Wait\<close> has returned, with what it
  returned. Other threads may have run since. Erasing a waiter that is in no list follows its
  null links, which is \<^const>\<open>None\<close> here.
\<close>

definition channel_ResumeInterruptedCall ::
    "chan_ref \<Rightarrow> nat \<Rightarrow> zx_status_t \<Rightarrow> chan_state \<Rightarrow> ((zx_status_t \<times> message_packet option) \<times> chan_state) option" where
  "channel_ResumeInterruptedCall r t waited s =
     (if waited = ZX_ERR_INTERNAL_INTR_RETRY then Some ((waited, None), s)
      else let (status, reply, s1) = EndWait t s in
           if status = ZX_ERR_TIMED_OUT
           then if t \<in> set (ch_waiters (cs_chan s1 r))
                then Some ((status, reply), chan_upd r (\<lambda>c. c\<lparr>ch_waiters := remove1 t (ch_waiters c)\<rparr>) s1)
                else None
           else Some ((status, reply), s1))"

section \<open>Owner, observers, closing\<close>

definition channel_set_owner :: "chan_ref \<Rightarrow> zx_koid_t \<Rightarrow> chan_state \<Rightarrow> chan_state" where
  "channel_set_owner r new_owner s =
     (if new_owner = ZX_KOID_INVALID then s else chan_upd r (\<lambda>c. c\<lparr>ch_owner := new_owner\<rparr>) s)"

text \<open>The counts that \<^verbatim>\<open>add_observer\<close> shows to a new observer.\<close>

definition channel_count_info :: "channel \<Rightarrow> (nat \<times> zx_signals_t) list" where
  "channel_count_info c = [(ch_message_count c, ZX_CHANNEL_READABLE), (0, 0)]"

definition abort_calls :: "chan_ref \<Rightarrow> zx_status_t \<Rightarrow> chan_state \<Rightarrow> chan_state" where
  "abort_calls r status s =
     fold (waiter_Cancel status) (ch_waiters (cs_chan s r)) (chan_upd r (\<lambda>c. c\<lparr>ch_waiters := []\<rparr>) s)"

definition chan_on_zero_handles_locked :: "nat \<Rightarrow> side \<Rightarrow> chan_state \<Rightarrow> chan_state" where
  "chan_on_zero_handles_locked k x s = abort_calls (k, x) ZX_ERR_CANCELED s"

definition chan_update :: "nat \<Rightarrow> side \<Rightarrow> zx_signals_t \<Rightarrow> zx_signals_t \<Rightarrow> chan_state \<Rightarrow> chan_state" where
  "chan_update k x clear_mask set_mask s = chan_upd (k, x) (UpdateStateLocked clear_mask set_mask) s"

definition chan_OnPeerZeroHandlesLocked :: "nat \<Rightarrow> side \<Rightarrow> chan_state \<Rightarrow> chan_state" where
  "chan_OnPeerZeroHandlesLocked k x s =
     abort_calls (k, x) ZX_ERR_PEER_CLOSED (chan_update k x ZX_CHANNEL_WRITABLE ZX_CHANNEL_PEER_CLOSED s)"

definition chan_has_peer :: "nat \<Rightarrow> side \<Rightarrow> chan_state \<Rightarrow> bool" where
  "chan_has_peer k x s = ch_peer (cs_chan s (k, x))"

definition chan_reset_peer :: "nat \<Rightarrow> side \<Rightarrow> chan_state \<Rightarrow> chan_state" where
  "chan_reset_peer k x s = chan_upd (k, x) (\<lambda>c. c\<lparr>ch_peer := False\<rparr>) s"

abbreviation chan_close :: "nat \<Rightarrow> side \<Rightarrow> chan_state \<Rightarrow> chan_state" where
  "chan_close k \<equiv> on_zero_handles (chan_has_peer k) (chan_reset_peer k) (chan_on_zero_handles_locked k)
                    (chan_OnPeerZeroHandlesLocked k)"

text \<open>The destructor drops the packets that nobody will read.\<close>

definition ChannelDispatcher_dtor :: "channel \<Rightarrow> message_packet list \<times> channel" where
  "ChannelDispatcher_dtor c = (ch_messages c, c\<lparr>ch_messages := [], ch_message_count := 0\<rparr>)"

section \<open>Runs\<close>

text \<open>
  The operations that threads perform on channels, in any order: each is one locked
  section. A call is two of them, sending and finishing; between the two other operations
  may run, and the finishing one may be tried again after an interruption. The events of a
  run record the packets that move and the calls that start and return.
\<close>

datatype chan_op =
    Op_set_owner chan_ref zx_koid_t
  | Op_read chan_ref zx_koid_t nat nat bool
  | Op_write chan_ref zx_koid_t message_packet
  | Op_call nat chan_ref zx_koid_t message_packet
  | Op_finish nat zx_status_t
  | Op_close chan_ref
  | Op_exit nat
  | Op_signal_self chan_ref zx_signals_t zx_signals_t
  | Op_signal_peer chan_ref zx_signals_t zx_signals_t

datatype chan_event =
    Sent chan_ref message_packet "nat option"
  | Got chan_ref message_packet
  | Asked nat chan_ref zx_txid_t
  | Returned nat zx_status_t "message_packet option"
  | Shot nat
  | Closed chan_ref
  | Exited nat "message_packet option"

fun call_events :: "nat \<Rightarrow> chan_ref \<Rightarrow> message_packet \<Rightarrow> chan_state \<Rightarrow> zx_status_t option \<Rightarrow> chan_state \<Rightarrow> chan_event list" where
  "call_events t r msg s (Some status) s' =
     [if status = ZX_ERR_BAD_STATE then Shot t else Returned t status None]"
| "call_events t r msg s None s' =
     (let txid = mw_txid (cs_waiter s' t); m = set_txid txid msg
      in [Asked t r txid, Sent (peer_ref r) m (reply_target (peer_ref r) m s)])"

fun chan_step :: "chan_op \<Rightarrow> chan_state \<Rightarrow> (chan_state \<times> chan_event list) option" where
  "chan_step (Op_set_owner r koid) s = Some (channel_set_owner r koid s, [])"
| "chan_step (Op_read r owner max_size max_handles may_discard) s =
     (case channel_Read r owner max_size max_handles may_discard s of
        ((st, n, h, None), s') \<Rightarrow> Some (s', [])
      | ((st, n, h, Some m), s') \<Rightarrow> Some (s', [Got r m]))"
| "chan_step (Op_write r owner msg) s =
     (let (st, s') = channel_Write r owner msg s
      in Some (s', if st = ZX_OK then [Sent (peer_ref r) msg (reply_target (peer_ref r) msg s)] else []))"
| "chan_step (Op_call t r owner msg) s =
     (case channel_Call t r owner msg s of
        None \<Rightarrow> None
      | Some (st, s') \<Rightarrow> Some (s', call_events t r msg s st s'))"
| "chan_step (Op_finish t waited) s =
     (case mw_channel (cs_waiter s t) of
        None \<Rightarrow> Some (s, [])
      | Some r \<Rightarrow>
          (case channel_ResumeInterruptedCall r t waited s of
             None \<Rightarrow> None
           | Some ((st, reply), s') \<Rightarrow>
               Some (s', if st = ZX_ERR_INTERNAL_INTR_RETRY then [] else [Returned t st reply])))"
| "chan_step (Op_close r) s = Some (chan_close (fst r) (snd r) s, [Closed r])"
| "chan_step (Op_exit t) s = (let (m, s') = MessageWaiter_dtor t s in Some (s', [Exited t m]))"
| "chan_step (Op_signal_self r c st) s =
     Some (snd (user_signal_self (chan_update (fst r)) 0 (snd r) c st s), [])"
| "chan_step (Op_signal_peer r c st) s =
     Some (snd (user_signal_peer (chan_has_peer (fst r)) (chan_update (fst r)) 0 (snd r) c st s), [])"

fun chan_run :: "chan_op list \<Rightarrow> chan_state \<times> chan_event list \<Rightarrow> (chan_state \<times> chan_event list) option" where
  "chan_run [] sl = Some sl"
| "chan_run (op # ops) (s, l) =
     (case chan_step op s of
        None \<Rightarrow> None
      | Some (s', ev) \<Rightarrow> chan_run ops (s', l @ ev))"

text \<open>Before the first operation: every pair as \<^verbatim>\<open>Create\<close> leaves it, no thread in a call.\<close>

definition chan_init :: "(nat \<Rightarrow> side \<Rightarrow> zx_koid_t) \<Rightarrow> chan_state" where
  "chan_init koid = \<lparr>cs_chan = (\<lambda>(k, x). new_channel (koid k x)), cs_waiter = (\<lambda>t. new_waiter), cs_shot = []\<rparr>"

section \<open>What a log says\<close>

fun event_queued :: "chan_ref \<Rightarrow> chan_event \<Rightarrow> message_packet list" where
  "event_queued r (Sent r' m None) = (if r' = r then [m] else [])"
| "event_queued r _ = []"

fun event_read :: "chan_ref \<Rightarrow> chan_event \<Rightarrow> message_packet list" where
  "event_read r (Got r' m) = (if r' = r then [m] else [])"
| "event_read r _ = []"

text \<open>The packets queued at an endpoint and the packets read from it, in order.\<close>

definition queued_at :: "chan_ref \<Rightarrow> chan_event list \<Rightarrow> message_packet list" where
  "queued_at r l = concat (map (event_queued r) l)"

definition read_from :: "chan_ref \<Rightarrow> chan_event list \<Rightarrow> message_packet list" where
  "read_from r l = concat (map (event_read r) l)"

text \<open>
  The call a thread is in after the log: where, with which id, and the packet that has
  answered it, if any.
\<close>

type_synonym open_call = "(chan_ref \<times> zx_txid_t \<times> message_packet option) option"

fun event_call :: "nat \<Rightarrow> chan_event \<Rightarrow> open_call \<Rightarrow> open_call" where
  "event_call t (Asked t' r txid) oc = (if t' = t then Some (r, txid, None) else oc)"
| "event_call t (Sent r m (Some t')) oc =
     (case oc of
        Some (r', txid, _) \<Rightarrow> if t' = t \<and> r' = r then Some (r', txid, Some m) else oc
      | None \<Rightarrow> None)"
| "event_call t (Returned t' st reply) oc = (if t' = t then None else oc)"
| "event_call t (Exited t' m) oc = (if t' = t then None else oc)"
| "event_call t _ oc = oc"

definition call_of :: "nat \<Rightarrow> chan_event list \<Rightarrow> open_call" where
  "call_of t l = fold (event_call t) l None"

lemma log_snoc [simp]:
  "queued_at r [] = []" "queued_at r (l @ l') = queued_at r l @ queued_at r l'"
  "queued_at r (e # l) = event_queued r e @ queued_at r l"
  "read_from r [] = []" "read_from r (l @ l') = read_from r l @ read_from r l'"
  "read_from r (e # l) = event_read r e @ read_from r l"
  "call_of t [] = None" "call_of t (l @ l') = fold (event_call t) l' (call_of t l)"
  by (simp_all add: queued_at_def read_from_def call_of_def)

section \<open>State updates\<close>

lemma chan_upd_simps [simp]:
  "cs_chan (chan_upd r f s) r' = (if r' = r then f (cs_chan s r) else cs_chan s r')"
  "cs_waiter (chan_upd r f s) = cs_waiter s" "cs_shot (chan_upd r f s) = cs_shot s"
  by (simp_all add: chan_upd_def)

lemma waiter_upd_simps [simp]:
  "cs_waiter (waiter_upd t f s) t' = (if t' = t then f (cs_waiter s t) else cs_waiter s t')"
  "cs_chan (waiter_upd t f s) = cs_chan s" "cs_shot (waiter_upd t f s) = cs_shot s"
  by (simp_all add: waiter_upd_def)

lemma waiter_Cancel_fold:
  "cs_chan (fold (waiter_Cancel st) ts s) = cs_chan s"
  "cs_shot (fold (waiter_Cancel st) ts s) = cs_shot s"
  "cs_waiter (fold (waiter_Cancel st) ts s) t =
     (if t \<in> set ts then (cs_waiter s t)\<lparr>mw_status := st, mw_signaled := True\<rparr> else cs_waiter s t)"
  by (induction ts arbitrary: s) (auto simp: waiter_Cancel_def)

lemma abort_calls_simps [simp]:
  "cs_chan (abort_calls r st s) r' = (if r' = r then (cs_chan s r)\<lparr>ch_waiters := []\<rparr> else cs_chan s r')"
  "cs_waiter (abort_calls r st s) t =
     (if t \<in> set (ch_waiters (cs_chan s r)) then (cs_waiter s t)\<lparr>mw_status := st, mw_signaled := True\<rparr>
      else cs_waiter s t)"
  "cs_shot (abort_calls r st s) = cs_shot s"
  by (simp_all add: abort_calls_def waiter_Cancel_fold)

lemma UpdateStateLocked_channel [simp]:
  "ch_peer (UpdateStateLocked c t d) = ch_peer d" "ch_messages (UpdateStateLocked c t d) = ch_messages d"
  "ch_message_count (UpdateStateLocked c t d) = ch_message_count d"
  "ch_max_message_count (UpdateStateLocked c t d) = ch_max_message_count d"
  "ch_owner (UpdateStateLocked c t d) = ch_owner d" "ch_txid (UpdateStateLocked c t d) = ch_txid d"
  "ch_waiters (UpdateStateLocked c t d) = ch_waiters d"
  by (simp_all add: UpdateStateLocked_def Let_def)

lemma peer_ref_simps [simp]:
  "peer_ref (peer_ref r) = r" "peer_ref r \<noteq> r" "r \<noteq> peer_ref r" "fst (peer_ref r) = fst r"
  "snd (peer_ref r) = peer_of (snd r)"
  by (cases r; simp)+

lemma peer_ref_inj: "peer_ref r = peer_ref r' \<longleftrightarrow> r = r'"
  by (metis peer_ref_simps(1))

lemma channel_signals_are_bits [sig_bits]:
  "ZX_CHANNEL_READABLE = sig_bit 0" "ZX_CHANNEL_WRITABLE = sig_bit 1" "ZX_CHANNEL_PEER_CLOSED = sig_bit 2"
  by (simp_all add: ZX_CHANNEL_READABLE_def ZX_CHANNEL_WRITABLE_def ZX_CHANNEL_PEER_CLOSED_def sig_bits)

text \<open>
  Closing as the surviving side and the closing side see it: an explicit form of
  \<^const>\<open>on_zero_handles\<close> at channels.
\<close>

lemma chan_close_simps:
  "cs_chan (chan_close k x s) r =
     (if r = (k, x) then (cs_chan s r)\<lparr>ch_peer := False, ch_waiters := []\<rparr>
      else if r = (k, peer_of x) \<and> ch_peer (cs_chan s (k, x))
           then (UpdateStateLocked ZX_CHANNEL_WRITABLE ZX_CHANNEL_PEER_CLOSED
                   ((cs_chan s r)\<lparr>ch_peer := False\<rparr>))\<lparr>ch_waiters := []\<rparr>
      else cs_chan s r)"
  "cs_shot (chan_close k x s) = cs_shot s"
  by (auto simp: on_zero_handles_def chan_on_zero_handles_locked_def chan_OnPeerZeroHandlesLocked_def
        chan_update_def chan_has_peer_def chan_reset_peer_def Let_def)

lemma chan_close_waiter:
  "cs_waiter (chan_close k x s) t =
     (if ch_peer (cs_chan s (k, x)) \<and> t \<in> set (ch_waiters (cs_chan s (k, peer_of x)))
      then (cs_waiter s t)\<lparr>mw_status := ZX_ERR_PEER_CLOSED, mw_signaled := True\<rparr>
      else if t \<in> set (ch_waiters (cs_chan s (k, x)))
      then (cs_waiter s t)\<lparr>mw_status := ZX_ERR_CANCELED, mw_signaled := True\<rparr>
      else cs_waiter s t)"
  by (simp add: on_zero_handles_def chan_on_zero_handles_locked_def chan_OnPeerZeroHandlesLocked_def
        chan_update_def chan_has_peer_def chan_reset_peer_def Let_def)

interpretation chan_peers: peered_object "chan_has_peer k" "chan_reset_peer k" "chan_update k"
    "chan_on_zero_handles_locked k" "chan_OnPeerZeroHandlesLocked k" "\<lambda>x s. obj_signals (cs_chan s (k, x))" for k
  by unfold_locales
     (auto simp: chan_has_peer_def chan_reset_peer_def chan_update_def chan_on_zero_handles_locked_def
        chan_OnPeerZeroHandlesLocked_def sig_bits)

section \<open>The invariant\<close>

text \<open>
  An endpoint agrees with its queue, with the log of what was closed and with its
  waiters, which have distinct kernel-made ids.
\<close>

definition chan_ok :: "chan_state \<Rightarrow> chan_event list \<Rightarrow> chan_ref \<Rightarrow> bool" where
  "chan_ok s l r \<longleftrightarrow>
     (let c = cs_chan s r in
      queued_at r l = read_from r l @ ch_messages c \<and>
      ch_message_count c = length (ch_messages c) \<and> ch_message_count c \<le> ch_max_message_count c \<and>
      (bit (obj_signals c) 0 \<longleftrightarrow> ch_messages c \<noteq> []) \<and>
      (ch_peer c \<longleftrightarrow> Closed r \<notin> set l \<and> Closed (peer_ref r) \<notin> set l) \<and>
      (Closed r \<notin> set l \<longrightarrow> (bit (obj_signals c) 1 \<longleftrightarrow> ch_peer c) \<and> (bit (obj_signals c) 2 \<longleftrightarrow> \<not> ch_peer c)) \<and>
      (ch_waiters c \<noteq> [] \<longrightarrow> ch_peer c) \<and>
      distinct (ch_waiters c) \<and> inj_on (\<lambda>t. mw_txid (cs_waiter s t)) (set (ch_waiters c)) \<and>
      (\<forall>t \<in> set (ch_waiters c). mw_channel (cs_waiter s t) = Some r \<and> bit (mw_txid (cs_waiter s t)) 31))"

text \<open>
  A thread in a call waits in the list of its endpoint, or has been answered or cancelled. The one
  other state is a call that was turned away for its owner: the waiter still names the endpoint.
\<close>

definition abandoned :: "chan_state \<Rightarrow> nat \<Rightarrow> bool" where
  "abandoned s t \<longleftrightarrow>
     (case mw_channel (cs_waiter s t) of
        None \<Rightarrow> False
      | Some r \<Rightarrow> t \<notin> set (ch_waiters (cs_chan s r)) \<and> mw_status (cs_waiter s t) = ZX_ERR_TIMED_OUT)"

definition waiter_ok :: "chan_state \<Rightarrow> chan_event list \<Rightarrow> nat \<Rightarrow> bool" where
  "waiter_ok s l t \<longleftrightarrow>
     (let w = cs_waiter s t in
      case mw_channel w of
        None \<Rightarrow> mw_msg w = None \<and> call_of t l = None
      | Some r \<Rightarrow>
          if t \<in> set (ch_waiters (cs_chan s r))
          then call_of t l = Some (r, mw_txid w, None) \<and> mw_status w = ZX_ERR_TIMED_OUT \<and>
               mw_msg w = None \<and> \<not> mw_signaled w
          else if mw_status w = ZX_ERR_TIMED_OUT then mw_msg w = None \<and> call_of t l = None
          else mw_signaled w \<and> call_of t l = Some (r, mw_txid w, mw_msg w) \<and>
               (case mw_msg w of
                  Some m \<Rightarrow> mw_status w = ZX_OK \<and> get_txid m = mw_txid w \<and> bit (mw_txid w) 31
                | None \<Rightarrow> mw_status w = ZX_ERR_CANCELED \<or> mw_status w = ZX_ERR_PEER_CLOSED))"

definition chan_inv :: "chan_state \<Rightarrow> chan_event list \<Rightarrow> bool" where
  "chan_inv s l \<longleftrightarrow> (\<forall>r. chan_ok s l r) \<and> (\<forall>t. waiter_ok s l t)"

lemma chan_invD: "chan_inv s l \<Longrightarrow> chan_ok s l r" "chan_inv s l \<Longrightarrow> waiter_ok s l t"
  unfolding chan_inv_def by blast+

lemma chan_inv_waiter:
  assumes "chan_inv s l" "t \<in> set (ch_waiters (cs_chan s r))"
  shows "mw_channel (cs_waiter s t) = Some r" "call_of t l = Some (r, mw_txid (cs_waiter s t), None)"
    "mw_status (cs_waiter s t) = ZX_ERR_TIMED_OUT" "mw_msg (cs_waiter s t) = None" "ch_peer (cs_chan s r)"
    "bit (mw_txid (cs_waiter s t)) 31"
proof -
  show c: "mw_channel (cs_waiter s t) = Some r" and "bit (mw_txid (cs_waiter s t)) 31"
    and "ch_peer (cs_chan s r)"
    using chan_invD(1) [OF assms(1), of r] assms(2) by (force simp: chan_ok_def Let_def)+
  show "call_of t l = Some (r, mw_txid (cs_waiter s t), None)" "mw_status (cs_waiter s t) = ZX_ERR_TIMED_OUT"
    "mw_msg (cs_waiter s t) = None"
    using chan_invD(2) [OF assms(1), of t] assms(2) c by (simp_all add: waiter_ok_def Let_def)
qed

lemma chan_inv_one_list:
  assumes "chan_inv s l" "t \<in> set (ch_waiters (cs_chan s r))"
  shows "t \<in> set (ch_waiters (cs_chan s r')) \<longleftrightarrow> r' = r"
  using chan_inv_waiter(1) [OF assms] chan_inv_waiter(1) [OF assms(1), of t r'] assms(2) by auto

lemma chan_inv_idle_waiter:
  "chan_inv s l \<Longrightarrow> mw_channel (cs_waiter s t) = None \<Longrightarrow> t \<notin> set (ch_waiters (cs_chan s r))"
  using chan_inv_waiter(1) by fastforce

lemma chan_init_inv: "chan_inv (chan_init koid) []"
  by (auto simp: chan_inv_def chan_ok_def waiter_ok_def chan_init_def new_channel_def new_waiter_def sig_bits
        split: prod.split)

section \<open>Every operation keeps it\<close>

lemma waiter_ok_cong:
  assumes "cs_waiter s' t = cs_waiter s t" "call_of t l' = call_of t l"
    "\<And>r. mw_channel (cs_waiter s t) = Some r \<Longrightarrow>
       t \<in> set (ch_waiters (cs_chan s' r)) \<longleftrightarrow> t \<in> set (ch_waiters (cs_chan s r))"
  shows "waiter_ok s' l' t = waiter_ok s l t"
  using assms by (simp add: waiter_ok_def Let_def split: option.split)

text \<open>An operation that only concerns the queue, signals or owner of one endpoint.\<close>

lemma chan_inv_upd:
  assumes "chan_inv s l" "chan_ok (chan_upd r f s) (l @ ev) r"
    "ch_waiters (f (cs_chan s r)) = ch_waiters (cs_chan s r)"
    "\<And>r'. r' \<noteq> r \<Longrightarrow> queued_at r' ev = [] \<and> read_from r' ev = []"
    "\<And>r'. Closed r' \<notin> set ev" "\<And>t oc. fold (event_call t) ev oc = oc"
  shows "chan_inv (chan_upd r f s) (l @ ev)"
  unfolding chan_inv_def
proof (intro conjI allI)
  fix r'
  show "chan_ok (chan_upd r f s) (l @ ev) r'"
  proof (cases "r' = r")
    case True
    then show ?thesis using assms(2) by simp
  next
    case False
    then show ?thesis
      using chan_invD(1) [OF assms(1), of r'] assms(4) [OF False] assms(5)
      by (auto simp: chan_ok_def Let_def)
  qed
next
  fix t
  show "waiter_ok (chan_upd r f s) (l @ ev) t"
    using chan_invD(2) [OF assms(1), of t] assms(3,6) waiter_ok_cong [of "chan_upd r f s" t s "l @ ev" l] by simp
qed

lemma set_owner_inv: "chan_inv s l \<Longrightarrow> chan_inv (channel_set_owner r koid s) l"
proof (cases "koid = ZX_KOID_INVALID")
  case False
  assume inv: "chan_inv s l"
  have "chan_inv (chan_upd r (\<lambda>c. c\<lparr>ch_owner := koid\<rparr>) s) (l @ [])"
    by (rule chan_inv_upd [OF inv]) (use chan_invD(1) [OF inv, of r] in \<open>auto simp: chan_ok_def Let_def\<close>)
  then show ?thesis using False by (simp add: channel_set_owner_def)
qed (simp add: channel_set_owner_def)

lemma Read_cases:
  obtains st n h where "channel_Read r owner ms mh d s = ((st, n, h, None), s)" "st \<noteq> ZX_OK"
  | m rest st where "ch_messages (cs_chan s r) = m # rest" "owner = ch_owner (cs_chan s r)"
      "channel_Read r owner ms mh d s =
         ((st, mp_data_size m, mp_num_handles m, Some m),
          chan_upd r (\<lambda>c. let c' = c\<lparr>ch_messages := rest, ch_message_count := ch_message_count c - 1\<rparr>
                          in if rest = [] then UpdateStateLocked ZX_CHANNEL_READABLE 0 c' else c') s)"
proof (cases "owner \<noteq> ch_owner (cs_chan s r) \<or> ch_messages (cs_chan s r) = []")
  case True
  then have "channel_Read r owner ms mh d s =
      ((if owner \<noteq> ch_owner (cs_chan s r) then ZX_ERR_BAD_HANDLE
        else if ch_peer (cs_chan s r) then ZX_ERR_SHOULD_WAIT else ZX_ERR_PEER_CLOSED, ms, mh, None), s)"
    by (auto simp: channel_Read_def Let_def)
  then show ?thesis
    by (rule that(1)) simp
next
  case False
  then obtain m rest where m: "ch_messages (cs_chan s r) = m # rest" by (cases "ch_messages (cs_chan s r)") auto
  show ?thesis
  proof (cases "(mp_data_size m > ms \<or> mp_num_handles m > mh) \<and> \<not> d")
    case True
    then have "channel_Read r owner ms mh d s =
        ((ZX_ERR_BUFFER_TOO_SMALL, mp_data_size m, mp_num_handles m, None), s)"
      using False m by (simp add: channel_Read_def Let_def)
    then show ?thesis by (rule that(1)) simp
  next
    case False
    then show ?thesis
      using \<open>\<not> (owner \<noteq> _ \<or> _)\<close> m by (intro that(2) [OF m]) (simp_all add: channel_Read_def Let_def)
  qed
qed

lemma Read_inv:
  assumes "chan_inv s l" "channel_Read r owner ms mh d s = ((st, n, h, m), s')"
  shows "chan_inv s' (l @ (case m of None \<Rightarrow> [] | Some m \<Rightarrow> [Got r m]))"
proof (cases rule: Read_cases [of r owner ms mh d s])
  case 1
  then show ?thesis using assms by simp
next
  case (2 p rest st')
  let ?f = "\<lambda>c. let c' = c\<lparr>ch_messages := rest, ch_message_count := ch_message_count c - 1\<rparr>
                 in if rest = [] then UpdateStateLocked ZX_CHANNEL_READABLE 0 c' else c'"
  have "chan_inv (chan_upd r ?f s) (l @ [Got r p])"
    by (rule chan_inv_upd [OF assms(1)])
       (use chan_invD(1) [OF assms(1), of r] 2(1) in \<open>auto simp: chan_ok_def Let_def sig_bits\<close>)
  then show ?thesis using assms(2) 2(3) by auto
qed

lemma user_signal_chan_inv:
  assumes "chan_inv s l" "c AND NOT (ZX_USER_SIGNAL_ALL OR 0) = 0" "st AND NOT (ZX_USER_SIGNAL_ALL OR 0) = 0"
  shows "chan_inv (chan_update k x c st s) l"
proof -
  have "chan_inv (chan_upd (k, x) (UpdateStateLocked c st) s) (l @ [])"
    by (rule chan_inv_upd [OF assms(1)])
       (use chan_invD(1) [OF assms(1), of "(k, x)"] user_mask_bits [OF assms(2)] user_mask_bits [OF assms(3)]
         in \<open>auto simp: chan_ok_def Let_def sig_bits\<close>)
  then show ?thesis by (simp add: chan_update_def)
qed

lemma user_signals_inv:
  assumes "chan_inv s l"
  shows "chan_inv (snd (user_signal_self (chan_update k) 0 x c st s)) l"
    and "chan_inv (snd (user_signal_peer (chan_has_peer k) (chan_update k) 0 x c st s)) l"
  using assms by (auto simp: user_signal_self_def user_signal_peer_def Let_def intro!: user_signal_chan_inv)

lemma chan_ok_cong:
  assumes "cs_chan s' r = cs_chan s r" "queued_at r l' = queued_at r l" "read_from r l' = read_from r l"
    "\<And>u. u \<in> set (ch_waiters (cs_chan s r)) \<Longrightarrow>
       mw_txid (cs_waiter s' u) = mw_txid (cs_waiter s u) \<and> mw_channel (cs_waiter s' u) = mw_channel (cs_waiter s u)"
    "Closed r \<in> set l' \<longleftrightarrow> Closed r \<in> set l" "Closed (peer_ref r) \<in> set l' \<longleftrightarrow> Closed (peer_ref r) \<in> set l"
  shows "chan_ok s' l' r = chan_ok s l r"
proof -
  have "inj_on (\<lambda>t. mw_txid (cs_waiter s' t)) (set (ch_waiters (cs_chan s r))) =
        inj_on (\<lambda>t. mw_txid (cs_waiter s t)) (set (ch_waiters (cs_chan s r)))"
    using assms(4) by (auto simp: inj_on_def)
  then show ?thesis
    using assms unfolding chan_ok_def Let_def by simp
qed

text \<open>Leaving a waiter list keeps an endpoint in order.\<close>

lemma chan_ok_leave:
  assumes "chan_ok s l r" "cs_chan s' r = (cs_chan s r)\<lparr>ch_waiters := remove1 t (ch_waiters (cs_chan s r))\<rparr>"
    "queued_at r l' = queued_at r l" "read_from r l' = read_from r l"
    "\<And>u. u \<noteq> t \<Longrightarrow> cs_waiter s' u = cs_waiter s u"
    "Closed r \<in> set l' \<longleftrightarrow> Closed r \<in> set l" "Closed (peer_ref r) \<in> set l' \<longleftrightarrow> Closed (peer_ref r) \<in> set l"
  shows "chan_ok s' l' r"
proof -
  have d: "distinct (ch_waiters (cs_chan s r))"
    using assms(1) by (simp add: chan_ok_def Let_def)
  then have keep: "u \<in> set (remove1 t (ch_waiters (cs_chan s r))) \<Longrightarrow>
      u \<in> set (ch_waiters (cs_chan s r)) \<and> cs_waiter s' u = cs_waiter s u" for u
    using assms(5) by auto
  have "inj_on (\<lambda>t. mw_txid (cs_waiter s' t)) (set (remove1 t (ch_waiters (cs_chan s r))))"
    using assms(1) keep by (auto simp: chan_ok_def Let_def inj_on_def)
  moreover have "ch_waiters (cs_chan s r) \<noteq> []" if "remove1 t (ch_waiters (cs_chan s r)) \<noteq> []"
    using that by auto
  moreover have "\<forall>u \<in> set (remove1 t (ch_waiters (cs_chan s r))).
      mw_channel (cs_waiter s' u) = Some r \<and> bit (mw_txid (cs_waiter s' u)) 31"
    using assms(1) keep by (auto simp: chan_ok_def Let_def)
  ultimately show ?thesis
    using assms(1) d unfolding chan_ok_def Let_def assms(2-4,6,7) by auto
qed

lemma event_call_other:
  "u \<noteq> t \<Longrightarrow> event_call u (Sent r m (Some t)) oc = oc" "event_call u (Sent r m None) oc = oc"
  by (auto split: option.split)

lemma WriteSelf_deliver:
  assumes inv: "chan_inv s l" and t: "reply_target r m s = Some t"
  shows "chan_inv (channel_WriteSelf r m s) (l @ [Sent r m (Some t)])"
proof -
  have mem: "t \<in> set (ch_waiters (cs_chan s r))" and id: "get_txid m = mw_txid (cs_waiter s t)"
    using t by (auto simp: reply_target_def find_Some_iff)
  define s' where "s' = channel_WriteSelf r m s"
  have s': "cs_chan s' = (cs_chan s)(r := (cs_chan s r)\<lparr>ch_waiters := remove1 t (ch_waiters (cs_chan s r))\<rparr>)"
    "cs_waiter s' = (cs_waiter s)(t := (cs_waiter s t)\<lparr>mw_msg := Some m, mw_status := ZX_OK, mw_signaled := True\<rparr>)"
    using t by (auto simp: s'_def channel_WriteSelf_def waiter_Deliver_def)
  note w = chan_inv_waiter [OF inv mem]
  have d: "distinct (ch_waiters (cs_chan s r))"
    using chan_invD(1) [OF inv, of r] by (simp add: chan_ok_def Let_def)
  have "chan_ok s' (l @ [Sent r m (Some t)]) r'" for r'
  proof (cases "r' = r")
    case True
    then show ?thesis
      using chan_ok_leave [OF chan_invD(1) [OF inv, of r], where s' = s' and t = t] by (simp add: s')
  next
    case False
    then show ?thesis
      using chan_invD(1) [OF inv, of r'] chan_inv_one_list [OF inv mem, of r']
      by (subst chan_ok_cong [where s = s and l = l]) (auto simp: s')
  qed
  moreover have "waiter_ok s' (l @ [Sent r m (Some t)]) u" for u
  proof (cases "u = t")
    case True
    then show ?thesis using w d id by (simp add: waiter_ok_def Let_def s')
  next
    case False
    then show ?thesis
      using chan_invD(2) [OF inv, of u]
      by (subst waiter_ok_cong [where s = s and l = l]) (simp_all add: s' event_call_other del: event_call.simps)
  qed
  ultimately show ?thesis by (simp add: chan_inv_def s'_def del: log_snoc)
qed

lemma WriteSelf_queue:
  assumes inv: "chan_inv s l" and t: "reply_target r m s = None"
  shows "chan_inv (channel_WriteSelf r m s) (l @ [Sent r m None])"
proof -
  let ?f = "\<lambda>c. let n = ch_message_count c + 1
            in UpdateStateLocked 0 ZX_CHANNEL_READABLE
                 (c\<lparr>ch_messages := ch_messages c @ [m], ch_message_count := n,
                    ch_max_message_count := (if n > ch_max_message_count c then n else ch_max_message_count c)\<rparr>)"
  have "chan_inv (chan_upd r ?f s) (l @ [Sent r m None])"
    by (rule chan_inv_upd [OF inv])
       (use chan_invD(1) [OF inv, of r] in \<open>auto simp: chan_ok_def Let_def sig_bits\<close>)
  then show ?thesis using t by (simp add: channel_WriteSelf_def)
qed

lemma WriteSelf_inv:
  "chan_inv s l \<Longrightarrow> chan_inv (channel_WriteSelf r m s) (l @ [Sent r m (reply_target r m s)])"
  using WriteSelf_deliver WriteSelf_queue by (cases "reply_target r m s") auto

section \<open>Transaction ids\<close>

lemma alloc_txid_result:
  assumes "alloc_txid used c = Some (txid, c')"
  shows "txid \<notin> set used \<and> txid = c' OR 0x80000000"
proof -
  have "\<forall>used c y. alloc_txid used c = Some y \<longrightarrow> fst y \<notin> set used \<and> fst y = snd y OR 0x80000000"
    (is "\<forall>used c y. _ \<longrightarrow> ?P used y")
  proof (intro allI impI)
    fix used c y
    assume "alloc_txid used c = Some y"
    then show "?P used y"
      by (rule alloc_txid.raw_induct [of "\<lambda>used c y. ?P used y", rotated]) (auto simp: Let_def split: if_splits)
  qed
  then show ?thesis using assms by fastforce
qed

lemma bit_high [simp]: "bit (w OR 0x80000000 :: 32 word) 31"
proof -
  have "(0x80000000 :: 32 word) = push_bit 31 1" by (simp add: push_bit_eq_mult)
  then show ?thesis by (simp add: bit_or_iff bit_push_bit_iff bit_1_iff)
qed

lemma take_bit_or_high: "take_bit 31 (w OR 0x80000000 :: 32 word) = take_bit 31 w"
proof -
  have "(0x80000000 :: 32 word) = push_bit 31 1" by (simp add: push_bit_eq_mult)
  then show ?thesis by (auto simp: bit_eq_iff bit_take_bit_iff bit_or_iff bit_push_bit_iff bit_1_iff)
qed

text \<open>The ids the loop tries in \<open>2 ^ 31\<close> rounds are all different.\<close>

lemma txid_candidates_inj:
  "inj_on (\<lambda>n. (c + of_nat n) OR (0x80000000 :: 32 word)) {..<2 ^ 31}"
proof (rule inj_onI)
  fix a b :: nat
  assume ab: "a \<in> {..<2 ^ 31}" "b \<in> {..<2 ^ 31}"
    and "(c + of_nat a) OR 0x80000000 = (c + of_nat b) OR (0x80000000 :: 32 word)"
  then have "take_bit 31 (c + of_nat a) = (take_bit 31 (c + of_nat b) :: 32 word)"
    by (metis take_bit_or_high)
  moreover have "unat (take_bit 31 w) = unat w mod 2 ^ 31" for w :: "32 word"
    by (simp only: unsigned_take_bit_eq) (simp only: take_bit_eq_mod)
  ultimately have "unat (c + of_nat a) mod 2 ^ 31 = unat (c + of_nat b) mod 2 ^ 31"
    by metis
  moreover have "(31 :: nat) \<le> LENGTH(32)" by simp
  ultimately have "(unat c + a) mod 2 ^ 31 = (unat c + b) mod 2 ^ 31"
    by (simp only: unat_add_mod_pow2)
  then show "a = b"
    by (rule mod_add_cancel_less) (use ab in \<open>simp_all only: lessThan_iff\<close>)
qed

lemma alloc_txid_within:
  assumes "(c + 1 + of_nat n) OR 0x80000000 \<notin> set used"
  shows "\<exists>y. alloc_txid used c = Some y"
  using assms
proof (induction n arbitrary: c)
  case 0
  then show ?case by (subst alloc_txid.simps) (simp add: Let_def)
next
  case (Suc n)
  show ?case
  proof (cases "(c + 1) OR 0x80000000 \<in> set used")
    case True
    then have "alloc_txid used c = alloc_txid used (c + 1)"
      by (subst alloc_txid.simps) (simp add: Let_def)
    then show ?thesis using Suc.IH [of "c + 1"] Suc.prems by (simp add: algebra_simps)
  next
    case False
    then show ?thesis by (subst alloc_txid.simps) (simp add: Let_def)
  qed
qed

lemma alloc_txid_returns:
  assumes "length used < 2 ^ 31"
  obtains txid c' where "alloc_txid used c = Some (txid, c')"
proof -
  let ?g = "\<lambda>n. (c + 1 + of_nat n) OR (0x80000000 :: 32 word)"
  have "card (?g ` {..<2 ^ 31}) = 2 ^ 31"
    using card_image [OF txid_candidates_inj [of "c + 1"]] by simp
  moreover have "card (set used) < 2 ^ 31"
    using card_length [of used] assms by linarith
  ultimately have "\<not> ?g ` {..<2 ^ 31} \<subseteq> set used"
    by (metis List.finite_set card_mono not_le)
  then obtain n where "?g n \<notin> set used" by auto
  then show thesis using alloc_txid_within [of c n used] that by fastforce
qed

section \<open>Calls and closing\<close>

text \<open>A thread's waiter leaves its endpoint and its call ends.\<close>

lemma chan_inv_leave:
  assumes inv: "chan_inv s l" and r: "\<And>r'. t \<in> set (ch_waiters (cs_chan s r')) \<Longrightarrow> r' = r"
    and s': "cs_chan s' = (cs_chan s)(r := (cs_chan s r)\<lparr>ch_waiters := remove1 t (ch_waiters (cs_chan s r))\<rparr>)"
      "cs_waiter s' = (cs_waiter s)(t := w)"
    and w: "mw_channel w = None" "mw_msg w = None"
    and e: "event_call t e (call_of t l) = None" "\<And>u. u \<noteq> t \<Longrightarrow> event_call u e (call_of u l) = call_of u l"
      "\<And>r'. event_queued r' e = [] \<and> event_read r' e = [] \<and> e \<noteq> Closed r'"
  shows "chan_inv s' (l @ [e])"
proof -
  have cl: "Closed r' \<in> set (l @ [e]) \<longleftrightarrow> Closed r' \<in> set l" for r'
    using e(3) [of r'] by auto
  have "chan_ok s' (l @ [e]) r'" for r'
  proof (cases "r' = r")
    case True
    then show ?thesis
      using chan_ok_leave [OF chan_invD(1) [OF inv, of r], where s' = s' and t = t and l' = "l @ [e]"] e(3) cl
      by (simp add: s')
  next
    case False
    then have "t \<notin> set (ch_waiters (cs_chan s r'))" using r by blast
    then show ?thesis
      using chan_invD(1) [OF inv, of r'] False e(3) cl
      by (subst chan_ok_cong [where s = s and l = l]) (auto simp: s')
  qed
  moreover have "waiter_ok s' (l @ [e]) u" for u
  proof (cases "u = t")
    case True
    then show ?thesis using e w by (simp add: waiter_ok_def s')
  next
    case False
    then show ?thesis
      using chan_invD(2) [OF inv, of u] e(2) [OF False]
      by (subst waiter_ok_cong [where s = s and l = l]) (simp_all add: s')
  qed
  ultimately show ?thesis by (simp add: chan_inv_def del: log_snoc)
qed

text \<open>The ways a call can go, up to the wait.\<close>

definition call_begun :: "nat \<Rightarrow> chan_ref \<Rightarrow> chan_state \<Rightarrow> chan_state" where
  "call_begun t r s = waiter_upd t (\<lambda>w. w\<lparr>mw_status := ZX_ERR_TIMED_OUT, mw_channel := Some r,
                                          mw_signaled := False\<rparr>) s"

definition call_queued :: "nat \<Rightarrow> chan_ref \<Rightarrow> zx_txid_t \<Rightarrow> 32 word \<Rightarrow> chan_state \<Rightarrow> chan_state" where
  "call_queued t r txid counter s =
     chan_upd r (\<lambda>c. c\<lparr>ch_txid := counter, ch_waiters := ch_waiters c @ [t]\<rparr>)
       (waiter_upd t (\<lambda>w. w\<lparr>mw_txid := txid\<rparr>) (call_begun t r s))"

definition txids_used :: "chan_ref \<Rightarrow> chan_state \<Rightarrow> zx_txid_t list" where
  "txids_used r s = map (\<lambda>u. mw_txid (cs_waiter s u)) (ch_waiters (cs_chan s r))"

lemma Call_exact:
  assumes "chan_inv s l"
  shows "channel_Call t r owner m s =
     (if mw_channel (cs_waiter s t) \<noteq> None then Some (Some ZX_ERR_BAD_STATE, s\<lparr>cs_shot := cs_shot s @ [t]\<rparr>)
      else if owner \<noteq> ch_owner (cs_chan s r) then Some (Some ZX_ERR_BAD_HANDLE, call_begun t r s)
      else if \<not> ch_peer (cs_chan s r)
           then Some (Some ZX_ERR_PEER_CLOSED,
                      waiter_upd t (\<lambda>w. w\<lparr>mw_msg := None, mw_channel := None\<rparr>) (call_begun t r s))
      else case alloc_txid (txids_used r s) (ch_txid (cs_chan s r)) of
             None \<Rightarrow> None
           | Some (txid, counter) \<Rightarrow>
               Some (None, channel_WriteSelf (peer_ref r) (set_txid txid m) (call_queued t r txid counter s)))"
proof (cases "mw_channel (cs_waiter s t)")
  case None
  have b: "BeginWait t r s = (ZX_OK, call_begun t r s)"
    using None by (simp add: BeginWait_def call_begun_def)
  have c: "cs_chan (call_begun t r s) = cs_chan s"
    by (simp add: call_begun_def)
  have e: "snd (snd (EndWait t (call_begun t r s))) =
      waiter_upd t (\<lambda>w. w\<lparr>mw_msg := None, mw_channel := None\<rparr>) (call_begun t r s)"
    by (simp add: EndWait_def Let_def) (simp add: call_begun_def)
  have u: "map (\<lambda>u. mw_txid (cs_waiter (call_begun t r s) u)) (ch_waiters (cs_chan s r)) = txids_used r s"
    by (auto simp: txids_used_def call_begun_def)
  show ?thesis
    unfolding channel_Call_def b by (simp add: Let_def c e u None call_queued_def split: option.split)
qed (simp add: channel_Call_def BeginWait_def)

lemma call_queued_inv:
  assumes inv: "chan_inv s l" and idle: "mw_channel (cs_waiter s t) = None" and peer: "ch_peer (cs_chan s r)"
    and txid: "alloc_txid (txids_used r s) (ch_txid (cs_chan s r)) = Some (txid, counter)"
  shows "chan_inv (call_queued t r txid counter s) (l @ [Asked t r txid])"
proof -
  define s' where "s' = call_queued t r txid counter s"
  have s': "cs_chan s' = (cs_chan s)(r := (cs_chan s r)\<lparr>ch_txid := counter, ch_waiters := ch_waiters (cs_chan s r) @ [t]\<rparr>)"
    "cs_waiter s' = (cs_waiter s)(t := (cs_waiter s t)\<lparr>mw_status := ZX_ERR_TIMED_OUT, mw_channel := Some r,
        mw_signaled := False, mw_txid := txid\<rparr>)"
    by (auto simp: s'_def call_queued_def call_begun_def)
  have out: "t \<notin> set (ch_waiters (cs_chan s r'))" for r'
    by (rule chan_inv_idle_waiter [OF inv idle])
  have new: "txid \<notin> (\<lambda>u. mw_txid (cs_waiter s u)) ` set (ch_waiters (cs_chan s r))" "bit txid 31"
    using alloc_txid_result [OF txid] by (auto simp: txids_used_def)
  have msg: "mw_msg (cs_waiter s t) = None"
    using chan_invD(2) [OF inv, of t] idle by (simp add: waiter_ok_def Let_def)
  have inj: "inj_on (\<lambda>u. mw_txid (cs_waiter s' u)) (insert t (set (ch_waiters (cs_chan s r))))"
    using chan_invD(1) [OF inv, of r] new(1) out [of r] by (auto simp: s' chan_ok_def Let_def inj_on_def)
  have "chan_ok s' (l @ [Asked t r txid]) r'" for r'
  proof (cases "r' = r")
    case True
    have "\<forall>u \<in> insert t (set (ch_waiters (cs_chan s r))).
        mw_channel (cs_waiter s' u) = Some r \<and> bit (mw_txid (cs_waiter s' u)) 31"
      using chan_invD(1) [OF inv, of r] new(2) by (auto simp: s' chan_ok_def Let_def)
    then show ?thesis
      using chan_invD(1) [OF inv, of r] True inj out [of r] peer
      unfolding chan_ok_def Let_def by (simp add: s'(1))
  next
    case False
    then show ?thesis
      using chan_invD(1) [OF inv, of r'] out [of r']
      by (subst chan_ok_cong [where s = s and l = l]) (auto simp: s')
  qed
  moreover have "waiter_ok s' (l @ [Asked t r txid]) u" for u
  proof (cases "u = t")
    case True
    then show ?thesis using msg by (simp add: waiter_ok_def s')
  next
    case False
    then show ?thesis
      using chan_invD(2) [OF inv, of u]
      by (subst waiter_ok_cong [where s = s and l = l]) (simp_all add: s')
  qed
  ultimately show ?thesis by (simp add: chan_inv_def s'_def del: log_snoc)
qed

lemma call_refused_inv:
  assumes inv: "chan_inv s l" and idle: "mw_channel (cs_waiter s t) = None"
  shows "chan_inv (call_begun t r s) (l @ [Returned t st None])"
proof -
  define s' where "s' = call_begun t r s"
  have s': "cs_chan s' = cs_chan s"
    "cs_waiter s' = (cs_waiter s)(t := (cs_waiter s t)\<lparr>mw_status := ZX_ERR_TIMED_OUT, mw_channel := Some r,
        mw_signaled := False\<rparr>)"
    by (auto simp: s'_def call_begun_def)
  have out: "t \<notin> set (ch_waiters (cs_chan s r'))" for r'
    by (rule chan_inv_idle_waiter [OF inv idle])
  have "chan_ok s' (l @ [Returned t st None]) r'" for r'
    using chan_invD(1) [OF inv, of r'] out [of r']
    by (subst chan_ok_cong [where s = s and l = l]) (auto simp: s')
  moreover have "waiter_ok s' (l @ [Returned t st None]) u" for u
    using chan_invD(2) [OF inv, of u] out idle
    by (cases "u = t", simp add: waiter_ok_def s' Let_def)
       (subst waiter_ok_cong [where s = s and l = l], simp_all add: s')
  ultimately show ?thesis by (simp add: chan_inv_def s'_def del: log_snoc)
qed

lemma reply_target_call_queued:
  assumes inv: "chan_inv s l" and idle: "mw_channel (cs_waiter s t) = None"
  shows "reply_target (peer_ref r) p (call_queued t r txid counter s) = reply_target (peer_ref r) p s"
proof -
  have "t \<notin> set (ch_waiters (cs_chan s (peer_ref r)))"
    by (rule chan_inv_idle_waiter [OF inv idle])
  then show ?thesis
    by (auto simp: reply_target_def call_queued_def call_begun_def intro!: find_cong)
qed

lemma Call_inv:
  assumes inv: "chan_inv s l" and call: "channel_Call t r owner m s = Some (st, s')"
  shows "chan_inv s' (l @ call_events t r m s st s')"
proof -
  consider "mw_channel (cs_waiter s t) \<noteq> None"
    | "mw_channel (cs_waiter s t) = None" "owner \<noteq> ch_owner (cs_chan s r)"
    | "mw_channel (cs_waiter s t) = None" "owner = ch_owner (cs_chan s r)" "\<not> ch_peer (cs_chan s r)"
    | "mw_channel (cs_waiter s t) = None" "owner = ch_owner (cs_chan s r)" "ch_peer (cs_chan s r)"
    by blast
  then show ?thesis
  proof cases
    case 1
    then have s': "st = Some ZX_ERR_BAD_STATE" "s' = s\<lparr>cs_shot := cs_shot s @ [t]\<rparr>"
      using call by (auto simp: Call_exact [OF inv])
    have "chan_ok s' (l @ [Shot t]) r'" for r'
      using chan_invD(1) [OF inv, of r'] by (subst chan_ok_cong [where s = s and l = l]) (simp_all add: s')
    moreover have "waiter_ok s' (l @ [Shot t]) u" for u
      using chan_invD(2) [OF inv, of u] by (subst waiter_ok_cong [where s = s and l = l]) (simp_all add: s')
    ultimately show ?thesis using s'(1) by (simp add: chan_inv_def del: log_snoc)
  next
    case 2
    then show ?thesis
      using call call_refused_inv [OF inv 2(1), of r] by (auto simp: Call_exact [OF inv])
  next
    case 3
    let ?w = "(cs_waiter s t)\<lparr>mw_status := ZX_ERR_TIMED_OUT, mw_channel := None, mw_signaled := False, mw_msg := None\<rparr>"
    have s': "st = Some ZX_ERR_PEER_CLOSED"
      "s' = waiter_upd t (\<lambda>w. w\<lparr>mw_msg := None, mw_channel := None\<rparr>) (call_begun t r s)"
      using call 3 by (auto simp: Call_exact [OF inv])
    have out: "t \<notin> set (ch_waiters (cs_chan s r'))" for r'
      by (rule chan_inv_idle_waiter [OF inv 3(1)])
    have "chan_inv s' (l @ [Returned t ZX_ERR_PEER_CLOSED None])"
    proof (rule chan_inv_leave [OF inv, where t = t and r = r and w = ?w])
      show "cs_chan s' = (cs_chan s)(r := (cs_chan s r)\<lparr>ch_waiters := remove1 t (ch_waiters (cs_chan s r))\<rparr>)"
        using out [of r] by (simp add: s' call_begun_def remove1_idem)
      show "cs_waiter s' = (cs_waiter s)(t := ?w)"
        by (auto simp: s' call_begun_def)
      show "r' = r" if "t \<in> set (ch_waiters (cs_chan s r'))" for r' using out that by blast
    qed simp_all
    then show ?thesis using s'(1) by simp
  next
    case 4
    then obtain txid counter where a: "alloc_txid (txids_used r s) (ch_txid (cs_chan s r)) = Some (txid, counter)"
      "st = None" "s' = channel_WriteSelf (peer_ref r) (set_txid txid m) (call_queued t r txid counter s)"
      using call by (auto simp: Call_exact [OF inv] split: option.splits)
    have q: "chan_inv (call_queued t r txid counter s) (l @ [Asked t r txid])"
      by (rule call_queued_inv [OF inv 4(1,3) a(1)])
    note w = WriteSelf_inv [OF q, of "peer_ref r" "set_txid txid m", folded a(3)]
    have "mw_txid (cs_waiter s' t) = txid"
      by (simp add: a(3) channel_WriteSelf_def waiter_Deliver_def call_queued_def split: option.split)
    then show ?thesis
      using w by (simp add: a(2) Let_def reply_target_call_queued [OF inv 4(1)] del: log_snoc)
  qed
qed

lemma finish_inv:
  assumes inv: "chan_inv s l" and r: "mw_channel (cs_waiter s t) = Some r"
    and fin: "channel_ResumeInterruptedCall r t waited s = Some ((st, reply), s')"
    and over: "waited \<noteq> ZX_ERR_INTERNAL_INTR_RETRY"
  shows "st = mw_status (cs_waiter s t)" "reply = mw_msg (cs_waiter s t)" "st \<noteq> ZX_ERR_INTERNAL_INTR_RETRY"
    "chan_inv s' (l @ [Returned t st reply])"
proof -
  let ?w = "(cs_waiter s t)\<lparr>mw_msg := None, mw_channel := None\<rparr>"
  have st: "st = mw_status (cs_waiter s t)" "reply = mw_msg (cs_waiter s t)"
    "s' = (if st = ZX_ERR_TIMED_OUT then chan_upd r (\<lambda>c. c\<lparr>ch_waiters := remove1 t (ch_waiters c)\<rparr>) (waiter_upd t (\<lambda>w. ?w) s)
           else waiter_upd t (\<lambda>w. ?w) s)"
    using fin r over by (auto simp: channel_ResumeInterruptedCall_def EndWait_def Let_def waiter_upd_def
        split: if_splits)
  have "t \<notin> set (ch_waiters (cs_chan s r))" if "st \<noteq> ZX_ERR_TIMED_OUT"
    using that chan_inv_waiter(3) [OF inv, of t r] st(1) by auto
  then have c: "cs_chan s' = (cs_chan s)(r := (cs_chan s r)\<lparr>ch_waiters := remove1 t (ch_waiters (cs_chan s r))\<rparr>)"
    by (auto simp: st(3) remove1_idem)
  show "st = mw_status (cs_waiter s t)" "reply = mw_msg (cs_waiter s t)" by (fact st)+
  show "st \<noteq> ZX_ERR_INTERNAL_INTR_RETRY"
    using chan_invD(2) [OF inv, of t] r st(1) by (auto simp: waiter_ok_def Let_def split: if_splits option.splits)
  show "chan_inv s' (l @ [Returned t st reply])"
  proof (rule chan_inv_leave [OF inv, where t = t and r = r and w = ?w])
    show "cs_waiter s' = (cs_waiter s)(t := ?w)"
      by (auto simp: st(3))
    show "r' = r" if "t \<in> set (ch_waiters (cs_chan s r'))" for r'
      using chan_inv_waiter(1) [OF inv that] r by simp
  qed (simp_all add: c)
qed

lemma exit_inv:
  assumes inv: "chan_inv s l" and ex: "MessageWaiter_dtor t s = (m, s')"
  shows "chan_inv s' (l @ [Exited t m])"
proof -
  define r where "r = (case mw_channel (cs_waiter s t) of None \<Rightarrow> (0, Side0) | Some r \<Rightarrow> r)"
  have out: "t \<notin> set (ch_waiters (cs_chan s r'))" if "mw_channel (cs_waiter s t) = None" for r'
    by (rule chan_inv_idle_waiter [OF inv that])
  show ?thesis
  proof (rule chan_inv_leave [OF inv, where t = t and r = r and w = new_waiter])
    show "r' = r" if "t \<in> set (ch_waiters (cs_chan s r'))" for r'
      using chan_inv_waiter(1) [OF inv that] by (simp add: r_def)
    show "cs_chan s' = (cs_chan s)(r := (cs_chan s r)\<lparr>ch_waiters := remove1 t (ch_waiters (cs_chan s r))\<rparr>)"
      using ex out by (auto simp: MessageWaiter_dtor_def RemoveWaiter_def r_def remove1_idem split: option.splits)
    show "cs_waiter s' = (cs_waiter s)(t := new_waiter)"
      using ex by (auto simp: MessageWaiter_dtor_def RemoveWaiter_def split: option.splits)
  qed (simp_all add: new_waiter_def)
qed

lemma chan_inv_linked: "chan_inv s l \<Longrightarrow> ch_peer (cs_chan s (peer_ref r)) = ch_peer (cs_chan s r)"
  using chan_invD(1) [of s l r] chan_invD(1) [of s l "peer_ref r"] by (auto simp: chan_ok_def Let_def)

lemma chan_ok_close:
  assumes inv: "chan_inv s l"
  shows "chan_ok (chan_close k x s) (l @ [Closed (k, x)]) r'"
proof -
  let ?r = "(k, x)" and ?p = "(k, peer_of x)"
  note linked = chan_inv_linked [OF inv, of ?r]
  note old = chan_invD(1) [OF inv, of r', unfolded chan_ok_def Let_def]
  have sent: "queued_at r' (l @ [Closed ?r]) = queued_at r' l" "read_from r' (l @ [Closed ?r]) = read_from r' l"
    by simp_all
  consider "r' = ?r" | "r' = ?p" "ch_peer (cs_chan s ?r)" | "r' = ?p" "\<not> ch_peer (cs_chan s ?r)"
    | "r' \<noteq> ?r" "r' \<noteq> ?p" by blast
  then show ?thesis
  proof cases
    case 1
    then show ?thesis using old unfolding chan_ok_def Let_def sent chan_close_simps by auto
  next
    case 2
    then show ?thesis
      using old unfolding chan_ok_def Let_def sent chan_close_simps by (auto simp: sig_bits)
  next
    case 3
    then have "\<not> ch_peer (cs_chan s ?p)" using linked by simp
    then show ?thesis
      using old 3 unfolding chan_ok_def Let_def sent chan_close_simps by auto
  next
    case 4
    have far: "u \<notin> set (ch_waiters (cs_chan s ?r))" "u \<notin> set (ch_waiters (cs_chan s ?p))"
      if "u \<in> set (ch_waiters (cs_chan s r'))" for u
      using chan_inv_one_list [OF inv that, of ?r] chan_inv_one_list [OF inv that, of ?p] 4 by simp_all
    have "peer_ref r' \<noteq> ?r" using 4(2) by (metis peer_ref.simps peer_ref_simps(1))
    then show ?thesis
      using chan_invD(1) [OF inv, of r'] 4 far
      by (subst chan_ok_cong [where s = s and l = l]) (auto simp: chan_close_simps chan_close_waiter)
  qed
qed

lemma close_inv:
  assumes inv: "chan_inv s l"
  shows "chan_inv (chan_close k x s) (l @ [Closed (k, x)])"
proof -
  let ?s = "chan_close k x s" and ?r = "(k, x)" and ?p = "(k, peer_of x)"
  have "waiter_ok ?s (l @ [Closed ?r]) u" for u
  proof (cases "u \<in> set (ch_waiters (cs_chan s ?r)) \<or> u \<in> set (ch_waiters (cs_chan s ?p))")
    case True
    have peer: "ch_peer (cs_chan s ?r)"
      using True chan_inv_waiter(5) [OF inv] chan_inv_linked [OF inv, of ?r] by auto
    from True show ?thesis
    proof
      assume m: "u \<in> set (ch_waiters (cs_chan s ?r))"
      then have "u \<notin> set (ch_waiters (cs_chan s ?p))" using chan_inv_one_list [OF inv m, of ?p] by simp
      then show ?thesis
        using m peer chan_inv_waiter [OF inv m] by (simp add: waiter_ok_def chan_close_simps chan_close_waiter)
    next
      assume m: "u \<in> set (ch_waiters (cs_chan s ?p))"
      then show ?thesis
        using peer chan_inv_waiter [OF inv m] by (simp add: waiter_ok_def chan_close_simps chan_close_waiter)
    qed
  next
    case False
    then show ?thesis
      using chan_invD(2) [OF inv, of u]
      by (subst waiter_ok_cong [where s = s and l = l]) (auto simp: chan_close_simps chan_close_waiter)
  qed
  then show ?thesis using chan_ok_close [OF inv] unfolding chan_inv_def by blast
qed

lemma chan_step_inv:
  assumes "chan_inv s l" "chan_step op s = Some (s', ev)"
  shows "chan_inv s' (l @ ev)"
proof (cases op)
  case (Op_set_owner r koid)
  then show ?thesis using assms by (auto intro: set_owner_inv)
next
  case (Op_read r owner a b d)
  then show ?thesis
    using assms Read_inv [OF assms(1), of r owner a b d] by (fastforce split: prod.splits option.splits)
next
  case (Op_write r owner m)
  then show ?thesis
    using assms WriteSelf_inv [OF assms(1), of "peer_ref r" m] by (auto simp: channel_Write_def Let_def split: if_splits)
next
  case (Op_call t r owner m)
  then show ?thesis using assms Call_inv [OF assms(1), of t r owner m] by (auto split: option.splits)
next
  case (Op_finish t waited)
  show ?thesis
  proof (cases "mw_channel (cs_waiter s t)")
    case None
    then show ?thesis using assms Op_finish by simp
  next
    case (Some r)
    then show ?thesis
      using assms Op_finish finish_inv(3,4) [OF assms(1) Some]
      by (cases "waited = ZX_ERR_INTERNAL_INTR_RETRY")
         (auto simp: channel_ResumeInterruptedCall_def [where waited = ZX_ERR_INTERNAL_INTR_RETRY] split: option.splits)
  qed
next
  case (Op_close r)
  then show ?thesis using assms close_inv [of s l "fst r" "snd r"] by auto
next
  case (Op_exit t)
  then show ?thesis using assms exit_inv by (auto simp: Let_def split: prod.splits)
next
  case (Op_signal_self r c st)
  then show ?thesis using assms by (auto intro: user_signals_inv)
next
  case (Op_signal_peer r c st)
  then show ?thesis using assms by (auto intro: user_signals_inv)
qed

lemma chan_run_inv:
  "chan_inv s l \<Longrightarrow> chan_run ops (s, l) = Some (s', l') \<Longrightarrow> chan_inv s' l'"
  by (induction ops arbitrary: s l) (auto split: option.splits prod.splits dest: chan_step_inv)

section \<open>Messages, signals and calls of every run\<close>

lemma chan_reach_inv: "chan_run ops (chan_init koid, []) = Some (s, l) \<Longrightarrow> chan_inv s l"
  using chan_run_inv [OF chan_init_inv] by blast

text \<open>
  C4: a channel delivers the messages of each direction in order, without loss or
  duplication. In every run of reads, writes, calls, closes, owner changes and thread exits
  on any number of channels, the packets that were queued at an endpoint (those written by
  its peer which did not answer a pending call) are, in order, the packets read from it
  followed by the packets still in its queue, and the message count is the length of the queue.
\<close>

theorem channel_stream:
  assumes "chan_run ops (chan_init koid, []) = Some (s, l)"
  shows "queued_at r l = read_from r l @ ch_messages (cs_chan s r) \<and>
         ch_message_count (cs_chan s r) = length (ch_messages (cs_chan s r))"
  using chan_invD(1) [OF chan_reach_inv [OF assms], of r] by (simp add: chan_ok_def Let_def)

text \<open>A packet of \<open>n\<close> bytes without handles, for the examples.\<close>

definition example_packet :: "nat \<Rightarrow> byte \<Rightarrow> message_packet" where
  "example_packet n b =
     \<lparr>mp_chain = \<lparr>bc_buffers = [\<lparr>buf_reserved = 24, buf_raw = (\<lambda>i. b)\<rparr>], bc_pages = []\<rparr>, mp_handles = [],
      mp_data_size = n, mp_payload_offset = 48, mp_num_handles = 0, mp_owns_handles = False\<rparr>"

lemma example_packet_simps [simp]:
  "mp_data_size (example_packet n b) = n" "mp_num_handles (example_packet n b) = 0"
  "get_txid (example_packet 2 b) = 0"
  by (simp_all add: example_packet_def get_txid_def const_defs)

lemmas chan_eval = channel_Write_def channel_WriteSelf_def channel_Read_def reply_target_def chan_init_def
  new_channel_def new_waiter_def ZX_KOID_INVALID_def Let_def

theorem channel_stream_witness:
  "\<exists>s l. chan_run [Op_write (0, Side0) 0 (example_packet 2 7), Op_write (0, Side0) 0 (example_packet 3 8),
           Op_read (0, Side1) 0 10 0 False] (chan_init (\<lambda>k x. 9), []) = Some (s, l) \<and>
     queued_at (0, Side1) l = [example_packet 2 7, example_packet 3 8] \<and>
     read_from (0, Side1) l = [example_packet 2 7] \<and> ch_message_count (cs_chan s (0, Side1)) = 1"
proof -
  obtain s l where run: "chan_run [Op_write (0, Side0) 0 (example_packet 2 7), Op_write (0, Side0) 0 (example_packet 3 8),
           Op_read (0, Side1) 0 10 0 False] (chan_init (\<lambda>k x. 9), []) = Some (s, l)"
    and l: "l = [Sent (0, Side1) (example_packet 2 7) None, Sent (0, Side1) (example_packet 3 8) None,
                 Got (0, Side1) (example_packet 2 7)]"
    by (simp add: chan_eval)
  show ?thesis
    by (rule exI, rule exI, rule conjI, rule run)
       (use channel_stream [OF run, of "(0, Side1)"] in \<open>auto simp: l dest: sym\<close>)
qed

text \<open>
  C14: the signals of a channel endpoint agree with its state in every run. Readable is
  asserted exactly when the queue is not empty; for an endpoint that is itself still open,
  writable is asserted exactly while the peer is open and peer-closed exactly when it is not;
  and the two peer pointers always agree.
\<close>

theorem channel_signals_exact:
  assumes "chan_run ops (chan_init koid, []) = Some (s, l)"
  shows "(has_sig (obj_signals (cs_chan s r)) ZX_CHANNEL_READABLE \<longleftrightarrow> ch_messages (cs_chan s r) \<noteq> []) \<and>
         ch_peer (cs_chan s (peer_ref r)) = ch_peer (cs_chan s r) \<and>
         (Closed r \<notin> set l \<longrightarrow>
            (has_sig (obj_signals (cs_chan s r)) ZX_CHANNEL_WRITABLE \<longleftrightarrow> Closed (peer_ref r) \<notin> set l) \<and>
            (has_sig (obj_signals (cs_chan s r)) ZX_CHANNEL_PEER_CLOSED \<longleftrightarrow> Closed (peer_ref r) \<in> set l))"
  using chan_invD(1) [OF chan_reach_inv [OF assms], of r] chan_inv_linked [OF chan_reach_inv [OF assms], of r]
  by (auto simp: chan_ok_def Let_def sig_bits)

theorem channel_signals_exact_witness:
  "\<exists>s l. chan_run [Op_write (0, Side0) 0 (example_packet 2 7), Op_close (0, Side0)]
           (chan_init (\<lambda>k x. 9), []) = Some (s, l) \<and>
     has_sig (obj_signals (cs_chan s (0, Side1))) ZX_CHANNEL_PEER_CLOSED \<and>
     \<not> has_sig (obj_signals (cs_chan s (0, Side1))) ZX_CHANNEL_WRITABLE"
proof -
  obtain s l where run: "chan_run [Op_write (0, Side0) 0 (example_packet 2 7), Op_close (0, Side0)]
           (chan_init (\<lambda>k x. 9), []) = Some (s, l)"
    and l: "l = [Sent (0, Side1) (example_packet 2 7) None, Closed (0, Side0)]"
    by (simp add: chan_eval)
  show ?thesis
    by (rule exI, rule exI, rule conjI, rule run)
       (use channel_signals_exact [OF run, of "(0, Side1)"] in \<open>simp add: l\<close>)
qed

section \<open>How calls return\<close>

text \<open>What a call may return, given the call that the log before it shows.\<close>

fun return_ok :: "open_call \<Rightarrow> zx_status_t \<Rightarrow> message_packet option \<Rightarrow> bool" where
  "return_ok (Some (r, txid, Some m)) st reply \<longleftrightarrow>
     st = ZX_OK \<and> reply = Some m \<and> get_txid m = txid \<and> bit txid 31"
| "return_ok (Some (r, txid, None)) st reply \<longleftrightarrow>
     reply = None \<and> st \<in> {ZX_ERR_TIMED_OUT, ZX_ERR_CANCELED, ZX_ERR_PEER_CLOSED}"
| "return_ok None st reply \<longleftrightarrow> reply = None \<and> st \<in> {ZX_ERR_BAD_HANDLE, ZX_ERR_PEER_CLOSED}"

definition returns_ok :: "chan_event list \<Rightarrow> bool" where
  "returns_ok l \<longleftrightarrow>
     (\<forall>l1 t st reply l2. l = l1 @ Returned t st reply # l2 \<longrightarrow> return_ok (call_of t l1) st reply)"

lemma returns_ok_Nil [simp]: "returns_ok []"
  by (simp add: returns_ok_def)

lemma returns_ok_snoc:
  "returns_ok (l @ [e]) \<longleftrightarrow>
     returns_ok l \<and> (\<forall>t st reply. e = Returned t st reply \<longrightarrow> return_ok (call_of t l) st reply)"
proof (intro iffI conjI allI impI)
  assume ok: "returns_ok (l @ [e])"
  show "returns_ok l"
    unfolding returns_ok_def
  proof (intro allI impI)
    fix l1 t st reply l2
    assume "l = l1 @ Returned t st reply # l2"
    then have "l @ [e] = l1 @ Returned t st reply # (l2 @ [e])" by simp
    with ok show "return_ok (call_of t l1) st reply" unfolding returns_ok_def by blast
  qed
  fix t st reply
  assume "e = Returned t st reply"
  with ok show "return_ok (call_of t l) st reply" unfolding returns_ok_def by blast
next
  assume ok: "returns_ok l \<and> (\<forall>t st reply. e = Returned t st reply \<longrightarrow> return_ok (call_of t l) st reply)"
  show "returns_ok (l @ [e])"
    unfolding returns_ok_def
  proof (intro allI impI)
    fix l1 t st reply l2
    assume eq: "l @ [e] = l1 @ Returned t st reply # l2"
    show "return_ok (call_of t l1) st reply"
    proof (cases l2 rule: rev_cases)
      case Nil
      then show ?thesis using ok eq by auto
    next
      case (snoc l3 e')
      then have "l = l1 @ Returned t st reply # l3" using eq by auto
      then show ?thesis using ok unfolding returns_ok_def by blast
    qed
  qed
qed

lemma returns_ok_quiet:
  "returns_ok l \<Longrightarrow> (\<And>t st reply. Returned t st reply \<notin> set ev) \<Longrightarrow> returns_ok (l @ ev)"
proof (induction ev rule: rev_induct)
  case (snoc e ev)
  then have "returns_ok (l @ ev)" by auto
  then show ?case using snoc.prems(2) returns_ok_snoc [of "l @ ev" e] by auto
qed simp

lemma waiter_return_ok:
  assumes inv: "chan_inv s l" and r: "mw_channel (cs_waiter s t) = Some r" and ab: "\<not> abandoned s t"
  shows "return_ok (call_of t l) (mw_status (cs_waiter s t)) (mw_msg (cs_waiter s t))"
  using chan_invD(2) [OF inv, of t] r ab
  by (auto simp: waiter_ok_def abandoned_def Let_def split: if_splits option.splits)

lemma finish_abandoned:
  assumes "mw_channel (cs_waiter s t) = Some r" "abandoned s t" "waited \<noteq> ZX_ERR_INTERNAL_INTR_RETRY"
  shows "channel_ResumeInterruptedCall r t waited s = None"
  using assms by (simp add: channel_ResumeInterruptedCall_def EndWait_def abandoned_def Let_def)

lemma call_return_ok:
  assumes inv: "chan_inv s l" and call: "channel_Call t r owner m s = Some (st, s')"
    and ev: "Returned u st' reply \<in> set (call_events t r m s st s')"
  shows "u = t \<and> return_ok (call_of t l) st' reply \<and> call_events t r m s st s' = [Returned u st' reply]"
proof -
  have "call_of t l = None" if "mw_channel (cs_waiter s t) = None"
    using chan_invD(2) [OF inv, of t] that by (simp add: waiter_ok_def Let_def)
  then show ?thesis
    using call ev by (cases "mw_channel (cs_waiter s t)")
      (auto simp: Call_exact [OF inv] Let_def split: if_splits option.splits)
qed

lemma chan_step_returns_ok:
  assumes inv: "chan_inv s l" and ok: "returns_ok l" and step: "chan_step op s = Some (s', ev)"
  shows "returns_ok (l @ ev)"
proof (cases op)
  case (Op_call t r owner m)
  then obtain st where c: "channel_Call t r owner m s = Some (st, s')" "ev = call_events t r m s st s'"
    using step by (auto split: option.splits)
  show ?thesis
  proof (cases "\<exists>u st' reply. Returned u st' reply \<in> set ev")
    case True
    then obtain u st' reply where "Returned u st' reply \<in> set ev" by blast
    then have "ev = [Returned u st' reply]" "u = t" "return_ok (call_of t l) st' reply"
      using call_return_ok [OF inv c(1), of u st' reply] c(2) by simp_all
    then show ?thesis using ok by (simp add: returns_ok_snoc)
  next
    case False
    then show ?thesis using ok by (intro returns_ok_quiet) auto
  qed
next
  case (Op_finish t waited)
  show ?thesis
  proof (cases "mw_channel (cs_waiter s t) = None \<or> waited = ZX_ERR_INTERNAL_INTR_RETRY")
    case True
    then show ?thesis
      using ok step Op_finish
      by (auto simp: channel_ResumeInterruptedCall_def split: option.splits)
  next
    case False
    then obtain r where r: "mw_channel (cs_waiter s t) = Some r" by auto
    obtain st reply where f: "channel_ResumeInterruptedCall r t waited s = Some ((st, reply), s')"
      "ev = (if st = ZX_ERR_INTERNAL_INTR_RETRY then [] else [Returned t st reply])"
      using step Op_finish r by (auto split: option.splits)
    then have "\<not> abandoned s t" using finish_abandoned [OF r] False by auto
    then show ?thesis
      using finish_inv [OF inv r f(1)] False waiter_return_ok [OF inv r] ok f(2) by (simp add: returns_ok_snoc)
  qed
qed (use ok step in \<open>auto simp: Let_def intro!: returns_ok_quiet split: prod.splits option.splits if_splits\<close>)

lemma chan_run_returns_ok:
  "chan_inv s l \<Longrightarrow> returns_ok l \<Longrightarrow> chan_run ops (s, l) = Some (s', l') \<Longrightarrow> returns_ok l'"
  by (induction ops arbitrary: s l)
     (auto split: option.splits prod.splits dest: chan_step_inv chan_step_returns_ok)

text \<open>
  C6: a channel call returns the reply that was sent to it, and only that. Whenever a call
  returns in a run, look at the call as the log before it shows it. If a packet was
  delivered to it the call returns that packet with status ok, even if its deadline passed at
  the same time, and the packet carries the transaction id the kernel gave to the
  request, with its high bit set. If none was, it returns no packet, and the status is
  timed-out, cancelled or peer-closed. A call that never sent its request returns bad-handle or
  peer-closed.
\<close>

theorem call_returns_its_reply:
  assumes "chan_run ops (chan_init koid, []) = Some (s, l)" and "l = l1 @ Returned t st reply # l2"
  shows "return_ok (call_of t l1) st reply"
  using chan_run_returns_ok [OF chan_init_inv returns_ok_Nil assms(1)] assms(2)
  unfolding returns_ok_def by blast

lemma alloc_txid_first: "alloc_txid [] c = Some ((c + 1) OR 0x80000000, c + 1)"
  by (subst alloc_txid.simps) (simp add: Let_def)

lemmas call_eval = chan_eval channel_Call_def BeginWait_def alloc_txid_first waiter_Deliver_def get_set_txid
  channel_ResumeInterruptedCall_def EndWait_def sizeof_txid_def

theorem call_returns_its_reply_witness:
  "\<exists>s. chan_run [Op_call 3 (0, Side0) 0 (example_packet 4 1),
         Op_write (0, Side1) 0 (set_txid 0x80000001 (example_packet 5 2)), Op_finish 3 ZX_OK]
         (chan_init (\<lambda>k x. 9), []) =
       Some (s, [Asked 3 (0, Side0) 0x80000001,
                 Sent (0, Side1) (set_txid 0x80000001 (example_packet 4 1)) None,
                 Sent (0, Side0) (set_txid 0x80000001 (example_packet 5 2)) (Some 3)] @
                Returned 3 ZX_OK (Some (set_txid 0x80000001 (example_packet 5 2))) # []) \<and>
     return_ok (Some ((0, Side0), 0x80000001, Some (set_txid 0x80000001 (example_packet 5 2)))) ZX_OK
       (Some (set_txid 0x80000001 (example_packet 5 2)))"
proof -
  obtain s where run: "chan_run [Op_call 3 (0, Side0) 0 (example_packet 4 1),
         Op_write (0, Side1) 0 (set_txid 0x80000001 (example_packet 5 2)), Op_finish 3 ZX_OK]
         (chan_init (\<lambda>k x. 9), []) =
       Some (s, [Asked 3 (0, Side0) 0x80000001,
                 Sent (0, Side1) (set_txid 0x80000001 (example_packet 4 1)) None,
                 Sent (0, Side0) (set_txid 0x80000001 (example_packet 5 2)) (Some 3)] @
                Returned 3 ZX_OK (Some (set_txid 0x80000001 (example_packet 5 2))) # [])"
    by (simp add: call_eval)
  have "call_of 3 [Asked 3 (0, Side0) 0x80000001,
                 Sent (0, Side1) (set_txid 0x80000001 (example_packet 4 1)) None,
                 Sent (0, Side0) (set_txid 0x80000001 (example_packet 5 2)) (Some 3)] =
      Some ((0, Side0), 0x80000001, Some (set_txid 0x80000001 (example_packet 5 2)))"
    by (simp add: call_of_def)
  then show ?thesis
    using call_returns_its_reply [OF run refl] run by auto
qed

text \<open>
  C19: sending a call ends, and the request is recognisable. With fewer than \<open>2 ^ 31\<close> calls
  pending on the endpoint the search for a transaction id ends; if the call goes on to wait, its
  thread is in the waiter list with an id that no other waiter has, has the high bit, and is the one the
  request that arrived at the peer carries (provided the request has room for an id, which
  the system call checks).
\<close>

theorem call_sends_fresh_request:
  assumes run: "chan_run ops (chan_init koid, []) = Some (s, l)"
    and few: "length (ch_waiters (cs_chan s r)) < 2 ^ 31"
    and "sizeof_txid \<le> mp_data_size m"
  shows "\<exists>st s'. channel_Call t r owner m s = Some (st, s') \<and>
           (st = None \<longleftrightarrow> mw_channel (cs_waiter s t) = None \<and> owner = ch_owner (cs_chan s r) \<and> ch_peer (cs_chan s r)) \<and>
           (st = None \<longrightarrow>
              (let txid = mw_txid (cs_waiter s' t); req = set_txid txid m
               in ch_waiters (cs_chan s' r) = ch_waiters (cs_chan s r) @ [t] \<and>
                  (\<forall>u \<in> set (ch_waiters (cs_chan s r)). mw_txid (cs_waiter s' u) \<noteq> txid) \<and>
                  bit txid 31 \<and> get_txid req = txid \<and>
                  (case reply_target (peer_ref r) req s of
                     None \<Rightarrow> ch_messages (cs_chan s' (peer_ref r)) = ch_messages (cs_chan s (peer_ref r)) @ [req]
                   | Some u \<Rightarrow> mw_msg (cs_waiter s' u) = Some req)))"
proof -
  note inv = chan_reach_inv [OF run]
  have "length (txids_used r s) < 2 ^ 31" using few by (simp add: txids_used_def)
  then obtain txid counter where a: "alloc_txid (txids_used r s) (ch_txid (cs_chan s r)) = Some (txid, counter)"
    using alloc_txid_returns by metis
  show ?thesis
  proof (cases "mw_channel (cs_waiter s t) = None \<and> owner = ch_owner (cs_chan s r) \<and> ch_peer (cs_chan s r)")
    case False
    then have "\<exists>st s'. channel_Call t r owner m s = Some (Some st, s')"
      by (auto simp: Call_exact [OF inv])
    then show ?thesis using False by blast
  next
    case True
    define q where "q = call_queued t r txid counter s"
    define s' where "s' = channel_WriteSelf (peer_ref r) (set_txid txid m) q"
    have call: "channel_Call t r owner m s = Some (None, s')"
      using True by (simp add: Call_exact [OF inv] a s'_def q_def)
    have q: "ch_waiters (cs_chan q r) = ch_waiters (cs_chan s r) @ [t]" "mw_txid (cs_waiter q t) = txid"
      "cs_chan q (peer_ref r) = cs_chan s (peer_ref r)" "u \<noteq> t \<Longrightarrow> cs_waiter q u = cs_waiter s u" for u
      by (simp_all add: q_def call_queued_def call_begun_def)
    have rt: "reply_target (peer_ref r) p q = reply_target (peer_ref r) p s" for p
      using reply_target_call_queued [OF inv] True by (simp add: q_def)
    have s': "cs_chan s' r = cs_chan q r" "mw_txid (cs_waiter s' u) = mw_txid (cs_waiter q u)" for u
      by (simp_all add: s'_def channel_WriteSelf_def waiter_Deliver_def split: option.split)
    have out: "t \<notin> set (ch_waiters (cs_chan s r))"
      using chan_inv_idle_waiter [OF inv] True by blast
    have new: "txid \<notin> set (txids_used r s)" "bit txid 31"
      using alloc_txid_result [OF a] by auto
    have "mw_txid (cs_waiter s' u) \<noteq> txid" if "u \<in> set (ch_waiters (cs_chan s r))" for u
    proof -
      have "u \<noteq> t" using that out by blast
      then show ?thesis using that new(1) q(4) [of u] by (auto simp: s' txids_used_def)
    qed
    moreover have "case reply_target (peer_ref r) (set_txid txid m) s of
        None \<Rightarrow> ch_messages (cs_chan s' (peer_ref r)) = ch_messages (cs_chan s (peer_ref r)) @ [set_txid txid m]
      | Some u \<Rightarrow> mw_msg (cs_waiter s' u) = Some (set_txid txid m)"
      by (simp add: s'_def channel_WriteSelf_def rt q(3) waiter_Deliver_def Let_def split: option.split)
    moreover have tx: "mw_txid (cs_waiter s' t) = txid" and "get_txid (set_txid txid m) = txid"
      using assms(3) by (simp_all add: s' q get_set_txid)
    ultimately show ?thesis
      using call True q(1) s'(1) new(2) unfolding Let_def tx
      by (intro exI [of _ None] exI [of _ s'] conjI impI ballI) (simp_all add: tx cong: option.case_cong)
  qed
qed

theorem call_sends_fresh_request_witness:
  "\<exists>st s'. channel_Call 3 (0, Side0) 0 (example_packet 4 1) (chan_init (\<lambda>k x. 9)) = Some (st, s') \<and>
     st = None \<and> ch_waiters (cs_chan s' (0, Side0)) = [3] \<and> bit (mw_txid (cs_waiter s' 3)) 31"
proof -
  have run: "chan_run [] (chan_init (\<lambda>k x. 9), []) = Some (chan_init (\<lambda>k x. 9), [])" by simp
  have h: "length (ch_waiters (cs_chan (chan_init (\<lambda>k x. 9)) (0, Side0))) < 2 ^ 31"
    "sizeof_txid \<le> mp_data_size (example_packet 4 1)"
    by (simp_all add: chan_eval sizeof_txid_def)
  show ?thesis
    using call_sends_fresh_request [OF run h, of 3 0] by (auto simp: chan_eval)
qed

text \<open>
  C36: a call that is turned away because the endpoint has changed its owner leaves the thread
  unable to make calls. \<^verbatim>\<open>Call\<close> returns bad-handle without ending the wait it has
  begun, so the waiter still names the endpoint although it is in no list. The next call of the
  thread, on any channel, is refused with bad-state and has the process killed; and finishing
  the call erases a waiter that is in no list, which is a fault in the kernel.
\<close>

theorem call_owner_mismatch_strands_waiter:
  assumes "mw_channel (cs_waiter s t) = None" "owner \<noteq> ch_owner (cs_chan s r)"
    and "t \<notin> set (ch_waiters (cs_chan s r))"
  shows "\<exists>s'. channel_Call t r owner m s = Some (Some ZX_ERR_BAD_HANDLE, s') \<and> abandoned s' t \<and>
           (\<forall>r2 owner2 m2. \<exists>s2. channel_Call t r2 owner2 m2 s' = Some (Some ZX_ERR_BAD_STATE, s2) \<and>
                                t \<in> set (cs_shot s2)) \<and>
           (\<forall>waited. waited \<noteq> ZX_ERR_INTERNAL_INTR_RETRY \<longrightarrow>
              channel_ResumeInterruptedCall r t waited s' = None)"
proof -
  define s' where "s' = call_begun t r s"
  have c: "channel_Call t r owner m s = Some (Some ZX_ERR_BAD_HANDLE, s')"
    using assms(1,2) by (simp add: channel_Call_def BeginWait_def Let_def s'_def call_begun_def)
  have w: "mw_channel (cs_waiter s' t) = Some r" and ab: "abandoned s' t"
    using assms(3) by (simp_all add: s'_def call_begun_def abandoned_def)
  have "\<exists>s2. channel_Call t r2 owner2 m2 s' = Some (Some ZX_ERR_BAD_STATE, s2) \<and> t \<in> set (cs_shot s2)"
    for r2 owner2 m2
    using w by (simp add: channel_Call_def BeginWait_def)
  with c ab finish_abandoned [OF w ab] show ?thesis by blast
qed

theorem call_owner_mismatch_strands_waiter_witness:
  "\<exists>s'. channel_Call 3 (0, Side0) 5 (example_packet 4 1) (chan_init (\<lambda>k x. 9)) =
          Some (Some ZX_ERR_BAD_HANDLE, s') \<and> abandoned s' 3"
proof -
  have "mw_channel (cs_waiter (chan_init (\<lambda>k x. 9)) 3) = None"
    "5 \<noteq> ch_owner (cs_chan (chan_init (\<lambda>k x. 9)) (0, Side0))"
    "3 \<notin> set (ch_waiters (cs_chan (chan_init (\<lambda>k x. 9)) (0, Side0)))"
    by (simp_all add: chan_eval)
  from call_owner_mismatch_strands_waiter [OF this] show ?thesis by blast
qed

text \<open>
  C37: calls made at the same time from both ends of a channel can answer each other. Both ends
  count their transaction ids from the same start, so the second request has the id of the
  first; it is handed to the first caller, which returns with the other side's request as
  its reply, while nothing is left for a server on its side to read.
\<close>

theorem crossed_calls_answer_each_other:
  assumes "sizeof_txid \<le> mp_data_size m0" "sizeof_txid \<le> mp_data_size m1"
    and "waited \<noteq> ZX_ERR_INTERNAL_INTR_RETRY" and "t0 \<noteq> t1"
  shows "\<exists>s l. chan_run [Op_call t0 (k, Side0) 0 m0, Op_call t1 (k, Side1) 0 m1, Op_finish t0 waited]
                  (chan_init koid, []) = Some (s, l @ [Returned t0 ZX_OK (Some (set_txid 0x80000001 m1))]) \<and>
           ch_messages (cs_chan s (k, Side0)) = [] \<and> ch_waiters (cs_chan s (k, Side1)) = [t1]"
  using assms by (simp add: call_eval)

theorem crossed_calls_answer_each_other_witness:
  "\<exists>s l. chan_run [Op_call 1 (0, Side0) 0 (example_packet 4 1), Op_call 2 (0, Side1) 0 (example_packet 4 2),
           Op_finish 1 ZX_ERR_TIMED_OUT] (chan_init (\<lambda>k x. 9), []) =
         Some (s, l @ [Returned 1 ZX_OK (Some (set_txid 0x80000001 (example_packet 4 2)))]) \<and>
     ch_messages (cs_chan s (0, Side0)) = []"
  using crossed_calls_answer_each_other
    [of "example_packet 4 1" "example_packet 4 2" ZX_ERR_TIMED_OUT 1 2 0 "\<lambda>k x. 9"]
  by (auto simp: sizeof_txid_def)

text \<open>
  C15: closing an endpoint wakes every caller on either end. After the close no thread is left in a
  waiter list of the pair; each thread that was in a call on it no longer blocks, and its
  call returns the reply if one had arrived, cancelled if it called from the closed end, and
  peer-closed if it called from the other.
\<close>

theorem close_wakes_callers:
  assumes run: "chan_run ops (chan_init koid, []) = Some (s, l)"
    and call: "mw_channel (cs_waiter s t) = Some (k, y)" "\<not> abandoned s t"
    and over: "waited \<noteq> ZX_ERR_INTERNAL_INTR_RETRY"
  shows "ch_waiters (cs_chan (chan_close k x s) (k, y)) = [] \<and>
         waiter_Wait blocked (cs_waiter (chan_close k x s) t) = ZX_OK \<and>
         (\<exists>s'. channel_ResumeInterruptedCall (k, y) t waited (chan_close k x s) =
            Some ((if t \<in> set (ch_waiters (cs_chan s (k, y)))
                   then if y = x then ZX_ERR_CANCELED else ZX_ERR_PEER_CLOSED
                   else mw_status (cs_waiter s t), mw_msg (cs_waiter s t)), s'))"
proof -
  note inv = chan_reach_inv [OF run]
  have none: "ch_waiters (cs_chan s r) = []" if "\<not> ch_peer (cs_chan s r)" for r
    using chan_invD(1) [OF inv, of r] that by (auto simp: chan_ok_def Let_def)
  have linked: "ch_peer (cs_chan s (k, peer_of x)) = ch_peer (cs_chan s (k, x))"
    using chan_inv_linked [OF inv, of "(k, x)"] by simp
  have y: "y = x \<or> y = peer_of x" by (rule side_cases_peer)
  have empty: "ch_waiters (cs_chan (chan_close k x s) (k, y)) = []"
    using y none [of "(k, y)"] linked by (auto simp: chan_close_simps)
  define w where "w = cs_waiter (chan_close k x s) t"
  have w: "w = (if t \<in> set (ch_waiters (cs_chan s (k, y)))
        then (cs_waiter s t)\<lparr>mw_status := if y = x then ZX_ERR_CANCELED else ZX_ERR_PEER_CLOSED, mw_signaled := True\<rparr>
        else cs_waiter s t)"
  proof (cases "t \<in> set (ch_waiters (cs_chan s (k, y)))")
    case True
    have "ch_peer (cs_chan s (k, x))"
      using chan_inv_waiter(5) [OF inv True] y linked by auto
    moreover have "t \<notin> set (ch_waiters (cs_chan s (k, peer_of y)))"
      using chan_inv_one_list [OF inv True, of "(k, peer_of y)"] by simp
    ultimately show ?thesis
      using True y by (elim disjE) (simp_all add: w_def chan_close_waiter)
  next
    case False
    then have "t \<notin> set (ch_waiters (cs_chan s (k, z)))" for z
      using chan_inv_waiter(1) [OF inv, of t "(k, z)"] call(1) by auto
    then show ?thesis using False by (simp add: w_def chan_close_waiter)
  qed
  have "mw_signaled w \<and> mw_channel w = Some (k, y) \<and> mw_status w \<noteq> ZX_ERR_TIMED_OUT"
    using chan_invD(2) [OF inv, of t] call
    by (auto simp: w waiter_ok_def abandoned_def Let_def split: if_splits option.splits)
  then show ?thesis
    using empty over
    by (simp add: waiter_Wait_def channel_ResumeInterruptedCall_def EndWait_def flip: w_def) (simp add: w)
qed

theorem close_wakes_callers_witness:
  "\<exists>s l s'. chan_run [Op_call 3 (0, Side0) 0 (example_packet 4 1)] (chan_init (\<lambda>k x. 9), []) = Some (s, l) \<and>
     channel_ResumeInterruptedCall (0, Side0) 3 ZX_OK (chan_close 0 Side1 s) =
       Some ((ZX_ERR_PEER_CLOSED, None), s')"
proof -
  obtain s l where run: "chan_run [Op_call 3 (0, Side0) 0 (example_packet 4 1)] (chan_init (\<lambda>k x. 9), []) = Some (s, l)"
    and w: "mw_channel (cs_waiter s 3) = Some (0, Side0)" "mw_msg (cs_waiter s 3) = None"
      "ch_waiters (cs_chan s (0, Side0)) = [3]"
    by (simp add: call_eval)
  have "\<not> abandoned s 3" using w by (simp add: abandoned_def)
  then have "\<exists>s'. channel_ResumeInterruptedCall (0, Side0) 3 ZX_OK (chan_close 0 Side1 s) =
      Some ((ZX_ERR_PEER_CLOSED, None), s')"
    using close_wakes_callers [OF run w(1), of ZX_OK Side1 ZX_OK] by (simp only: w) simp
  then show ?thesis using run by blast
qed

end
