(* ===== verification/Arena.thy ===== *)
theory Arena
  imports Kernel_Prelude
begin

text \<open>
  The arena: \<^verbatim>\<open>kernel/lib/fbl/arena.cpp\<close>, the allocator of objects of one size that the handle
  table is built on.  Addresses are byte offsets from the start of their pool, as naturals; the sizes
  are those of kernel mappings and stay far below the 64-bit range.  The outcomes of the calls into
  the virtual memory system are arguments.  A failed assertion and a write through a null pointer are
  \<^const>\<open>None\<close>.  The lemmas show that the pools are stacks inside their committed pages, that the
  assertion of \<^verbatim>\<open>Push\<close> never fails, and what an arena hands out.
\<close>

section \<open>Pools\<close>

definition PAGE_SIZE :: nat where
  "PAGE_SIZE = 4096"

text \<open>
  \<^verbatim>\<open>ROUNDUP\<close> clears the low bits of the sum with the mask of a power of two, which is rounding
  down to a multiple of it.
\<close>

definition ROUNDUP :: "nat \<Rightarrow> nat \<Rightarrow> nat" where
  "ROUNDUP a b = (a + b - 1) div b * b"

definition kPoolCommitIncrease :: nat where
  "kPoolCommitIncrease = 4 * PAGE_SIZE"

definition kPoolDecommitThreshold :: nat where
  "kPoolDecommitThreshold = 8 * PAGE_SIZE"

record pool =
  pool_slot_size :: nat
  pool_top :: nat
  pool_committed :: nat
  pool_committed_max :: nat
  pool_end :: nat

definition Pool_Init :: "nat \<Rightarrow> nat \<Rightarrow> pool" where
  "Pool_Init mapping_size slot_size =
     \<lparr> pool_slot_size = slot_size, pool_top = 0, pool_committed = 0, pool_committed_max = 0,
       pool_end = mapping_size \<rparr>"

text \<open>\<open>map_ok\<close>: whether \<^verbatim>\<open>MapRange\<close> could commit the pages.\<close>

definition Pool_Pop :: "bool \<Rightarrow> pool \<Rightarrow> nat option \<times> pool" where
  "Pool_Pop map_ok p =
     (if pool_end p - pool_top p < pool_slot_size p then (None, p)
      else if pool_top p + pool_slot_size p > pool_committed p
      then (let nc = min (pool_committed p + kPoolCommitIncrease) (pool_end p)
            in if \<not> map_ok then (None, p)
               else (Some (pool_top p),
                     p\<lparr> pool_committed := nc, pool_committed_max := max (pool_committed_max p) nc,
                        pool_top := pool_top p + pool_slot_size p \<rparr>))
      else (Some (pool_top p), p\<lparr> pool_top := pool_top p + pool_slot_size p \<rparr>))"

definition Pool_Push :: "nat \<Rightarrow> pool \<Rightarrow> pool option" where
  "Pool_Push a p =
     (if a + pool_slot_size p \<noteq> pool_top p then None
      else let p1 = p\<lparr> pool_top := pool_top p - pool_slot_size p \<rparr>
           in if pool_committed p1 - pool_top p1 \<ge> kPoolDecommitThreshold
              then (let nc = min (ROUNDUP (pool_top p1 + kPoolCommitIncrease) PAGE_SIZE) (pool_end p1)
                    in if nc \<ge> pool_committed p1 then Some p1 else Some (p1\<lparr> pool_committed := nc \<rparr>))
              else Some p1)"

definition Pool_InRange :: "nat \<Rightarrow> pool \<Rightarrow> bool" where
  "Pool_InRange addr p \<longleftrightarrow> addr < pool_top p"

section \<open>The arena\<close>

text \<open>A free list node: its address in the control pool and the slot of the data pool it stands for.\<close>

record arena_node =
  node_addr :: nat
  node_slot :: nat

record arena =
  ar_free :: "arena_node list"
  ar_control :: pool
  ar_data :: pool
  ar_count :: nat

definition sizeof_Node :: nat where
  "sizeof_Node = 16"

text \<open>
  Arguments from the virtual memory system: the status of creating the memory object, and whether
  the address region and the two mappings could be created.
\<close>

definition Arena_Init ::
  "nat \<Rightarrow> nat \<Rightarrow> zx_status_t \<Rightarrow> bool \<Rightarrow> bool \<Rightarrow> bool \<Rightarrow> zx_status_t + arena" where
  "Arena_Init ob_size cnt vmo_status vmar_ok control_ok data_ok =
     (if ob_size = 0 \<or> ob_size > PAGE_SIZE then Inl ZX_ERR_INVALID_ARGS
      else if cnt = 0 then Inl ZX_ERR_INVALID_ARGS
      else let control_mem_sz = ROUNDUP (cnt * sizeof_Node) PAGE_SIZE;
               data_mem_sz = ROUNDUP (cnt * ob_size) PAGE_SIZE
           in if vmo_status \<noteq> ZX_OK then Inl vmo_status
              else if \<not> vmar_ok then Inl ZX_ERR_NO_MEMORY
              else if \<not> control_ok then Inl ZX_ERR_NO_MEMORY
              else if \<not> data_ok then Inl ZX_ERR_NO_MEMORY
              else Inr \<lparr> ar_free = [], ar_control = Pool_Init control_mem_sz sizeof_Node,
                         ar_data = Pool_Init data_mem_sz ob_size, ar_count = 0 \<rparr>)"

definition Arena_Alloc :: "bool \<Rightarrow> arena \<Rightarrow> (nat option \<times> arena) option" where
  "Arena_Alloc map_ok ar =
     (case ar_free ar of
        node # rest \<Rightarrow>
          (case Pool_Push (node_addr node) (ar_control ar) of
             None \<Rightarrow> None
           | Some control \<Rightarrow>
               Some (Some (node_slot node),
                     ar\<lparr> ar_free := rest, ar_control := control, ar_count := ar_count ar + 1 \<rparr>))
      | [] \<Rightarrow>
          (case Pool_Pop map_ok (ar_data ar) of
             (None, data) \<Rightarrow> Some (None, ar\<lparr> ar_data := data \<rparr>)
           | (Some slot, data) \<Rightarrow>
               Some (Some slot, ar\<lparr> ar_data := data, ar_count := ar_count ar + 1 \<rparr>)))"

definition Arena_Free :: "bool \<Rightarrow> nat \<Rightarrow> arena \<Rightarrow> arena option" where
  "Arena_Free map_ok addr ar =
     (case Pool_Pop map_ok (ar_control ar) of
        (None, _) \<Rightarrow> None
      | (Some a, control) \<Rightarrow>
          Some (ar\<lparr> ar_count := ar_count ar - 1, ar_control := control,
                   ar_free := \<lparr> node_addr = a, node_slot = addr \<rparr> # ar_free ar \<rparr>))"

definition Arena_in_range :: "nat \<Rightarrow> arena \<Rightarrow> bool" where
  "Arena_in_range addr ar = Pool_InRange addr (ar_data ar)"

definition DiagnosticCount :: "arena \<Rightarrow> nat" where
  "DiagnosticCount ar = ar_count ar"

section \<open>Pools are stacks within their committed pages\<close>

definition pool_inv :: "pool \<Rightarrow> bool" where
  "pool_inv p \<longleftrightarrow> 0 < pool_slot_size p \<and> pool_slot_size p \<le> PAGE_SIZE \<and> pool_slot_size p dvd pool_top p \<and>
     pool_top p \<le> pool_committed p \<and> pool_committed p \<le> pool_end p"

lemma ROUNDUP_ge: "0 < b \<Longrightarrow> a \<le> ROUNDUP a b"
proof -
  assume b: "0 < b"
  have "a + b - 1 = (a + b - 1) div b * b + (a + b - 1) mod b"
    by (rule div_mult_mod_eq [symmetric])
  moreover have "(a + b - 1) mod b < b"
    using b by simp
  ultimately show ?thesis
    using b unfolding ROUNDUP_def by linarith
qed

lemma Pool_Init_inv: "0 < ob \<Longrightarrow> ob \<le> PAGE_SIZE \<Longrightarrow> pool_inv (Pool_Init sz ob)"
  by (simp add: pool_inv_def Pool_Init_def)

lemma Pool_Pop_cases:
  assumes "Pool_Pop map_ok p = (r, p')" "pool_inv p"
  obtains (full) "r = None" "p' = p" "pool_end p < pool_top p + pool_slot_size p"
  | (nomem) "r = None" "p' = p" "\<not> map_ok"
  | (ok) "r = Some (pool_top p)" "pool_top p' = pool_top p + pool_slot_size p" "pool_inv p'"
      "pool_slot_size p' = pool_slot_size p" "pool_end p' = pool_end p"
proof -
  have inv: "0 < pool_slot_size p" "pool_slot_size p \<le> PAGE_SIZE" "pool_slot_size p dvd pool_top p"
    "pool_top p \<le> pool_committed p" "pool_committed p \<le> pool_end p"
    using assms(2) by (simp_all add: pool_inv_def)
  have d: "pool_slot_size p dvd pool_top p + pool_slot_size p"
    using inv(3) by simp
  show ?thesis
  proof (cases "pool_end p - pool_top p < pool_slot_size p")
    case True
    then show ?thesis
      using assms(1) by (intro full) (simp_all add: Pool_Pop_def)
  next
    case room: False
    show ?thesis
    proof (cases "pool_top p + pool_slot_size p > pool_committed p")
      case True
      let ?nc = "min (pool_committed p + kPoolCommitIncrease) (pool_end p)"
      have nc: "pool_top p + pool_slot_size p \<le> ?nc"
        using inv(1,2,4,5) room by (simp add: kPoolCommitIncrease_def)
      show ?thesis
      proof (cases map_ok)
        case False
        then show ?thesis
          using assms(1) room True by (intro nomem) (simp_all add: Pool_Pop_def)
      next
        case map_ok: True
        then have p': "r = Some (pool_top p)" "p' = p\<lparr> pool_committed := ?nc,
            pool_committed_max := max (pool_committed_max p) ?nc, pool_top := pool_top p + pool_slot_size p \<rparr>"
          using assms(1) room True by (simp_all add: Pool_Pop_def Let_def)
        have "pool_inv p'"
          using inv(1,2) d nc unfolding pool_inv_def p' by simp
        then show ?thesis
          using p' by (intro ok) simp_all
      qed
    next
      case False
      then have p': "r = Some (pool_top p)" "p' = p\<lparr> pool_top := pool_top p + pool_slot_size p \<rparr>"
        using assms(1) room by (simp_all add: Pool_Pop_def)
      have "pool_inv p'"
        using inv d False unfolding pool_inv_def p' by simp
      then show ?thesis
        using p' by (intro ok) simp_all
    qed
  qed
qed

lemma Pool_Push_Pop:
  assumes "pool_inv p" "a + pool_slot_size p = pool_top p"
  shows "\<exists>p'. Pool_Push a p = Some p' \<and> pool_inv p' \<and> pool_top p' = a \<and>
    pool_slot_size p' = pool_slot_size p \<and> pool_end p' = pool_end p"
proof -
  have inv: "0 < pool_slot_size p" "pool_slot_size p \<le> PAGE_SIZE" "pool_slot_size p dvd pool_top p"
    "pool_top p \<le> pool_committed p" "pool_committed p \<le> pool_end p"
    using assms(1) by (simp_all add: pool_inv_def)
  have a: "pool_top p - pool_slot_size p = a"
    using assms(2) by simp
  have d: "pool_slot_size p dvd a"
    using inv(3) unfolding assms(2) [symmetric] by simp
  have "a \<le> ROUNDUP (a + kPoolCommitIncrease) PAGE_SIZE"
    using ROUNDUP_ge [of PAGE_SIZE "a + kPoolCommitIncrease"] by (simp add: PAGE_SIZE_def)
  then show ?thesis
    using assms inv a d by (auto simp: Pool_Push_def Let_def pool_inv_def)
qed

section \<open>What the arena hands out\<close>

text \<open>The nodes of the free list are the slots of the control pool, the newest on top.\<close>

primrec stacked :: "arena_node list \<Rightarrow> bool" where
  "stacked [] = True"
| "stacked (x # xs) \<longleftrightarrow> node_addr x = sizeof_Node * length xs \<and> stacked xs"

abbreviation slot_size :: "arena \<Rightarrow> nat" where
  "slot_size ar \<equiv> pool_slot_size (ar_data ar)"

definition outstanding :: "arena \<Rightarrow> nat \<Rightarrow> bool" where
  "outstanding ar addr \<longleftrightarrow>
     slot_size ar dvd addr \<and> addr < pool_top (ar_data ar) \<and> addr \<notin> node_slot ` set (ar_free ar)"

definition arena_inv :: "arena \<Rightarrow> bool" where
  "arena_inv ar \<longleftrightarrow> pool_inv (ar_control ar) \<and> pool_inv (ar_data ar) \<and>
     pool_slot_size (ar_control ar) = sizeof_Node \<and> stacked (ar_free ar) \<and>
     pool_top (ar_control ar) = sizeof_Node * length (ar_free ar) \<and> distinct (map node_slot (ar_free ar)) \<and>
     (\<forall>n\<in>set (ar_free ar). slot_size ar dvd node_slot n \<and> node_slot n < pool_top (ar_data ar)) \<and>
     slot_size ar * (ar_count ar + length (ar_free ar)) = pool_top (ar_data ar)"

text \<open>The count is the number of slots handed out and not returned.\<close>

lemma outstanding_card:
  assumes inv: "arena_inv ar"
  shows "finite (Collect (outstanding ar))" "card (Collect (outstanding ar)) = ar_count ar"
proof -
  let ?n = "ar_count ar + length (ar_free ar)" and ?F = "node_slot ` set (ar_free ar)"
  have pos: "0 < slot_size ar"
    using inv by (simp add: arena_inv_def pool_inv_def)
  have top: "pool_top (ar_data ar) = slot_size ar * ?n"
    using inv by (simp add: arena_inv_def)
  have slots: "{x. slot_size ar dvd x \<and> x < slot_size ar * ?n} = (*) (slot_size ar) ` {..<?n}"
    using pos by (auto elim!: dvdE)
  have F: "?F \<subseteq> (*) (slot_size ar) ` {..<?n}"
    using inv unfolding slots [symmetric] top [symmetric] arena_inv_def by auto
  have eq: "Collect (outstanding ar) = (*) (slot_size ar) ` {..<?n} - ?F"
    unfolding slots [symmetric] by (auto simp: outstanding_def top)
  then show "finite (Collect (outstanding ar))"
    by simp
  have "card ?F = length (ar_free ar)"
    using inv distinct_card [of "map node_slot (ar_free ar)"] by (simp add: arena_inv_def)
  moreover have "card ((*) (slot_size ar) ` {..<?n}) = ?n"
    using pos by (simp add: card_image inj_on_def)
  ultimately show "card (Collect (outstanding ar)) = ar_count ar"
    unfolding eq using card_Diff_subset [OF _ F] by simp
qed

lemma Arena_Init_inv:
  assumes "Arena_Init ob_size cnt vmo_status vmar_ok control_ok data_ok = Inr ar"
  shows "arena_inv ar" "\<not> outstanding ar a" "ar_count ar = 0" "slot_size ar = ob_size"
    "pool_end (ar_control ar) = ROUNDUP (cnt * sizeof_Node) PAGE_SIZE"
    "pool_end (ar_data ar) = ROUNDUP (cnt * ob_size) PAGE_SIZE"
proof -
  have ob: "0 < ob_size" "ob_size \<le> PAGE_SIZE" and ar: "ar = \<lparr> ar_free = [],
      ar_control = Pool_Init (ROUNDUP (cnt * sizeof_Node) PAGE_SIZE) sizeof_Node,
      ar_data = Pool_Init (ROUNDUP (cnt * ob_size) PAGE_SIZE) ob_size, ar_count = 0 \<rparr>"
    using assms by (auto simp: Arena_Init_def Let_def split: if_splits)
  have "0 < sizeof_Node" "sizeof_Node \<le> PAGE_SIZE"
    by (simp_all add: sizeof_Node_def PAGE_SIZE_def)
  then show "arena_inv ar"
    using ob by (simp add: arena_inv_def ar Pool_Init_inv) (simp add: Pool_Init_def)
qed (use assms in \<open>auto simp: Arena_Init_def outstanding_def Pool_Init_def Let_def split: if_splits\<close>)

lemma Arena_Alloc_cases:
  assumes inv: "arena_inv ar"
  obtains
    (full) "Arena_Alloc map_ok ar = Some (None, ar)" "ar_free ar = []"
      "pool_end (ar_data ar) < pool_top (ar_data ar) + slot_size ar \<or> \<not> map_ok"
  | (ok) a ar' where "Arena_Alloc map_ok ar = Some (Some a, ar')" "arena_inv ar'" "\<not> outstanding ar a"
      "\<And>x. outstanding ar' x \<longleftrightarrow> outstanding ar x \<or> x = a" "ar_count ar' = ar_count ar + 1"
      "slot_size ar' = slot_size ar" "pool_end (ar_data ar') = pool_end (ar_data ar)"
      "pool_end (ar_control ar') = pool_end (ar_control ar)"
      "case ar_free ar of n # _ \<Rightarrow> a = node_slot n \<and> pool_top (ar_data ar') = pool_top (ar_data ar)
        | [] \<Rightarrow> a = pool_top (ar_data ar) \<and> pool_top (ar_data ar') = a + slot_size ar"
proof (cases "ar_free ar")
  case (Cons n rest)
  have "node_addr n + pool_slot_size (ar_control ar) = pool_top (ar_control ar)"
    using inv Cons by (simp add: arena_inv_def)
  then obtain c where c: "Pool_Push (node_addr n) (ar_control ar) = Some c" "pool_inv c"
    "pool_top c = node_addr n" "pool_slot_size c = pool_slot_size (ar_control ar)" "pool_end c = pool_end (ar_control ar)"
    using Pool_Push_Pop [of "ar_control ar" "node_addr n"] inv by (auto simp: arena_inv_def)
  let ?ar = "ar\<lparr> ar_free := rest, ar_control := c, ar_count := ar_count ar + 1 \<rparr>"
  have n: "slot_size ar dvd node_slot n" "node_slot n < pool_top (ar_data ar)" "node_slot n \<notin> node_slot ` set rest"
    using inv Cons by (auto simp: arena_inv_def)
  show ?thesis
  proof (rule ok [of "node_slot n" ?ar])
    show "arena_inv ?ar"
      using inv Cons c by (simp add: arena_inv_def)
    show "outstanding ?ar x \<longleftrightarrow> outstanding ar x \<or> x = node_slot n" for x
      using n Cons by (auto simp: outstanding_def)
  qed (use Cons c n in \<open>auto simp: Arena_Alloc_def outstanding_def\<close>)
next
  case Nil
  have di: "pool_inv (ar_data ar)"
    using inv by (simp add: arena_inv_def)
  obtain r d where "Pool_Pop map_ok (ar_data ar) = (r, d)"
    by fastforce
  from this di show ?thesis
  proof (cases rule: Pool_Pop_cases)
    case ok': ok
    let ?a = "pool_top (ar_data ar)"
    let ?ar = "ar\<lparr> ar_data := d, ar_count := ar_count ar + 1 \<rparr>"
    have al: "slot_size ar dvd ?a" and pos: "0 < slot_size ar"
      using di by (simp_all add: pool_inv_def)
    show ?thesis
    proof (rule ok [of ?a ?ar])
      show "arena_inv ?ar"
        using inv Nil ok' by (simp add: arena_inv_def)
      show "outstanding ?ar x \<longleftrightarrow> outstanding ar x \<or> x = ?a" for x
      proof -
        have "x = ?a" if "slot_size ar dvd x" "x < ?a + slot_size ar" "\<not> x < ?a"
          using that al pos by (metis add_diff_inverse_nat dvd_add_right_iff dvd_imp_le linorder_not_less
              nat_add_left_cancel_less not_gr_zero add.right_neutral)
        then show ?thesis
          using ok'(2,4) al pos Nil by (auto simp: outstanding_def)
      qed
    qed (use Nil ok' \<open>Pool_Pop map_ok (ar_data ar) = (r, d)\<close> in \<open>auto simp: Arena_Alloc_def outstanding_def\<close>)
  qed (use Nil \<open>Pool_Pop map_ok (ar_data ar) = (r, d)\<close> full in \<open>auto simp: Arena_Alloc_def\<close>)
qed

text \<open>Freeing needs a node of the control pool.\<close>

lemma Arena_Free_cases:
  assumes inv: "arena_inv ar" and a: "outstanding ar a"
  obtains
    (fault) "Arena_Free map_ok a ar = None"
      "\<not> map_ok \<or> pool_end (ar_control ar) < sizeof_Node * (length (ar_free ar) + 1)"
  | (ok) ar' where "Arena_Free map_ok a ar = Some ar'" "arena_inv ar'"
      "\<And>x. outstanding ar' x \<longleftrightarrow> outstanding ar x \<and> x \<noteq> a" "ar_count ar = ar_count ar' + 1"
      "slot_size ar' = slot_size ar" "pool_end (ar_data ar') = pool_end (ar_data ar)"
      "pool_end (ar_control ar') = pool_end (ar_control ar)" "pool_top (ar_data ar') = pool_top (ar_data ar)"
      "map node_slot (ar_free ar') = a # map node_slot (ar_free ar)"
proof -
  have ci: "pool_inv (ar_control ar)"
    using inv by (simp add: arena_inv_def)
  obtain r c where pop: "Pool_Pop map_ok (ar_control ar) = (r, c)"
    by fastforce
  have top: "pool_top (ar_control ar) = sizeof_Node * length (ar_free ar)" "pool_slot_size (ar_control ar) = sizeof_Node"
    using inv by (simp_all add: arena_inv_def)
  from pop ci show ?thesis
  proof (cases rule: Pool_Pop_cases)
    case ok': ok
    let ?ar = "ar\<lparr> ar_count := ar_count ar - 1, ar_control := c,
      ar_free := \<lparr> node_addr = pool_top (ar_control ar), node_slot = a \<rparr> # ar_free ar \<rparr>"
    have o: "slot_size ar dvd a" "a < pool_top (ar_data ar)" "a \<notin> node_slot ` set (ar_free ar)"
      using a by (simp_all add: outstanding_def)
    have cnt: "0 < ar_count ar"
      using outstanding_card [OF inv] a by (metis card_gt_0_iff empty_iff mem_Collect_eq)
    show ?thesis
    proof (rule ok [of ?ar])
      show "arena_inv ?ar"
        using inv ok' o top cnt by (simp add: arena_inv_def)
      show "outstanding ?ar x \<longleftrightarrow> outstanding ar x \<and> x \<noteq> a" for x
        by (auto simp: outstanding_def)
    qed (use pop ok' cnt in \<open>auto simp: Arena_Free_def\<close>)
  qed (use pop fault top in \<open>auto simp: Arena_Free_def\<close>)
qed

section \<open>Reachable arenas\<close>

inductive arena_reach :: "nat \<Rightarrow> nat \<Rightarrow> arena \<Rightarrow> bool" for ob_size cnt :: nat where
  arena_start: "Arena_Init ob_size cnt vmo_status vmar_ok control_ok data_ok = Inr ar \<Longrightarrow> arena_reach ob_size cnt ar"
| arena_alloc: "arena_reach ob_size cnt ar \<Longrightarrow> Arena_Alloc map_ok ar = Some (r, ar') \<Longrightarrow> arena_reach ob_size cnt ar'"
| arena_release: "arena_reach ob_size cnt ar \<Longrightarrow> outstanding ar a \<Longrightarrow> Arena_Free map_ok a ar = Some ar'
    \<Longrightarrow> arena_reach ob_size cnt ar'"

definition arena_sizes :: "nat \<Rightarrow> nat \<Rightarrow> arena \<Rightarrow> bool" where
  "arena_sizes ob_size cnt ar \<longleftrightarrow> arena_inv ar \<and> slot_size ar = ob_size \<and>
     pool_end (ar_control ar) = ROUNDUP (cnt * sizeof_Node) PAGE_SIZE \<and>
     pool_end (ar_data ar) = ROUNDUP (cnt * ob_size) PAGE_SIZE"

lemma arena_reach_sizes: "arena_reach ob_size cnt ar \<Longrightarrow> arena_sizes ob_size cnt ar"
proof (induction rule: arena_reach.induct)
  case (arena_start vmo_status vmar_ok control_ok data_ok ar)
  then show ?case
    using Arena_Init_inv [OF arena_start] by (simp add: arena_sizes_def)
next
  case (arena_alloc ar map_ok r ar')
  then have inv: "arena_inv ar"
    by (simp add: arena_sizes_def)
  show ?case
    using arena_alloc by (cases rule: Arena_Alloc_cases [OF inv, where map_ok = map_ok]) (auto simp: arena_sizes_def)
next
  case (arena_release ar a map_ok ar')
  then have inv: "arena_inv ar"
    by (simp add: arena_sizes_def)
  show ?case
    using arena_release
    by (cases rule: Arena_Free_cases [OF inv arena_release(2), where map_ok = map_ok]) (auto simp: arena_sizes_def)
qed

text \<open>
  C29: Allocating from an arena that was only used through its interface never fails the
  assertion of the control pool.  The result is a slot that was not handed out, aligned to the
  object size and inside the committed part of the data pool, and exactly that slot is handed out
  in addition; it is null only when no freed slot is waiting and the data pool is full or its pages
  cannot be committed.  The count is the number of slots handed out.
\<close>

theorem arena_alloc_exact:
  assumes "arena_reach ob_size cnt ar"
  shows "card (Collect (outstanding ar)) = ar_count ar \<and>
    (\<exists>r ar'. Arena_Alloc map_ok ar = Some (r, ar') \<and>
      (case r of
         None \<Rightarrow> ar' = ar \<and> ar_free ar = [] \<and>
           (pool_end (ar_data ar) < pool_top (ar_data ar) + ob_size \<or> \<not> map_ok)
       | Some a \<Rightarrow> \<not> outstanding ar a \<and> ob_size dvd a \<and> a + ob_size \<le> pool_committed (ar_data ar') \<and>
           Collect (outstanding ar') = insert a (Collect (outstanding ar))))"
proof -
  have inv: "arena_inv ar" "slot_size ar = ob_size"
    using arena_reach_sizes [OF assms] by (simp_all add: arena_sizes_def)
  have card: "card (Collect (outstanding ar)) = ar_count ar"
    by (rule outstanding_card [OF inv(1)])
  show ?thesis
  proof (cases rule: Arena_Alloc_cases [OF inv(1), where map_ok = map_ok])
    case 1
    then show ?thesis
      using card inv(2) by simp
  next
    case ok: (2 a ar')
    have "outstanding ar' a"
      using ok(4) by simp
    then have a: "ob_size dvd a" "a < pool_top (ar_data ar')"
      using ok(6) inv(2) by (simp_all add: outstanding_def)
    have p: "pool_inv (ar_data ar')"
      using ok(2) by (simp add: arena_inv_def)
    then have "ob_size dvd pool_top (ar_data ar')" "pool_top (ar_data ar') \<le> pool_committed (ar_data ar')"
      using ok(6) inv(2) by (simp_all add: pool_inv_def)
    moreover have "a + ob_size \<le> pool_top (ar_data ar')"
      using a \<open>ob_size dvd pool_top (ar_data ar')\<close>
      by (metis dvd_diff_nat dvd_imp_le le_diff_conv2 less_imp_le zero_less_diff add.commute)
    ultimately show ?thesis
      using ok(1,3,4) a(1) card by auto
  qed
qed

definition small_arena :: arena where
  "small_arena = \<lparr> ar_free = [], ar_control = Pool_Init 4096 16, ar_data = Pool_Init 4096 40, ar_count = 0 \<rparr>"

lemma small_arena_init: "Arena_Init 40 3 ZX_OK True True True = Inr small_arena"
  by (simp add: Arena_Init_def small_arena_def PAGE_SIZE_def ROUNDUP_def sizeof_Node_def)

theorem arena_alloc_exact_witness:
  "arena_reach 40 3 small_arena \<and> card (Collect (outstanding small_arena)) = ar_count small_arena"
  using arena_alloc_exact [OF arena_start [OF small_arena_init]] arena_start [OF small_arena_init] by simp

section \<open>An arena can outgrow its free list\<close>

lemma alloc_many:
  assumes init: "Arena_Init ob cnt ZX_OK True True True = Inr ar0" and k: "ob * k \<le> ROUNDUP (cnt * ob) PAGE_SIZE"
  shows "\<exists>ar. arena_reach ob cnt ar \<and> ar_free ar = [] \<and> ar_count ar = k"
  using k
proof (induction k)
  case 0
  have "ar_free ar0 = []" "ar_count ar0 = 0"
    using init by (auto simp: Arena_Init_def Let_def split: if_splits)
  then show ?case
    using arena_start [OF init] by blast
next
  case (Suc k)
  then obtain ar where ar: "arena_reach ob cnt ar" "ar_free ar = []" "ar_count ar = k"
    by auto
  have s: "arena_inv ar" "slot_size ar = ob" "pool_end (ar_data ar) = ROUNDUP (cnt * ob) PAGE_SIZE"
    using arena_reach_sizes [OF ar(1)] by (simp_all add: arena_sizes_def)
  then have top: "pool_top (ar_data ar) = ob * k"
    using ar(2,3) by (simp add: arena_inv_def)
  obtain d where pop: "Pool_Pop True (ar_data ar) = (Some (pool_top (ar_data ar)), d)"
    using Suc.prems top s(2,3) by (cases "Pool_Pop True (ar_data ar)") (auto simp: Pool_Pop_def Let_def split: if_splits)
  then have al: "Arena_Alloc True ar =
      Some (Some (pool_top (ar_data ar)), ar\<lparr> ar_data := d, ar_count := ar_count ar + 1 \<rparr>)"
    using ar(2) by (simp add: Arena_Alloc_def)
  show ?case
    using arena_reach.arena_alloc [OF ar(1) al] ar(2,3) by (intro exI) auto
qed

lemma free_many:
  assumes ar: "arena_reach ob cnt ar" "ar_free ar = []" and j: "j \<le> ar_count ar"
    and room: "sizeof_Node * j \<le> ROUNDUP (cnt * sizeof_Node) PAGE_SIZE"
  shows "\<exists>ar'. arena_reach ob cnt ar' \<and> length (ar_free ar') = j \<and> ar_count ar' + j = ar_count ar"
  using j room
proof (induction j)
  case 0
  then show ?case
    using ar by auto
next
  case (Suc j)
  then obtain ar' where r: "arena_reach ob cnt ar'" "length (ar_free ar') = j" "ar_count ar' + j = ar_count ar"
    by auto
  have s: "arena_inv ar'" "pool_end (ar_control ar') = ROUNDUP (cnt * sizeof_Node) PAGE_SIZE"
    using arena_reach_sizes [OF r(1)] by (simp_all add: arena_sizes_def)
  obtain a where a: "outstanding ar' a"
    using outstanding_card [OF s(1)] r(3) Suc.prems(1) by (metis Suc_n_not_le_n Collect_empty_eq add_0 card.empty)
  show ?case
  proof (cases rule: Arena_Free_cases [OF s(1) a, where map_ok = True])
    case 1
    then show ?thesis
      using s(2) r(2) Suc.prems(2) by simp
  next
    case ok: (2 ar2)
    have "length (ar_free ar2) = Suc j"
      using arg_cong [OF ok(9), of length] r(2) by simp
    then show ?thesis
      using arena_release [OF r(1) a ok(1)] ok(4) r(3) by auto
  qed
qed

text \<open>
  The sizes of the two pools are rounded up to pages separately, and the object limit is
  not enforced.  An arena for one object of one byte hands out 4096 of them, but its free list has
  room for 256: the 257th object to be returned finds no node, and its node is then written through
  a null pointer.
\<close>

theorem arena_free_without_node:
  "\<exists>ar a. arena_reach 1 1 ar \<and> outstanding ar a \<and> Arena_Free True a ar = None"
proof -
  have i: "\<exists>ar0. Arena_Init 1 1 ZX_OK True True True = Inr ar0"
    by (simp add: Arena_Init_def PAGE_SIZE_def)
  have sz: "ROUNDUP (1 * 1) PAGE_SIZE = 4096" "ROUNDUP (1 * sizeof_Node) PAGE_SIZE = 4096" "sizeof_Node = 16"
    by (simp_all add: ROUNDUP_def PAGE_SIZE_def sizeof_Node_def)
  obtain ar1 where ar1: "arena_reach 1 1 ar1" "ar_free ar1 = []" "ar_count ar1 = 257"
    using i alloc_many [of 1 1 _ 257] sz(1) by auto
  obtain ar2 where ar2: "arena_reach 1 1 ar2" "length (ar_free ar2) = 256" "ar_count ar2 = 1"
    using free_many [OF ar1(1,2), of 256] ar1(3) sz(2,3) by auto
  have s: "arena_inv ar2" "pool_end (ar_control ar2) = 4096"
    using arena_reach_sizes [OF ar2(1)] sz by (simp_all add: arena_sizes_def)
  obtain a where a: "outstanding ar2 a"
    using outstanding_card [OF s(1)] ar2(3) by (metis Collect_empty_eq card.empty zero_neq_one)
  have "Pool_Pop True (ar_control ar2) = (None, ar_control ar2)"
    using s ar2(2) sz(3) by (simp add: Pool_Pop_def arena_inv_def)
  then have "Arena_Free True a ar2 = None"
    by (simp add: Arena_Free_def)
  then show ?thesis
    using ar2(1) a by blast
qed

end
