(* ===== verification/HandleTable.thy ===== *)
theory HandleTable
  imports Dispatcher Arena MessagePacket
begin

text \<open>
  Handles and the handle tables of processes: \<^verbatim>\<open>kernel/object/handle.cpp\<close>,
  \<^verbatim>\<open>object/include/object/handle.h\<close> and the handle routines of
  \<^verbatim>\<open>kernel/object/process_dispatcher.cpp\<close>.  All handles live in one arena; a handle is named by
  its index there.  A slot of the arena is free, with the last base value stashed in its first
  word, or holds a handle.  The calls into the objects (\<^verbatim>\<open>Cancel\<close>, \<^verbatim>\<open>on_zero_handles\<close>,
  \<^verbatim>\<open>set_owner\<close>) and the policy queries after a failed lookup are recorded in order.
  Object references are naturals; whether an object is waitable, and whether pages can be committed,
  are arguments.  \<^const>\<open>None\<close> is the fault of the arena.  A \<^verbatim>\<open>HandleOwner\<close> is a live handle in no
  process list.
\<close>

section \<open>State\<close>

type_synonym zx_handle_t = "32 word"

definition ZX_HANDLE_INVALID :: zx_handle_t where
  "ZX_HANDLE_INVALID = 0"

definition kMaxHandleCount :: nat where
  "kMaxHandleCount = 256 * 1024"

definition kHandleIndexMask :: "32 word" where
  "kHandleIndexMask = of_nat kMaxHandleCount - 1"

definition kHandleGenerationMask :: "32 word" where
  "kHandleGenerationMask = NOT kHandleIndexMask AND NOT (push_bit 30 3)"

text \<open>\<^verbatim>\<open>log2_uint_floor(kMaxHandleCount)\<close>\<close>

definition kHandleGenerationShift :: nat where
  "kHandleGenerationShift = 18"

text \<open>Two list pointers, a koid, an object reference, rights and base value.\<close>

definition sizeof_Handle :: nat where
  "sizeof_Handle = 40"

record handle =
  hd_process_id :: zx_koid_t
  hd_dispatcher :: nat
  hd_rights :: zx_rights_t
  hd_base_value :: "32 word"

datatype hslot = Free_slot "32 word" | Live_slot handle

datatype hevent =
    Ev_cancel nat nat
  | Ev_zero_handles nat
  | Ev_set_owner nat zx_koid_t
  | Ev_policy_bad_handle zx_koid_t

record hproc =
  hp_handle_rand :: "32 word"
  hp_handles :: "nat list"

record hstate =
  hs_arena :: arena
  hs_mem :: "nat \<Rightarrow> hslot"
  hs_objs :: "nat \<Rightarrow> dispatcher"
  hs_procs :: "zx_koid_t \<Rightarrow> hproc"
  hs_events :: "hevent list"

text \<open>What reading a field of a slot gives: a free slot is zeroed behind its first word.\<close>

fun slot_base_value :: "hslot \<Rightarrow> 32 word" where
  "slot_base_value (Free_slot v) = 0"
| "slot_base_value (Live_slot h) = hd_base_value h"

fun slot_process_id :: "hslot \<Rightarrow> zx_koid_t" where
  "slot_process_id (Free_slot v) = 0"
| "slot_process_id (Live_slot h) = hd_process_id h"

fun is_live :: "hslot \<Rightarrow> bool" where
  "is_live (Free_slot v) = False"
| "is_live (Live_slot h) = True"

definition hs_log :: "hevent \<Rightarrow> hstate \<Rightarrow> hstate" where
  "hs_log e s = s\<lparr> hs_events := hs_events s @ [e] \<rparr>"

section \<open>Handles\<close>

definition HandleToIndex :: "nat \<Rightarrow> nat" where
  "HandleToIndex addr = addr div sizeof_Handle"

definition IndexToHandle :: "nat \<Rightarrow> nat" where
  "IndexToHandle index = index * sizeof_Handle"

definition HasRights :: "handle \<Rightarrow> zx_rights_t \<Rightarrow> bool" where
  "HasRights h desired \<longleftrightarrow> hd_rights h AND desired = desired"

text \<open>\<open>v\<close> is the word stashed in the free slot.\<close>

definition GetNewBaseValue :: "nat \<Rightarrow> 32 word \<Rightarrow> 32 word" where
  "GetNewBaseValue addr v =
     (let handle_index = of_nat (HandleToIndex addr);
          old_gen = (if v \<noteq> 0 then drop_bit kHandleGenerationShift (v AND kHandleGenerationMask) else 0);
          new_gen = push_bit kHandleGenerationShift (old_gen + 1) AND kHandleGenerationMask
      in handle_index OR new_gen)"

fun stashed :: "hslot \<Rightarrow> 32 word" where
  "stashed (Free_slot v) = v"
| "stashed (Live_slot h) = 0"

definition Handle_Init :: "zx_status_t \<Rightarrow> bool \<Rightarrow> bool \<Rightarrow> bool \<Rightarrow> zx_status_t + arena" where
  "Handle_Init vmo_status vmar_ok control_ok data_ok =
     Arena_Init sizeof_Handle kMaxHandleCount vmo_status vmar_ok control_ok data_ok"

definition set_process_id :: "nat \<Rightarrow> zx_koid_t \<Rightarrow> hstate \<Rightarrow> hstate" where
  "set_process_id i pid s =
     (case hs_mem s i of
        Free_slot v \<Rightarrow> s
      | Live_slot h \<Rightarrow>
          hs_log (Ev_set_owner (hd_dispatcher h) pid)
            (s\<lparr> hs_mem := (hs_mem s)(i := Live_slot (h\<lparr> hd_process_id := pid \<rparr>)) \<rparr>))"

definition Handle_Alloc :: "bool \<Rightarrow> nat \<Rightarrow> hstate \<Rightarrow> ((nat \<times> 32 word) option \<times> hstate) option" where
  "Handle_Alloc map_ok obj s =
     (case Arena_Alloc map_ok (hs_arena s) of
        None \<Rightarrow> None
      | Some (None, ar) \<Rightarrow> Some (None, s\<lparr> hs_arena := ar \<rparr>)
      | Some (Some addr, ar) \<Rightarrow>
          Some (Some (HandleToIndex addr, GetNewBaseValue addr (stashed (hs_mem s (HandleToIndex addr)))),
                s\<lparr> hs_arena := ar, hs_objs := (hs_objs s)(obj := increment_handle_count (hs_objs s obj)) \<rparr>))"

definition Handle_Make :: "bool \<Rightarrow> nat \<Rightarrow> zx_rights_t \<Rightarrow> hstate \<Rightarrow> (nat option \<times> hstate) option" where
  "Handle_Make map_ok obj rights s =
     (case Handle_Alloc map_ok obj s of
        None \<Rightarrow> None
      | Some (None, s1) \<Rightarrow> Some (None, s1)
      | Some (Some (i, base_value), s1) \<Rightarrow>
          Some (Some i, s1\<lparr> hs_mem := (hs_mem s1)(i := Live_slot
            \<lparr> hd_process_id = 0, hd_dispatcher = obj, hd_rights = rights, hd_base_value = base_value \<rparr>) \<rparr>))"

definition Handle_Dup :: "bool \<Rightarrow> handle \<Rightarrow> zx_rights_t \<Rightarrow> hstate \<Rightarrow> (nat option \<times> hstate) option" where
  "Handle_Dup map_ok source rights s =
     (case Handle_Alloc map_ok (hd_dispatcher source) s of
        None \<Rightarrow> None
      | Some (None, s1) \<Rightarrow> Some (None, s1)
      | Some (Some (i, base_value), s1) \<Rightarrow>
          Some (Some i, s1\<lparr> hs_mem := (hs_mem s1)(i := Live_slot
            \<lparr> hd_process_id = hd_process_id source, hd_dispatcher = hd_dispatcher source,
              hd_rights = rights, hd_base_value = base_value \<rparr>) \<rparr>))"

definition TearDown :: "nat \<Rightarrow> hstate \<Rightarrow> hstate" where
  "TearDown i s = s\<lparr> hs_mem := (hs_mem s)(i := Free_slot (slot_base_value (hs_mem s i))) \<rparr>"

definition Handle_Delete :: "(nat \<Rightarrow> bool) \<Rightarrow> bool \<Rightarrow> nat \<Rightarrow> hstate \<Rightarrow> hstate option" where
  "Handle_Delete waitable map_ok i s =
     (case hs_mem s i of
        Free_slot v \<Rightarrow> None
      | Live_slot h \<Rightarrow>
          (let disp = hd_dispatcher h;
               s1 = (if waitable disp then hs_log (Ev_cancel disp i) s else s);
               s2 = TearDown i s1;
               (zero_handles, d) = decrement_handle_count (hs_objs s2 disp);
               s3 = s2\<lparr> hs_objs := (hs_objs s2)(disp := d) \<rparr>
           in case Arena_Free map_ok (IndexToHandle i) (hs_arena s3) of
                None \<Rightarrow> None
              | Some ar \<Rightarrow>
                  (let s4 = s3\<lparr> hs_arena := ar \<rparr>
                   in Some (if zero_handles then hs_log (Ev_zero_handles disp) s4 else s4))))"

definition FromU32 :: "32 word \<Rightarrow> hstate \<Rightarrow> nat option" where
  "FromU32 v s =
     (let i = unat (v AND kHandleIndexMask)
      in if \<not> Arena_in_range (IndexToHandle i) (hs_arena s) then None
         else if slot_base_value (hs_mem s i) = v then Some i else None)"

definition Handle_Count :: "nat \<Rightarrow> hstate \<Rightarrow> 32 word" where
  "Handle_Count obj s = obj_handle_count (hs_objs s obj)"

definition OutstandingHandles :: "hstate \<Rightarrow> nat" where
  "OutstandingHandles s = DiagnosticCount (hs_arena s)"

section \<open>Handle tables of processes\<close>

definition process_handle_rand :: "32 word \<Rightarrow> 32 word" where
  "process_handle_rand secret = push_bit 2 secret AND 0x7fffffff"

definition map_handle_to_value :: "handle \<Rightarrow> 32 word \<Rightarrow> zx_handle_t" where
  "map_handle_to_value h mixer = mixer XOR (push_bit 1 (hd_base_value h) OR 1)"

definition map_value_to_handle :: "zx_handle_t \<Rightarrow> 32 word \<Rightarrow> hstate \<Rightarrow> nat option" where
  "map_value_to_handle v mixer s = FromU32 (drop_bit 1 (v XOR mixer)) s"

definition MapHandleToValue :: "zx_koid_t \<Rightarrow> handle \<Rightarrow> hstate \<Rightarrow> zx_handle_t" where
  "MapHandleToValue pid h s = map_handle_to_value h (hp_handle_rand (hs_procs s pid))"

definition GetHandleLocked ::
  "zx_koid_t \<Rightarrow> zx_handle_t \<Rightarrow> bool \<Rightarrow> hstate \<Rightarrow> nat option \<times> hstate" where
  "GetHandleLocked pid v skip_policy s =
     (case map_value_to_handle v (hp_handle_rand (hs_procs s pid)) s of
        Some i \<Rightarrow>
          if slot_process_id (hs_mem s i) = pid then (Some i, s)
          else (None, if skip_policy then s else hs_log (Ev_policy_bad_handle pid) s)
      | None \<Rightarrow> (None, if skip_policy then s else hs_log (Ev_policy_bad_handle pid) s))"

definition set_handles :: "zx_koid_t \<Rightarrow> nat list \<Rightarrow> hstate \<Rightarrow> hstate" where
  "set_handles pid l s = s\<lparr> hs_procs := (hs_procs s)(pid := (hs_procs s pid)\<lparr> hp_handles := l \<rparr>) \<rparr>"

definition AddHandleLocked :: "zx_koid_t \<Rightarrow> nat \<Rightarrow> hstate \<Rightarrow> hstate" where
  "AddHandleLocked pid i s =
     (let s1 = set_process_id i pid s in set_handles pid (i # hp_handles (hs_procs s1 pid)) s1)"

definition RemoveHandleLocked :: "zx_koid_t \<Rightarrow> zx_handle_t \<Rightarrow> hstate \<Rightarrow> nat option \<times> hstate" where
  "RemoveHandleLocked pid v s =
     (case GetHandleLocked pid v False s of
        (None, s1) \<Rightarrow> (None, s1)
      | (Some i, s1) \<Rightarrow>
          (let s2 = set_process_id i ZX_KOID_INVALID s1
           in (Some i, set_handles pid (remove1 i (hp_handles (hs_procs s2 pid))) s2)))"

text \<open>
  One chunk of \<^verbatim>\<open>RemoveHandles\<close>: each handle that is found is deleted when its owner goes out of
  scope.
\<close>

primrec remove_chunk ::
  "(nat \<Rightarrow> bool) \<Rightarrow> (nat \<Rightarrow> bool) \<Rightarrow> zx_koid_t \<Rightarrow> zx_handle_t list \<Rightarrow> zx_status_t \<Rightarrow> hstate
   \<Rightarrow> (zx_status_t \<times> hstate) option" where
  "remove_chunk waitable map_ok pid [] status s = Some (status, s)"
| "remove_chunk waitable map_ok pid (v # vs) status s =
     (if v = ZX_HANDLE_INVALID then remove_chunk waitable map_ok pid vs status s
      else case RemoveHandleLocked pid v s of
             (None, s1) \<Rightarrow> remove_chunk waitable map_ok pid vs ZX_ERR_BAD_HANDLE s1
           | (Some i, s1) \<Rightarrow>
               (case Handle_Delete waitable (map_ok i) i s1 of
                  None \<Rightarrow> None
                | Some s2 \<Rightarrow> remove_chunk waitable map_ok pid vs status s2))"

text \<open>\<open>user offset n\<close>: the copy of \<open>n\<close> values from user memory, \<^const>\<open>None\<close> if it faults.\<close>

function remove_handles_loop ::
  "(nat \<Rightarrow> bool) \<Rightarrow> (nat \<Rightarrow> bool) \<Rightarrow> zx_koid_t \<Rightarrow> (nat \<Rightarrow> nat \<Rightarrow> zx_handle_t list option) \<Rightarrow> nat \<Rightarrow> nat
   \<Rightarrow> zx_status_t \<Rightarrow> hstate \<Rightarrow> (zx_status_t \<times> hstate) option" where
  "remove_handles_loop waitable map_ok pid user num_handles offset status s =
     (if offset < num_handles
      then (let chunk_size = min (num_handles - offset) kMaxMessageHandles
            in case user offset chunk_size of
                 None \<Rightarrow> Some (status, s)
               | Some vs \<Rightarrow>
                   (case remove_chunk waitable map_ok pid vs status s of
                      None \<Rightarrow> None
                    | Some (status', s') \<Rightarrow>
                        remove_handles_loop waitable map_ok pid user num_handles (offset + chunk_size) status' s'))
      else Some (status, s))"
  by pat_completeness auto
termination
  by (relation "measure (\<lambda>(_, _, _, _, n, k, _, _). n - k)") (auto simp: kMaxMessageHandles_def)

declare remove_handles_loop.simps [simp del]

definition RemoveHandles ::
  "(nat \<Rightarrow> bool) \<Rightarrow> (nat \<Rightarrow> bool) \<Rightarrow> zx_koid_t \<Rightarrow> (nat \<Rightarrow> nat \<Rightarrow> zx_handle_t list option) \<Rightarrow> nat
   \<Rightarrow> hstate \<Rightarrow> (zx_status_t \<times> hstate) option" where
  "RemoveHandles waitable map_ok pid user num_handles s =
     remove_handles_loop waitable map_ok pid user num_handles 0 ZX_OK s"

definition GetKoidForHandle :: "zx_koid_t \<Rightarrow> zx_handle_t \<Rightarrow> hstate \<Rightarrow> zx_koid_t \<times> hstate" where
  "GetKoidForHandle pid v s =
     (case GetHandleLocked pid v False s of
        (Some i, s1) \<Rightarrow>
          (case hs_mem s1 i of
             Live_slot h \<Rightarrow> (obj_koid (hs_objs s1 (hd_dispatcher h)), s1)
           | Free_slot w \<Rightarrow> (ZX_KOID_INVALID, s1))
      | (None, s1) \<Rightarrow> (ZX_KOID_INVALID, s1))"

definition GetDispatcherInternal ::
  "zx_koid_t \<Rightarrow> zx_handle_t \<Rightarrow> hstate \<Rightarrow> (zx_status_t + nat \<times> zx_rights_t) \<times> hstate" where
  "GetDispatcherInternal pid v s =
     (case GetHandleLocked pid v False s of
        (Some i, s1) \<Rightarrow>
          (case hs_mem s1 i of
             Live_slot h \<Rightarrow> (Inr (hd_dispatcher h, hd_rights h), s1)
           | Free_slot w \<Rightarrow> (Inl ZX_ERR_BAD_HANDLE, s1))
      | (None, s1) \<Rightarrow> (Inl ZX_ERR_BAD_HANDLE, s1))"

definition GetDispatcherWithRightsInternal ::
  "zx_koid_t \<Rightarrow> zx_handle_t \<Rightarrow> zx_rights_t \<Rightarrow> hstate \<Rightarrow> (zx_status_t + nat \<times> zx_rights_t) \<times> hstate" where
  "GetDispatcherWithRightsInternal pid v desired_rights s =
     (case GetHandleLocked pid v False s of
        (Some i, s1) \<Rightarrow>
          (case hs_mem s1 i of
             Live_slot h \<Rightarrow>
               if \<not> HasRights h desired_rights then (Inl ZX_ERR_ACCESS_DENIED, s1)
               else (Inr (hd_dispatcher h, hd_rights h), s1)
           | Free_slot w \<Rightarrow> (Inl ZX_ERR_BAD_HANDLE, s1))
      | (None, s1) \<Rightarrow> (Inl ZX_ERR_BAD_HANDLE, s1))"

definition IsHandleValid :: "zx_koid_t \<Rightarrow> zx_handle_t \<Rightarrow> hstate \<Rightarrow> bool \<times> hstate" where
  "IsHandleValid pid v s = (case GetHandleLocked pid v False s of (r, s1) \<Rightarrow> (r \<noteq> None, s1))"

definition IsHandleValidNoPolicyCheck :: "zx_koid_t \<Rightarrow> zx_handle_t \<Rightarrow> hstate \<Rightarrow> bool" where
  "IsHandleValidNoPolicyCheck pid v s = (fst (GetHandleLocked pid v True s) \<noteq> None)"

text \<open>The handle part of \<^verbatim>\<open>FinishDeadTransition\<close>.\<close>

primrec delete_all :: "(nat \<Rightarrow> bool) \<Rightarrow> (nat \<Rightarrow> bool) \<Rightarrow> nat list \<Rightarrow> hstate \<Rightarrow> hstate option" where
  "delete_all waitable map_ok [] s = Some s"
| "delete_all waitable map_ok (i # is) s =
     (case Handle_Delete waitable (map_ok i) i s of
        None \<Rightarrow> None
      | Some s1 \<Rightarrow> delete_all waitable map_ok is s1)"

definition clean_handle_table ::
  "(nat \<Rightarrow> bool) \<Rightarrow> (nat \<Rightarrow> bool) \<Rightarrow> zx_koid_t \<Rightarrow> hstate \<Rightarrow> hstate option" where
  "clean_handle_table waitable map_ok pid s =
     (let to_clean = hp_handles (hs_procs s pid);
          s1 = fold (\<lambda>i. set_process_id i ZX_KOID_INVALID) to_clean s
      in delete_all waitable map_ok to_clean (set_handles pid [] s1))"

section \<open>Base values\<close>

definition base_index :: "32 word \<Rightarrow> 32 word" where
  "base_index v = take_bit 18 v"

definition base_gen :: "32 word \<Rightarrow> 32 word" where
  "base_gen v = take_bit 12 (drop_bit 18 v)"

text \<open>A base value of slot \<open>i\<close>: the index in the low bits, the two top bits clear.\<close>

definition base_ok :: "nat \<Rightarrow> 32 word \<Rightarrow> bool" where
  "base_ok i v \<longleftrightarrow> base_index v = of_nat i \<and> take_bit 30 v = v"

lemma index_mask: "kHandleIndexMask = mask 18"
  by (simp add: kHandleIndexMask_def kMaxHandleCount_def mask_eq_exp_minus_1)

lemma and_index_mask: "v AND kHandleIndexMask = base_index v"
  by (simp add: index_mask base_index_def take_bit_eq_mask)

lemma generation_mask: "kHandleGenerationMask = push_bit 18 (mask 12)"
  by (simp add: kHandleGenerationMask_def kHandleIndexMask_def kMaxHandleCount_def mask_eq_exp_minus_1)

lemma gen_of_base: "drop_bit kHandleGenerationShift (v AND kHandleGenerationMask) = base_gen v"
  by (rule bit_word_eqI)
    (auto simp: kHandleGenerationShift_def generation_mask base_gen_def bit_simps)

lemma gen_field: "push_bit kHandleGenerationShift g AND kHandleGenerationMask = push_bit 18 (take_bit 12 g)"
  by (rule bit_word_eqI)
    (auto simp: kHandleGenerationShift_def generation_mask bit_simps)

lemma GetNewBaseValue_eq:
  "GetNewBaseValue addr v = of_nat (HandleToIndex addr) OR push_bit 18 (take_bit 12 (base_gen v + 1))"
proof -
  have "(if v \<noteq> 0 then base_gen v else 0) = base_gen v"
    by (simp add: base_gen_def)
  then show ?thesis
    unfolding GetNewBaseValue_def gen_of_base Let_def by (simp only: gen_field)
qed

lemma base_ok_parts:
  assumes "i < kMaxHandleCount"
  shows "base_ok i (of_nat i OR push_bit 18 (take_bit 12 g))"
    "base_gen (of_nat i OR push_bit 18 (take_bit 12 g)) = take_bit 12 g"
proof -
  have i: "take_bit 18 (of_nat i :: 32 word) = of_nat i"
    using assms by (simp add: take_bit_of_nat take_bit_nat_eq_self kMaxHandleCount_def)
  have "take_bit 18 i = i"
    using assms by (simp add: take_bit_nat_eq_self kMaxHandleCount_def)
  then have hi: "\<not> bit i n" if "18 \<le> n" for n
    using that by (metis bit_take_bit_iff linorder_not_less)
  show "base_gen (of_nat i OR push_bit 18 (take_bit 12 g)) = take_bit 12 g"
    by (rule bit_word_eqI) (auto simp: base_gen_def bit_simps hi)
  have "base_index (of_nat i OR push_bit 18 (take_bit 12 g)) = take_bit 18 (of_nat i)"
    by (rule bit_word_eqI) (auto simp: base_index_def bit_simps)
  moreover have "take_bit 30 (of_nat i OR push_bit 18 (take_bit 12 g)) = of_nat i OR push_bit 18 (take_bit 12 g)"
    by (rule bit_word_eqI) (auto simp: bit_simps hi)
  ultimately show "base_ok i (of_nat i OR push_bit 18 (take_bit 12 g))"
    using i by (simp add: base_ok_def)
qed

lemma base_ok_split:
  assumes "base_ok i v"
  shows "v = of_nat i OR push_bit 18 (base_gen v)"
proof -
  have t: "take_bit 30 v = v" and i: "take_bit 18 v = of_nat i"
    using assms by (simp_all add: base_ok_def base_index_def)
  have b: "n < 30" if "bit v n" for n
    using that t by (metis bit_take_bit_iff)
  have "v = take_bit 18 v OR push_bit 18 (base_gen v)"
    by (rule bit_word_eqI) (auto simp: base_gen_def bit_simps dest: b)
  then show ?thesis
    by (simp only: i)
qed

lemma GetNewBaseValue_ok:
  assumes "i < kMaxHandleCount"
  shows "base_ok i (GetNewBaseValue (IndexToHandle i) v)"
    "base_gen (GetNewBaseValue (IndexToHandle i) v) = take_bit 12 (base_gen v + 1)"
proof -
  have "HandleToIndex (IndexToHandle i) = i"
    by (simp add: HandleToIndex_def IndexToHandle_def sizeof_Handle_def)
  then show "base_ok i (GetNewBaseValue (IndexToHandle i) v)"
    "base_gen (GetNewBaseValue (IndexToHandle i) v) = take_bit 12 (base_gen v + 1)"
    using base_ok_parts [OF assms] by (simp_all add: GetNewBaseValue_eq)
qed

lemma unat_take_bit12: "unat (take_bit 12 (g :: 32 word)) = unat g mod 4096"
  by (simp only: unsigned_take_bit_eq) (simp add: take_bit_eq_mod)

lemma unat_gen_less: "unat (base_gen v) < 4096"
  unfolding base_gen_def unat_take_bit12 by (rule mod_less_divisor) simp

text \<open>The generation of a slot counts its allocations modulo 4096.\<close>

lemma generation_after:
  assumes "i < kMaxHandleCount"
  shows "unat (base_gen ((GetNewBaseValue (IndexToHandle i) ^^ k) v)) = (unat (base_gen v) + k) mod 4096"
proof (induction k)
  case 0
  show ?case
    using unat_gen_less [of v] by simp
next
  case (Suc k)
  let ?w = "(GetNewBaseValue (IndexToHandle i) ^^ k) v"
  have "unat (base_gen ?w + 1) = unat (base_gen ?w) + 1"
    using unat_gen_less [of ?w] by (simp add: unat_word_ariths)
  then show ?case
    using Suc GetNewBaseValue_ok(2) [OF assms, of ?w] by (simp add: unat_take_bit12 mod_Suc_eq)
qed

text \<open>
  The base value of a slot changes with every allocation of the slot, and comes back after
  a number of allocations exactly when that number is a multiple of 4096, the number of
  generations: a stale value is not accepted before.
\<close>

theorem base_value_recurs:
  assumes "i < kMaxHandleCount" "base_ok i v"
  shows "(GetNewBaseValue (IndexToHandle i) ^^ k) v = v \<longleftrightarrow> 4096 dvd k"
proof -
  let ?w = "(GetNewBaseValue (IndexToHandle i) ^^ k) v"
  have w: "base_ok i ?w"
    using assms GetNewBaseValue_ok(1) [OF assms(1)] by (cases k) simp_all
  have "?w = v \<longleftrightarrow> unat (base_gen ?w) = unat (base_gen v)"
    using base_ok_split [OF w] base_ok_split [OF assms(2)] by (metis word_unat_eq_iff)
  also have "\<dots> \<longleftrightarrow> (unat (base_gen v) + k) mod 4096 = unat (base_gen v) mod 4096"
    using generation_after [OF assms(1), of k v] unat_gen_less [of v] by simp
  also have "\<dots> \<longleftrightarrow> 4096 dvd k"
    by (metis add.commute add_diff_cancel_right' le_add2 mod_eq_dvd_iff_nat)
  finally show ?thesis .
qed

theorem base_value_recurs_witness:
  "(5::nat) < kMaxHandleCount \<and> (GetNewBaseValue (IndexToHandle 5) ^^ 8192) (GetNewBaseValue (IndexToHandle 5) 0)
    = GetNewBaseValue (IndexToHandle 5) 0"
proof -
  have i: "(5::nat) < kMaxHandleCount"
    by (simp add: kMaxHandleCount_def)
  show ?thesis
    using i base_value_recurs [OF i GetNewBaseValue_ok(1) [OF i, of 0], of 8192] by simp
qed

section \<open>Handle values\<close>

lemma base_bits: "base_ok i b \<Longrightarrow> bit b n \<Longrightarrow> n < 30"
  unfolding base_ok_def by (metis bit_take_bit_iff)

lemma halve_value:
  assumes "base_ok i b"
  shows "drop_bit 1 w = b \<longleftrightarrow> w = push_bit 1 b OR 1 \<or> w = push_bit 1 b"
proof
  assume d: "drop_bit 1 w = b"
  have "w = push_bit 1 (drop_bit 1 w) OR (w AND 1)"
    by (rule bit_word_eqI) (auto simp: bit_simps simp del: push_bit_Suc drop_bit_Suc One_nat_def)
  moreover have "w AND 1 = 0 \<or> w AND 1 = 1"
    by (simp add: and_one_eq mod_2_eq_odd)
  ultimately show "w = push_bit 1 b OR 1 \<or> w = push_bit 1 b"
    using d by (metis or.right_neutral)
next
  assume "w = push_bit 1 b OR 1 \<or> w = push_bit 1 b"
  then show "drop_bit 1 w = b"
  proof
    assume w: "w = push_bit 1 b OR 1"
    show ?thesis
      unfolding w by (rule bit_word_eqI) (auto simp: bit_simps simp del: push_bit_Suc drop_bit_Suc One_nat_def dest: base_bits [OF assms])
  next
    assume w: "w = push_bit 1 b"
    show ?thesis
      unfolding w by (rule bit_word_eqI) (auto simp: bit_simps simp del: push_bit_Suc drop_bit_Suc One_nat_def dest: base_bits [OF assms])
  qed
qed

lemma value_to_base:
  assumes "base_ok i (hd_base_value h)"
  shows "drop_bit 1 (v XOR m) = hd_base_value h \<longleftrightarrow>
    v = map_handle_to_value h m \<or> v = map_handle_to_value h m XOR 1"
proof -
  let ?b = "hd_base_value h"
  have "(push_bit 1 ?b OR 1) XOR 1 = push_bit 1 ?b"
    by (rule bit_word_eqI) (auto simp: bit_simps simp del: push_bit_Suc One_nat_def)
  then have x: "m XOR push_bit 1 ?b = map_handle_to_value h m XOR 1"
    unfolding map_handle_to_value_def by (simp only: xor.assoc)
  have "m XOR (v XOR m) = v" "(m XOR w) XOR m = w" for w
    by (rule bit_word_eqI, auto simp: bit_simps)+
  then have "v XOR m = w \<longleftrightarrow> v = m XOR w" for w
    by metis
  then show ?thesis
    unfolding halve_value [OF assms] x [symmetric] by (simp add: map_handle_to_value_def del: push_bit_Suc One_nat_def)
qed

text \<open>
  C35: A handle value that a process hands to user space is odd, hence never the invalid
  handle, and is positive as a signed number, whatever the random mixer of the process and
  whatever the handle.
\<close>

theorem handle_value_shape:
  assumes "base_ok i (hd_base_value h)"
  shows "odd (map_handle_to_value h (process_handle_rand secret)) \<and>
    map_handle_to_value h (process_handle_rand secret) \<noteq> ZX_HANDLE_INVALID \<and>
    0 < sint (map_handle_to_value h (process_handle_rand secret))"
proof -
  let ?v = "map_handle_to_value h (process_handle_rand secret)"
  have r: "\<not> bit (process_handle_rand secret) 0" "\<not> bit (process_handle_rand secret) 31"
    by (simp_all add: process_handle_rand_def bit_simps)
  have b0: "bit ?v 0"
    using r(1) by (simp add: map_handle_to_value_def bit_simps del: push_bit_Suc One_nat_def)
  have b31: "\<not> bit ?v 31"
    using r(2) base_bits [OF assms, of 30] by (auto simp: map_handle_to_value_def bit_simps simp del: push_bit_Suc One_nat_def)
  have nz: "?v \<noteq> 0"
    using b0 by auto
  have "0 \<le> sint ?v"
    using b31 by (simp add: sint_uint bit_uint_iff)
  moreover have "sint ?v \<noteq> 0"
    using nz by (simp add: signed_eq_0_iff)
  ultimately show ?thesis
    using b0 nz by (simp add: bit_0 ZX_HANDLE_INVALID_def)
qed

theorem handle_value_shape_witness:
  "odd (map_handle_to_value \<lparr> hd_process_id = 7, hd_dispatcher = 0, hd_rights = 0,
     hd_base_value = GetNewBaseValue (IndexToHandle 5) 0 \<rparr> (process_handle_rand 0xdeadbeef))"
proof -
  have "(5::nat) < kMaxHandleCount"
    by (simp add: kMaxHandleCount_def)
  then show ?thesis
    using handle_value_shape [of 5 "\<lparr> hd_process_id = 7, hd_dispatcher = 0, hd_rights = 0,
      hd_base_value = GetNewBaseValue (IndexToHandle 5) 0 \<rparr>" "0xdeadbeef"] GetNewBaseValue_ok(1) [of 5 0]
    by simp
qed

section \<open>The invariant of the handle table\<close>

definition live_refs :: "hstate \<Rightarrow> nat \<Rightarrow> nat set" where
  "live_refs s obj = {i. \<exists>h. hs_mem s i = Live_slot h \<and> hd_dispatcher h = obj}"

abbreviation handles_of :: "hstate \<Rightarrow> zx_koid_t \<Rightarrow> nat list" where
  "handles_of s pid \<equiv> hp_handles (hs_procs s pid)"

text \<open>A slot holds a handle exactly when the arena has handed it out, under a base value of its own.\<close>

definition slots_inv :: "hstate \<Rightarrow> bool" where
  "slots_inv s \<longleftrightarrow> arena_sizes sizeof_Handle kMaxHandleCount (hs_arena s) \<and>
     (\<forall>i. is_live (hs_mem s i) \<longleftrightarrow> outstanding (hs_arena s) (IndexToHandle i)) \<and>
     (\<forall>i h. hs_mem s i = Live_slot h \<longrightarrow> base_ok i (hd_base_value h)) \<and>
     (\<forall>i v. hs_mem s i = Free_slot v \<longrightarrow> v = 0 \<or> base_ok i v)"

text \<open>Objects count their handles; process lists hold live handles of that process, once.\<close>

definition counts_inv :: "hstate \<Rightarrow> bool" where
  "counts_inv s \<longleftrightarrow> (\<forall>obj. obj_handle_count (hs_objs s obj) = of_nat (card (live_refs s obj)))"

definition lists_inv :: "hstate \<Rightarrow> bool" where
  "lists_inv s \<longleftrightarrow> (\<forall>pid. distinct (handles_of s pid)) \<and>
     (\<forall>pid. \<forall>i\<in>set (handles_of s pid). \<exists>h. hs_mem s i = Live_slot h \<and> hd_process_id h = pid)"

definition hs_inv :: "hstate \<Rightarrow> bool" where
  "hs_inv s \<longleftrightarrow> slots_inv s \<and> counts_inv s \<and> lists_inv s"

text \<open>A handle held by a \<^verbatim>\<open>HandleOwner\<close>.\<close>

definition floating :: "hstate \<Rightarrow> nat \<Rightarrow> bool" where
  "floating s i \<longleftrightarrow> is_live (hs_mem s i) \<and> (\<forall>pid. i \<notin> set (handles_of s pid))"

lemma is_live_iff: "is_live x \<longleftrightarrow> (\<exists>h. x = Live_slot h)"
  by (cases x) auto

lemma handle_pool_sizes:
  "ROUNDUP (kMaxHandleCount * sizeof_Node) PAGE_SIZE = kMaxHandleCount * sizeof_Node"
  "ROUNDUP (kMaxHandleCount * sizeof_Handle) PAGE_SIZE = kMaxHandleCount * sizeof_Handle"
  by (simp_all add: ROUNDUP_def kMaxHandleCount_def sizeof_Node_def sizeof_Handle_def PAGE_SIZE_def)

lemma arena_handles_bound:
  assumes "arena_sizes sizeof_Handle kMaxHandleCount ar"
  shows "ar_count ar + length (ar_free ar) \<le> kMaxHandleCount" "pool_end (ar_control ar) = kMaxHandleCount * sizeof_Node"
    "pool_top (ar_data ar) \<le> kMaxHandleCount * sizeof_Handle"
proof -
  have s: "arena_inv ar" "slot_size ar = sizeof_Handle" "pool_end (ar_data ar) = kMaxHandleCount * sizeof_Handle"
    using assms by (simp_all add: arena_sizes_def handle_pool_sizes)
  show "pool_end (ar_control ar) = kMaxHandleCount * sizeof_Node"
    using assms by (simp add: arena_sizes_def handle_pool_sizes)
  show top: "pool_top (ar_data ar) \<le> kMaxHandleCount * sizeof_Handle"
    using s by (simp add: arena_inv_def pool_inv_def)
  have "sizeof_Handle * (ar_count ar + length (ar_free ar)) = pool_top (ar_data ar)"
    using s by (simp add: arena_inv_def)
  then show "ar_count ar + length (ar_free ar) \<le> kMaxHandleCount"
    using top by (simp add: sizeof_Handle_def)
qed

lemma outstanding_index:
  assumes "arena_sizes sizeof_Handle kMaxHandleCount ar" "outstanding ar a"
  shows "HandleToIndex a < kMaxHandleCount" "IndexToHandle (HandleToIndex a) = a"
proof -
  have a: "sizeof_Handle dvd a" "a < pool_top (ar_data ar)"
    using assms by (simp_all add: outstanding_def arena_sizes_def)
  show "IndexToHandle (HandleToIndex a) = a"
    using a(1) by (simp add: IndexToHandle_def HandleToIndex_def)
  show "HandleToIndex a < kMaxHandleCount"
    using a arena_handles_bound(3) [OF assms(1)]
    by (simp add: HandleToIndex_def sizeof_Handle_def less_mult_imp_div_less)
qed

lemma index_roundtrip [simp]: "HandleToIndex (IndexToHandle i) = i"
  by (simp add: HandleToIndex_def IndexToHandle_def sizeof_Handle_def)

lemma IndexToHandle_inj [simp]: "IndexToHandle i = IndexToHandle j \<longleftrightarrow> i = j"
  by (simp add: IndexToHandle_def sizeof_Handle_def)

lemma live_index: "slots_inv s \<Longrightarrow> is_live (hs_mem s i) \<Longrightarrow> i < kMaxHandleCount"
  using outstanding_index(1) [of "hs_arena s" "IndexToHandle i"] by (simp add: slots_inv_def)

lemma live_refs_bound: "slots_inv s \<Longrightarrow> live_refs s obj \<subseteq> {..<kMaxHandleCount}"
  using live_index [of s] by (fastforce simp: live_refs_def)

lemma live_refs_finite: "slots_inv s \<Longrightarrow> finite (live_refs s obj)"
  by (rule finite_subset [OF live_refs_bound]) simp_all

lemma live_refs_card: "slots_inv s \<Longrightarrow> card (live_refs s obj) \<le> kMaxHandleCount"
  using card_mono [OF _ live_refs_bound, of s obj] by simp

subsection \<open>Making handles\<close>

lemma Handle_Alloc_cases:
  assumes inv: "slots_inv s"
  obtains
    (none) "Handle_Alloc map_ok obj s = Some (None, s)"
  | (ok) i ar where
      "Handle_Alloc map_ok obj s = Some (Some (i, GetNewBaseValue (IndexToHandle i) (stashed (hs_mem s i))),
         s\<lparr> hs_arena := ar, hs_objs := (hs_objs s)(obj := increment_handle_count (hs_objs s obj)) \<rparr>)"
      "i < kMaxHandleCount" "\<not> is_live (hs_mem s i)" "arena_sizes sizeof_Handle kMaxHandleCount ar"
      "\<And>j. outstanding ar (IndexToHandle j) \<longleftrightarrow> outstanding (hs_arena s) (IndexToHandle j) \<or> j = i"
proof -
  have sz: "arena_sizes sizeof_Handle kMaxHandleCount (hs_arena s)"
    using inv by (simp add: slots_inv_def)
  then have ai: "arena_inv (hs_arena s)"
    by (simp add: arena_sizes_def)
  show ?thesis
  proof (cases rule: Arena_Alloc_cases [OF ai, where map_ok = map_ok])
    case 1
    then show ?thesis
      by (intro none) (simp add: Handle_Alloc_def)
  next
    case ok': (2 a ar)
    have sz': "arena_sizes sizeof_Handle kMaxHandleCount ar"
      using sz ok'(2,6-8) by (simp add: arena_sizes_def)
    have oa: "outstanding ar a"
      using ok'(4) by simp
    note ix = outstanding_index [OF sz' oa]
    have ha: "Handle_Alloc map_ok obj s = Some (Some (HandleToIndex a, GetNewBaseValue (IndexToHandle (HandleToIndex a))
        (stashed (hs_mem s (HandleToIndex a)))),
        s\<lparr> hs_arena := ar, hs_objs := (hs_objs s)(obj := increment_handle_count (hs_objs s obj)) \<rparr>)"
      using ok'(1) ix(2) by (simp add: Handle_Alloc_def)
    have nl: "\<not> is_live (hs_mem s (HandleToIndex a))"
      using inv ok'(3) ix(2) by (simp add: slots_inv_def)
    have o: "outstanding ar (IndexToHandle j) \<longleftrightarrow> outstanding (hs_arena s) (IndexToHandle j) \<or> j = HandleToIndex a" for j
      using ok'(4) ix(2) by (metis IndexToHandle_inj)
    show ?thesis
      by (rule ok [OF ha ix(1) nl sz' o])
  qed
qed

text \<open>A handle placed in a slot just allocated.\<close>

lemma install_inv:
  assumes inv: "hs_inv s" and i: "i < kMaxHandleCount" "\<not> is_live (hs_mem s i)"
    and ar: "arena_sizes sizeof_Handle kMaxHandleCount ar"
      "\<And>j. outstanding ar (IndexToHandle j) \<longleftrightarrow> outstanding (hs_arena s) (IndexToHandle j) \<or> j = i"
    and h: "base_ok i (hd_base_value h)" "hd_dispatcher h = obj"
  defines "s' \<equiv> s\<lparr> hs_arena := ar, hs_objs := (hs_objs s)(obj := increment_handle_count (hs_objs s obj)),
    hs_mem := (hs_mem s)(i := Live_slot h) \<rparr>"
  shows "hs_inv s'" "floating s' i"
proof -
  have lists: "i \<notin> set (handles_of s pid)" for pid
    using inv i(2) unfolding hs_inv_def lists_inv_def is_live_iff by metis
  have si: "slots_inv s'"
    using inv ar h(1) by (auto simp: hs_inv_def slots_inv_def s'_def)
  have "live_refs s' q = (if q = obj then insert i (live_refs s q) else live_refs s q)" for q
    using h(2) i(2) by (auto simp: live_refs_def s'_def)
  moreover have "i \<notin> live_refs s obj"
    using i(2) by (auto simp: live_refs_def)
  moreover have "finite (live_refs s obj)"
    using inv by (simp add: hs_inv_def live_refs_finite)
  ultimately have "counts_inv s'"
    using inv by (simp add: hs_inv_def counts_inv_def s'_def increment_handle_count_def)
  moreover have "lists_inv s'"
    using inv lists by (auto simp: hs_inv_def lists_inv_def s'_def)
  ultimately show "hs_inv s'"
    using si by (simp add: hs_inv_def)
  show "floating s' i"
    using lists by (simp add: floating_def s'_def)
qed

lemma Make_inv:
  assumes "hs_inv s" "Handle_Make map_ok obj rights s = Some (r, s')"
  shows "hs_inv s'" "r = Some i \<Longrightarrow> floating s' i"
proof -
  have si: "slots_inv s"
    using assms(1) by (simp add: hs_inv_def)
  have "hs_inv s' \<and> (\<forall>i. r = Some i \<longrightarrow> floating s' i)"
  proof (cases rule: Handle_Alloc_cases [OF si, where map_ok = map_ok and obj = obj])
    case 1
    then show ?thesis
      using assms by (simp add: Handle_Make_def)
  next
    case (2 j ar)
    let ?h = "\<lparr> hd_process_id = 0, hd_dispatcher = obj, hd_rights = rights,
      hd_base_value = GetNewBaseValue (IndexToHandle j) (stashed (hs_mem s j)) \<rparr>"
    have "base_ok j (hd_base_value ?h)"
      using GetNewBaseValue_ok(1) [OF 2(2)] by simp
    from install_inv [OF assms(1) 2(2-5) this, of obj] show ?thesis
      using assms(2) 2(1) by (auto simp: Handle_Make_def)
  qed
  then show "hs_inv s'" "r = Some i \<Longrightarrow> floating s' i"
    by simp_all
qed

lemma Dup_inv:
  assumes "hs_inv s" "Handle_Dup map_ok source rights s = Some (r, s')"
  shows "hs_inv s'" "r = Some i \<Longrightarrow> floating s' i"
proof -
  have si: "slots_inv s"
    using assms(1) by (simp add: hs_inv_def)
  have "hs_inv s' \<and> (\<forall>i. r = Some i \<longrightarrow> floating s' i)"
  proof (cases rule: Handle_Alloc_cases [OF si, where map_ok = map_ok and obj = "hd_dispatcher source"])
    case 1
    then show ?thesis
      using assms by (simp add: Handle_Dup_def)
  next
    case (2 j ar)
    let ?h = "\<lparr> hd_process_id = hd_process_id source, hd_dispatcher = hd_dispatcher source, hd_rights = rights,
      hd_base_value = GetNewBaseValue (IndexToHandle j) (stashed (hs_mem s j)) \<rparr>"
    have "base_ok j (hd_base_value ?h)"
      using GetNewBaseValue_ok(1) [OF 2(2)] by simp
    from install_inv [OF assms(1) 2(2-5) this, of "hd_dispatcher source"] show ?thesis
      using assms(2) 2(1) by (auto simp: Handle_Dup_def)
  qed
  then show "hs_inv s'" "r = Some i \<Longrightarrow> floating s' i"
    by simp_all
qed

subsection \<open>Looking up, adding and removing\<close>

lemma hs_log_simps [simp]:
  "hs_arena (hs_log e s) = hs_arena s" "hs_mem (hs_log e s) = hs_mem s"
  "hs_objs (hs_log e s) = hs_objs s" "hs_procs (hs_log e s) = hs_procs s"
  "hs_events (hs_log e s) = hs_events s @ [e]"
  by (simp_all add: hs_log_def)

lemma hs_inv_cong:
  assumes "hs_arena s' = hs_arena s" "hs_mem s' = hs_mem s" "hs_objs s' = hs_objs s" "hs_procs s' = hs_procs s"
  shows "hs_inv s' = hs_inv s" "floating s' i = floating s i"
  using assms
  by (simp_all add: hs_inv_def slots_inv_def counts_inv_def lists_inv_def live_refs_def floating_def)

lemma hs_inv_log [simp]: "hs_inv (hs_log e s) = hs_inv s"
  by (rule hs_inv_cong) simp_all

text \<open>Changing the owner of a handle and its process lists along with it.\<close>

lemma set_process_id_simps [simp]:
  "hs_arena (set_process_id i pid s) = hs_arena s" "hs_objs (set_process_id i pid s) = hs_objs s"
  "hs_procs (set_process_id i pid s) = hs_procs s"
  by (simp_all add: set_process_id_def split: hslot.splits)

lemma set_handles_simps [simp]:
  "hs_arena (set_handles pid l s) = hs_arena s" "hs_objs (set_handles pid l s) = hs_objs s"
  "hs_mem (set_handles pid l s) = hs_mem s" "hs_events (set_handles pid l s) = hs_events s"
  "handles_of (set_handles pid l s) q = (if q = pid then l else handles_of s q)"
  "hp_handle_rand (hs_procs (set_handles pid l s) q) = hp_handle_rand (hs_procs s q)"
  by (simp_all add: set_handles_def)

lemma set_process_id_mem:
  "hs_mem s i = Live_slot h \<Longrightarrow>
    hs_mem (set_process_id i pid s) = (hs_mem s)(i := Live_slot (h\<lparr> hd_process_id := pid \<rparr>))"
  by (simp add: set_process_id_def)

lemma reown_inv:
  assumes inv: "hs_inv s" and h: "hs_mem s i = Live_slot h"
    and mem: "hs_mem s' = (hs_mem s)(i := Live_slot (h\<lparr> hd_process_id := pid \<rparr>))"
    and same: "hs_arena s' = hs_arena s" "hs_objs s' = hs_objs s"
    and lists: "\<And>q. distinct (handles_of s' q)" "\<And>q. i \<in> set (handles_of s' q) \<Longrightarrow> q = pid"
      "\<And>q. set (handles_of s' q) \<subseteq> insert i (set (handles_of s q))"
  shows "hs_inv s'"
proof -
  have "live_refs s' = live_refs s"
    using h by (auto simp: live_refs_def mem fun_eq_iff)
  moreover have "slots_inv s'"
    using inv h unfolding hs_inv_def slots_inv_def same mem by auto
  moreover have "lists_inv s'"
    unfolding lists_inv_def
  proof (intro conjI allI ballI)
    fix q j
    assume j: "j \<in> set (handles_of s' q)"
    show "\<exists>h. hs_mem s' j = Live_slot h \<and> hd_process_id h = q"
    proof (cases "j = i")
      case True
      then show ?thesis
        using lists(2) j mem by simp
    next
      case False
      then show ?thesis
        using lists(3) [of q] j inv unfolding hs_inv_def lists_inv_def mem by auto
    qed
  qed (rule lists(1))
  ultimately show ?thesis
    using inv same by (simp add: hs_inv_def counts_inv_def)
qed

lemma AddHandleLocked_inv:
  assumes "hs_inv s" "floating s i"
  shows "hs_inv (AddHandleLocked pid i s)"
proof -
  obtain h where h: "hs_mem s i = Live_slot h"
    using assms(2) by (auto simp: floating_def is_live_iff)
  have d: "distinct (handles_of s q)" "i \<notin> set (handles_of s q)" for q
    using assms by (simp_all add: hs_inv_def lists_inv_def floating_def)
  show ?thesis
    using d by (intro reown_inv [OF assms(1) h, where pid = pid])
      (auto simp: AddHandleLocked_def Let_def set_process_id_mem [OF h] split: if_splits)
qed

text \<open>The exact condition for a lookup to succeed.\<close>

lemma FromU32_live:
  assumes inv: "slots_inv s"
  shows "FromU32 v s = Some i \<and> is_live (hs_mem s i) \<longleftrightarrow> (\<exists>h. hs_mem s i = Live_slot h \<and> hd_base_value h = v)"
proof
  assume "FromU32 v s = Some i \<and> is_live (hs_mem s i)"
  then show "\<exists>h. hs_mem s i = Live_slot h \<and> hd_base_value h = v"
    by (auto simp: FromU32_def Let_def is_live_iff split: if_splits)
next
  assume "\<exists>h. hs_mem s i = Live_slot h \<and> hd_base_value h = v"
  then obtain h where h: "hs_mem s i = Live_slot h" "hd_base_value h = v"
    by blast
  have ok: "base_ok i v" and out: "outstanding (hs_arena s) (IndexToHandle i)"
    using inv h by (auto simp: slots_inv_def)
  have lt: "i < kMaxHandleCount"
    using live_index [OF inv] h(1) by simp
  have "unat (v AND kHandleIndexMask) = i"
    using ok lt by (simp add: and_index_mask base_ok_def unat_of_nat kMaxHandleCount_def)
  then show "FromU32 v s = Some i \<and> is_live (hs_mem s i)"
    using h out by (simp add: FromU32_def Arena_in_range_def Pool_InRange_def outstanding_def)
qed

lemma GetHandleLocked_iff:
  assumes inv: "slots_inv s" and pid: "pid \<noteq> 0"
  shows "fst (GetHandleLocked pid v skip s) = Some i \<longleftrightarrow>
    (\<exists>h. hs_mem s i = Live_slot h \<and> hd_process_id h = pid \<and>
      (v = MapHandleToValue pid h s \<or> v = MapHandleToValue pid h s XOR 1))"
proof -
  let ?w = "drop_bit 1 (v XOR hp_handle_rand (hs_procs s pid))"
  have "fst (GetHandleLocked pid v skip s) = Some i \<longleftrightarrow>
    FromU32 ?w s = Some i \<and> slot_process_id (hs_mem s i) = pid"
    by (auto simp: GetHandleLocked_def map_value_to_handle_def split: option.splits)
  also have "\<dots> \<longleftrightarrow> FromU32 ?w s = Some i \<and> is_live (hs_mem s i) \<and> slot_process_id (hs_mem s i) = pid"
    using pid by (cases "hs_mem s i") auto
  also have "\<dots> \<longleftrightarrow> (\<exists>h. hs_mem s i = Live_slot h \<and> hd_process_id h = pid \<and> ?w = hd_base_value h)"
    using FromU32_live [OF inv, of ?w i] by fastforce
  also have "\<dots> \<longleftrightarrow> (\<exists>h. hs_mem s i = Live_slot h \<and> hd_process_id h = pid \<and>
      (v = MapHandleToValue pid h s \<or> v = MapHandleToValue pid h s XOR 1))"
    using value_to_base inv unfolding slots_inv_def MapHandleToValue_def by blast
  finally show ?thesis .
qed

lemma GetHandleLocked_frame:
  assumes "GetHandleLocked pid v skip s = (r, s')"
  shows "hs_arena s' = hs_arena s" "hs_mem s' = hs_mem s" "hs_objs s' = hs_objs s" "hs_procs s' = hs_procs s"
    "r \<noteq> None \<Longrightarrow> s' = s"
  using assms by (auto simp: GetHandleLocked_def split: option.splits if_splits)

lemma RemoveHandleLocked_inv:
  assumes inv: "hs_inv s" and pid: "pid \<noteq> 0" and r: "RemoveHandleLocked pid v s = (r, s')"
  shows "hs_inv s'" "r = Some i \<Longrightarrow> floating s' i"
proof -
  obtain q s1 where g: "GetHandleLocked pid v False s = (q, s1)"
    by fastforce
  note fr = GetHandleLocked_frame [OF g]
  have si: "slots_inv s"
    using inv by (simp add: hs_inv_def)
  have "hs_inv s' \<and> (\<forall>i. r = Some i \<longrightarrow> floating s' i)"
  proof (cases q)
    case None
    then show ?thesis
      using r g inv hs_inv_cong(1) [OF fr(1-4)] by (simp add: RemoveHandleLocked_def)
  next
    case (Some i)
    have s1: "s1 = s"
      using fr(5) Some by simp
    have "fst (GetHandleLocked pid v False s) = Some i"
      using g Some by simp
    then obtain h where h: "hs_mem s i = Live_slot h" "hd_process_id h = pid"
      unfolding GetHandleLocked_iff [OF si pid] by blast
    have s': "s' = set_handles pid (remove1 i (handles_of s pid)) (set_process_id i 0 s)" and ri: "r = Some i"
      using r g Some s1 by (simp_all add: RemoveHandleLocked_def ZX_KOID_INVALID_def)
    have d: "distinct (handles_of s q)" for q
      using inv by (simp add: hs_inv_def lists_inv_def)
    have only: "i \<notin> set (handles_of s q)" if "q \<noteq> pid" for q
      using that h inv unfolding hs_inv_def lists_inv_def by fastforce
    have ni: "i \<notin> set (handles_of s' q)" for q
      using d [of pid] only [of q] by (simp add: s')
    have "hs_inv s'"
      using d ni set_remove1_subset [of i "handles_of s pid"]
      by (intro reown_inv [OF inv h(1), where pid = 0]) (auto simp: s' set_process_id_mem [OF h(1)])
    moreover have "floating s' i"
      using ni by (simp add: floating_def s' set_process_id_mem [OF h(1)])
    ultimately show ?thesis
      using ri by simp
  qed
  then show "hs_inv s'" "r = Some i \<Longrightarrow> floating s' i"
    by simp_all
qed

subsection \<open>Deleting\<close>

definition delete_events :: "(nat \<Rightarrow> bool) \<Rightarrow> nat \<Rightarrow> nat \<Rightarrow> hstate \<Rightarrow> hevent list" where
  "delete_events waitable obj i s =
     (if waitable obj then [Ev_cancel obj i] else []) @
     (if live_refs s obj = {i} then [Ev_zero_handles obj] else [])"

lemma last_handle:
  assumes inv: "hs_inv s" and i: "i \<in> live_refs s obj"
  shows "obj_handle_count (hs_objs s obj) - 1 = 0 \<longleftrightarrow> live_refs s obj = {i}"
    "obj_handle_count (hs_objs s obj) - 1 = of_nat (card (live_refs s obj - {i}))"
proof -
  have si: "slots_inv s" and c: "obj_handle_count (hs_objs s obj) = of_nat (card (live_refs s obj))"
    using inv by (simp_all add: hs_inv_def counts_inv_def)
  have fin: "finite (live_refs s obj)"
    by (rule live_refs_finite [OF si])
  have card: "card (live_refs s obj) = Suc (card (live_refs s obj - {i}))"
    using card.remove [OF fin i] by simp
  then show eq: "obj_handle_count (hs_objs s obj) - 1 = of_nat (card (live_refs s obj - {i}))"
    using c by simp
  have "card (live_refs s obj - {i}) < 2 ^ 32"
    using live_refs_card [OF si, of obj] card by (simp add: kMaxHandleCount_def)
  then have "(of_nat (card (live_refs s obj - {i})) :: 32 word) = 0 \<longleftrightarrow> card (live_refs s obj - {i}) = 0"
    by (simp add: word_unat_eq_iff unat_of_nat)
  also have "\<dots> \<longleftrightarrow> live_refs s obj = {i}"
    using fin i by (subst card_0_eq) auto
  finally show "obj_handle_count (hs_objs s obj) - 1 = 0 \<longleftrightarrow> live_refs s obj = {i}"
    unfolding eq .
qed

lemma Delete_eq:
  assumes "hs_inv s" "hs_mem s i = Live_slot h"
  shows "Handle_Delete waitable map_ok i s =
    (case Arena_Free map_ok (IndexToHandle i) (hs_arena s) of
       None \<Rightarrow> None
     | Some ar \<Rightarrow> Some (s\<lparr> hs_arena := ar, hs_mem := (hs_mem s)(i := Free_slot (hd_base_value h)),
         hs_objs := (hs_objs s)(hd_dispatcher h := (hs_objs s (hd_dispatcher h))\<lparr>
           obj_handle_count := obj_handle_count (hs_objs s (hd_dispatcher h)) - 1 \<rparr>),
         hs_events := hs_events s @ delete_events waitable (hd_dispatcher h) i s \<rparr>))"
proof -
  have "i \<in> live_refs s (hd_dispatcher h)"
    using assms(2) by (simp add: live_refs_def)
  note z = last_handle(1) [OF assms(1) this]
  show ?thesis
    using assms(2) z
    by (simp add: Handle_Delete_def TearDown_def decrement_handle_count_def delete_events_def hs_log_def Let_def
        split: option.splits)
qed

lemma Delete_cases:
  assumes inv: "hs_inv s" and fl: "floating s i" and h: "hs_mem s i = Live_slot h"
  obtains (fault) "Handle_Delete waitable map_ok i s = None" "\<not> map_ok"
  | (ok) s' where "Handle_Delete waitable map_ok i s = Some s'" "hs_inv s'"
      "hs_mem s' = (hs_mem s)(i := Free_slot (hd_base_value h))" "hs_procs s' = hs_procs s"
      "hs_events s' = hs_events s @ delete_events waitable (hd_dispatcher h) i s"
proof -
  let ?o = "hd_dispatcher h"
  have si: "slots_inv s" and sz: "arena_sizes sizeof_Handle kMaxHandleCount (hs_arena s)"
    using inv by (simp_all add: hs_inv_def slots_inv_def)
  have ai: "arena_inv (hs_arena s)"
    using sz by (simp add: arena_sizes_def)
  have out: "outstanding (hs_arena s) (IndexToHandle i)" and bok: "base_ok i (hd_base_value h)"
    using si h by (auto simp: slots_inv_def)
  show ?thesis
  proof (cases rule: Arena_Free_cases [OF ai out, where map_ok = map_ok])
    case 1
    have "0 < ar_count (hs_arena s)"
      using outstanding_card [OF ai] out by (metis card_gt_0_iff empty_iff mem_Collect_eq)
    then have "sizeof_Node * (length (ar_free (hs_arena s)) + 1) \<le> pool_end (ar_control (hs_arena s))"
      using arena_handles_bound(1,2) [OF sz] by (simp add: sizeof_Node_def)
    then show ?thesis
      using 1 by (intro fault) (simp_all add: Delete_eq [OF inv h])
  next
    case (2 ar)
    define s' where "s' = s\<lparr> hs_arena := ar, hs_mem := (hs_mem s)(i := Free_slot (hd_base_value h)),
      hs_objs := (hs_objs s)(?o := (hs_objs s ?o)\<lparr> obj_handle_count := obj_handle_count (hs_objs s ?o) - 1 \<rparr>),
      hs_events := hs_events s @ delete_events waitable ?o i s \<rparr>"
    have "arena_sizes sizeof_Handle kMaxHandleCount ar"
      using sz 2(2,5-7) by (simp add: arena_sizes_def)
    then have "slots_inv s'"
      using si 2(3) bok by (auto simp: slots_inv_def s'_def)
    moreover have "live_refs s' q = (if q = ?o then live_refs s q - {i} else live_refs s q)" for q
      using h by (auto simp: live_refs_def s'_def)
    then have "counts_inv s'"
      using inv last_handle(2) [OF inv, of i ?o] h
      by (simp add: hs_inv_def counts_inv_def s'_def) (simp add: live_refs_def)
    moreover have "lists_inv s'"
      using inv fl unfolding hs_inv_def lists_inv_def floating_def s'_def by auto
    ultimately have "hs_inv s'"
      by (simp add: hs_inv_def)
    moreover have "Handle_Delete waitable map_ok i s = Some s'"
      using 2(1) by (simp add: Delete_eq [OF inv h] s'_def)
    ultimately show ?thesis
      by (intro ok [of s']) (simp_all add: s'_def)
  qed
qed

lemma Delete_inv:
  assumes "hs_inv s" "floating s i" "Handle_Delete waitable map_ok i s = Some s'"
  shows "hs_inv s'"
proof -
  obtain h where h: "hs_mem s i = Live_slot h"
    using assms(2) by (auto simp: floating_def is_live_iff)
  show ?thesis
    using assms(3)
    by (cases rule: Delete_cases [OF assms(1,2) h, where waitable = waitable and map_ok = map_ok]) auto
qed

lemma remove_chunk_inv:
  assumes "hs_inv s" "pid \<noteq> 0" "remove_chunk waitable map_ok pid vs status s = Some (st, s')"
  shows "hs_inv s'"
  using assms(1,3)
proof (induction vs arbitrary: status s)
  case (Cons v vs)
  obtain r s1 where r: "RemoveHandleLocked pid v s = (r, s1)"
    by fastforce
  note ri = RemoveHandleLocked_inv [OF Cons.prems(1) assms(2) r]
  show ?case
  proof (cases r)
    case None
    then show ?thesis
      using Cons r ri(1) by (auto split: if_splits)
  next
    case (Some i)
    show ?thesis
    proof (cases "v = ZX_HANDLE_INVALID")
      case True
      then show ?thesis
        using Cons by simp
    next
      case False
      then obtain s2 where d: "Handle_Delete waitable (map_ok i) i s1 = Some s2"
        and rest: "remove_chunk waitable map_ok pid vs status s2 = Some (st, s')"
        using Cons.prems(2) r Some by (auto split: option.splits)
      show ?thesis
        by (rule Cons.IH [OF Delete_inv [OF ri(1) ri(2) [OF Some] d] rest])
    qed
  qed
qed simp

lemma remove_handles_loop_inv:
  "hs_inv s \<Longrightarrow> pid \<noteq> 0 \<Longrightarrow> remove_handles_loop waitable map_ok pid user num_handles offset status s = Some (st, s')
    \<Longrightarrow> hs_inv s'"
proof (induction waitable map_ok pid user num_handles offset status s rule: remove_handles_loop.induct)
  case (1 waitable map_ok pid user num_handles offset status s)
  let ?n = "min (num_handles - offset) kMaxMessageHandles"
  show ?case
  proof (cases "offset < num_handles \<and> user offset ?n \<noteq> None")
    case False
    then have "s' = s"
      using 1(4) by (subst (asm) remove_handles_loop.simps) (auto simp: Let_def split: if_splits)
    then show ?thesis
      using 1(2) by simp
  next
    case True
    then obtain vs where lt: "offset < num_handles" and vs: "user offset ?n = Some vs"
      by blast
    obtain st1 s1 where rc: "remove_chunk waitable map_ok pid vs status s = Some (st1, s1)"
      and rest: "remove_handles_loop waitable map_ok pid user num_handles (offset + ?n) st1 s1 = Some (st, s')"
      using 1(4) lt vs by (subst (asm) remove_handles_loop.simps) (auto simp: Let_def split: option.splits)
    show ?thesis
      using 1(1) [OF lt refl vs rc refl remove_chunk_inv [OF 1(2,3) rc] 1(3) rest] .
  qed
qed

lemma delete_all_inv:
  assumes "hs_inv s" "distinct is" "\<forall>i\<in>set is. floating s i" "delete_all waitable map_ok is s = Some s'"
  shows "hs_inv s' \<and> (\<forall>i. hs_mem s' i = (if i \<in> set is then Free_slot (slot_base_value (hs_mem s i)) else hs_mem s i)) \<and>
    hs_procs s' = hs_procs s"
  using assms
proof (induction "is" arbitrary: s)
  case (Cons i "is")
  have fi: "floating s i"
    using Cons.prems(3) by simp
  then obtain h where h: "hs_mem s i = Live_slot h"
    by (auto simp: floating_def is_live_iff)
  show ?case
  proof (cases rule: Delete_cases [OF Cons.prems(1) fi h, where waitable = waitable and map_ok = "map_ok i"])
    case 1
    then show ?thesis
      using Cons.prems(4) by simp
  next
    case (2 s1)
    have "\<forall>j\<in>set is. floating s1 j"
      using Cons.prems(2,3) 2(3,4) by (auto simp: floating_def)
    then have "hs_inv s' \<and> (\<forall>j. hs_mem s' j = (if j \<in> set is then Free_slot (slot_base_value (hs_mem s1 j)) else hs_mem s1 j)) \<and>
      hs_procs s' = hs_procs s1"
      using Cons.IH [OF 2(2)] Cons.prems(2,4) 2(1) by simp
    then show ?thesis
      using 2(3,4) h Cons.prems(2) by auto
  qed
qed simp

subsection \<open>A process dies\<close>

lemma disown_all:
  assumes "\<forall>i\<in>set is. is_live (hs_mem s i)" "distinct is"
  defines "s' \<equiv> fold (\<lambda>i. set_process_id i ZX_KOID_INVALID) is s"
  shows "hs_arena s' = hs_arena s \<and> hs_objs s' = hs_objs s \<and> hs_procs s' = hs_procs s \<and>
    (\<forall>i. hs_mem s' i = (case hs_mem s i of
        Live_slot h \<Rightarrow> if i \<in> set is then Live_slot (h\<lparr> hd_process_id := 0 \<rparr>) else hs_mem s i
      | Free_slot v \<Rightarrow> hs_mem s i))"
  using assms(1,2) unfolding s'_def
proof (induction "is" arbitrary: s)
  case (Cons i "is")
  obtain h where h: "hs_mem s i = Live_slot h"
    using Cons.prems(1) by (auto simp: is_live_iff)
  let ?s1 = "set_process_id i ZX_KOID_INVALID s"
  have m: "hs_mem ?s1 = (hs_mem s)(i := Live_slot (h\<lparr> hd_process_id := 0 \<rparr>))"
    using set_process_id_mem [OF h] by (simp add: ZX_KOID_INVALID_def)
  have "\<forall>j\<in>set is. is_live (hs_mem ?s1 j)" "distinct is" "i \<notin> set is"
    using Cons.prems m by auto
  with Cons.IH [OF this(1,2)] show ?case
    using m h by (simp split: hslot.splits)
qed (simp split: hslot.splits)

definition disowned :: "zx_koid_t \<Rightarrow> hstate \<Rightarrow> hstate" where
  "disowned pid s = set_handles pid [] (fold (\<lambda>i. set_process_id i ZX_KOID_INVALID) (handles_of s pid) s)"

lemma lists_own: "lists_inv s \<Longrightarrow> i \<in> set (handles_of s q) \<Longrightarrow> \<exists>h. hs_mem s i = Live_slot h \<and> hd_process_id h = q"
  unfolding lists_inv_def by blast

lemma disowned_parts:
  assumes "lists_inv s"
  shows "hs_arena (disowned pid s) = hs_arena s" "hs_objs (disowned pid s) = hs_objs s"
    "handles_of (disowned pid s) q = (if q = pid then [] else handles_of s q)"
    "hp_handle_rand (hs_procs (disowned pid s) q) = hp_handle_rand (hs_procs s q)"
    "hs_mem (disowned pid s) i = (case hs_mem s i of
        Live_slot h \<Rightarrow> if i \<in> set (handles_of s pid) then Live_slot (h\<lparr> hd_process_id := 0 \<rparr>) else hs_mem s i
      | Free_slot v \<Rightarrow> hs_mem s i)"
proof -
  have "\<forall>i\<in>set (handles_of s pid). is_live (hs_mem s i)"
    using lists_own [OF assms] by (fastforce simp: is_live_iff)
  moreover have "distinct (handles_of s pid)"
    using assms by (simp add: lists_inv_def)
  ultimately show "hs_arena (disowned pid s) = hs_arena s" "hs_objs (disowned pid s) = hs_objs s"
    "handles_of (disowned pid s) q = (if q = pid then [] else handles_of s q)"
    "hp_handle_rand (hs_procs (disowned pid s) q) = hp_handle_rand (hs_procs s q)"
    "hs_mem (disowned pid s) i = (case hs_mem s i of
        Live_slot h \<Rightarrow> if i \<in> set (handles_of s pid) then Live_slot (h\<lparr> hd_process_id := 0 \<rparr>) else hs_mem s i
      | Free_slot v \<Rightarrow> hs_mem s i)"
    using disown_all [of "handles_of s pid" s] by (simp_all add: disowned_def)
qed

lemma disowned_inv:
  assumes inv: "hs_inv s"
  shows "hs_inv (disowned pid s)" "\<forall>i\<in>set (handles_of s pid). floating (disowned pid s) i"
proof -
  let ?s = "disowned pid s"
  have li: "lists_inv s" and si: "slots_inv s" and ci: "counts_inv s"
    using inv by (simp_all add: hs_inv_def)
  note p = disowned_parts [OF li, where pid = pid]
  have only: "q = pid" if "i \<in> set (handles_of s pid)" "i \<in> set (handles_of s q)" for i q
    using lists_own [OF li that(1)] lists_own [OF li that(2)] by auto
  have dist: "distinct (handles_of ?s q)" for q
    using li unfolding p(3) by (simp add: lists_inv_def)
  have free: "hs_mem ?s i = Free_slot v \<longleftrightarrow> hs_mem s i = Free_slot v" for i v
    using p(5) [of i] by (cases "hs_mem s i") auto
  have same: "\<exists>g. hs_mem s i = Live_slot g \<and> hd_base_value g = hd_base_value h \<and> hd_dispatcher g = hd_dispatcher h"
    if "hs_mem ?s i = Live_slot h" for i h
    using p(5) [of i] that by (cases "hs_mem s i") (auto split: if_splits)
  have "is_live (hs_mem ?s i) = is_live (hs_mem s i)" for i
    using p(5) [of i] by (cases "hs_mem s i") auto
  moreover have "\<forall>i h. hs_mem ?s i = Live_slot h \<longrightarrow> base_ok i (hd_base_value h)"
    using si same unfolding slots_inv_def by metis
  ultimately have "slots_inv ?s"
    using si free unfolding slots_inv_def p(1) by simp
  moreover have "\<exists>h. hs_mem ?s i = Live_slot h \<and> hd_dispatcher h = hd_dispatcher g" if "hs_mem s i = Live_slot g" for i g
    using p(5) [of i] that by auto
  then have "live_refs ?s obj = live_refs s obj" for obj
    unfolding live_refs_def using same by blast
  then have "counts_inv ?s"
    using ci by (simp add: counts_inv_def p(2))
  moreover have "\<exists>h. hs_mem ?s i = Live_slot h \<and> hd_process_id h = q" if asm: "i \<in> set (handles_of ?s q)" for i q
  proof -
    have q: "q \<noteq> pid" "i \<in> set (handles_of s q)"
      using asm by (simp_all add: p(3) split: if_splits)
    then have "i \<notin> set (handles_of s pid)"
      using only by blast
    then show ?thesis
      using lists_own [OF li q(2)] p(5) [of i] by auto
  qed
  then have "lists_inv ?s"
    unfolding lists_inv_def using dist by blast
  ultimately show "hs_inv ?s"
    by (simp add: hs_inv_def)
  show "\<forall>i\<in>set (handles_of s pid). floating ?s i"
  proof
    fix i
    assume i: "i \<in> set (handles_of s pid)"
    then obtain h where "hs_mem s i = Live_slot h"
      using lists_own [OF li] by blast
    then have "is_live (hs_mem ?s i)"
      using i p(5) [of i] by simp
    moreover have "i \<notin> set (handles_of ?s q)" for q
      using only [OF i, of q] by (simp add: p(3)) blast
    ultimately show "floating ?s i"
      by (simp add: floating_def)
  qed
qed

lemma clean_inv:
  assumes inv: "hs_inv s" and c: "clean_handle_table waitable map_ok pid s = Some s'"
  shows "hs_inv s'" "handles_of s' pid = []"
    "hs_mem s' i = (if i \<in> set (handles_of s pid) then Free_slot (slot_base_value (hs_mem s i)) else hs_mem s i)"
    "hp_handle_rand (hs_procs s' q) = hp_handle_rand (hs_procs s q)"
proof -
  have li: "lists_inv s"
    using inv by (simp add: hs_inv_def)
  note p = disowned_parts [OF li, where pid = pid]
  have d: "distinct (handles_of s pid)"
    using li by (simp add: lists_inv_def)
  have "delete_all waitable map_ok (handles_of s pid) (disowned pid s) = Some s'"
    using c by (simp add: clean_handle_table_def Let_def disowned_def)
  note del = delete_all_inv [OF disowned_inv(1) [OF inv] d disowned_inv(2) [OF inv] this]
  then show "hs_inv s'" "handles_of s' pid = []" "hp_handle_rand (hs_procs s' q) = hp_handle_rand (hs_procs s q)"
    using p(3,4) by simp_all
  show "hs_mem s' i = (if i \<in> set (handles_of s pid) then Free_slot (slot_base_value (hs_mem s i)) else hs_mem s i)"
    using del p(5) [of i] by (simp split: hslot.splits)
qed

section \<open>Reachable handle tables\<close>

definition hs_start :: "arena \<Rightarrow> (zx_koid_t \<Rightarrow> 32 word) \<Rightarrow> (nat \<Rightarrow> zx_koid_t) \<Rightarrow> hstate" where
  "hs_start ar secrets koids =
     \<lparr> hs_arena = ar, hs_mem = (\<lambda>_. Free_slot 0), hs_objs = (\<lambda>obj. new_dispatcher (koids obj) 0),
       hs_procs = (\<lambda>pid. \<lparr> hp_handle_rand = process_handle_rand (secrets pid), hp_handles = [] \<rparr>),
       hs_events = [] \<rparr>"

inductive hs_reach :: "hstate \<Rightarrow> bool" where
  hs_init: "Handle_Init vmo_status vmar_ok control_ok data_ok = Inr ar \<Longrightarrow> hs_reach (hs_start ar secrets koids)"
| hs_make: "hs_reach s \<Longrightarrow> Handle_Make map_ok obj rights s = Some (r, s') \<Longrightarrow> hs_reach s'"
| hs_dup: "hs_reach s \<Longrightarrow> hs_mem s i = Live_slot h \<Longrightarrow> Handle_Dup map_ok h rights s = Some (r, s') \<Longrightarrow> hs_reach s'"
| hs_delete: "hs_reach s \<Longrightarrow> floating s i \<Longrightarrow> Handle_Delete waitable map_ok i s = Some s' \<Longrightarrow> hs_reach s'"
| hs_add: "hs_reach s \<Longrightarrow> floating s i \<Longrightarrow> pid \<noteq> 0 \<Longrightarrow> hs_reach (AddHandleLocked pid i s)"
| hs_lookup: "hs_reach s \<Longrightarrow> GetHandleLocked pid v skip s = (r, s') \<Longrightarrow> hs_reach s'"
| hs_remove: "hs_reach s \<Longrightarrow> pid \<noteq> 0 \<Longrightarrow> RemoveHandleLocked pid v s = (r, s') \<Longrightarrow> hs_reach s'"
| hs_remove_many: "hs_reach s \<Longrightarrow> pid \<noteq> 0 \<Longrightarrow> RemoveHandles waitable map_oks pid user n s = Some (st, s') \<Longrightarrow> hs_reach s'"
| hs_die: "hs_reach s \<Longrightarrow> clean_handle_table waitable map_oks pid s = Some s' \<Longrightarrow> hs_reach s'"

lemma hs_start_inv:
  assumes "Handle_Init vmo_status vmar_ok control_ok data_ok = Inr ar"
  shows "hs_inv (hs_start ar secrets koids)"
proof -
  note i = Arena_Init_inv [OF assms [unfolded Handle_Init_def]]
  have "live_refs (hs_start ar secrets koids) obj = {}" for obj
    by (simp add: live_refs_def hs_start_def)
  then show ?thesis
    using i by (simp add: hs_inv_def slots_inv_def counts_inv_def lists_inv_def arena_sizes_def hs_start_def new_dispatcher_def)
qed

lemma hs_reach_inv: "hs_reach s \<Longrightarrow> hs_inv s"
proof (induction rule: hs_reach.induct)
  case (hs_lookup s pid v skip r s')
  then show ?case
    using hs_inv_cong(1) [OF GetHandleLocked_frame(1-4) [OF hs_lookup(2)]] by simp
next
  case (hs_remove_many s pid waitable map_oks user n st s')
  then show ?case
    by (auto simp: RemoveHandles_def intro: remove_handles_loop_inv)
qed (blast intro: hs_start_inv Make_inv(1) Dup_inv(1) Delete_inv AddHandleLocked_inv RemoveHandleLocked_inv(1) clean_inv(1))+

section \<open>A run on concrete values\<close>

definition hw_arena :: "nat \<Rightarrow> arena" where
  "hw_arena n = \<lparr> ar_free = [], ar_control = Pool_Init (kMaxHandleCount * sizeof_Node) sizeof_Node,
     ar_data = (Pool_Init (kMaxHandleCount * sizeof_Handle) sizeof_Handle)\<lparr> pool_top := n * sizeof_Handle,
       pool_committed := n * kPoolCommitIncrease, pool_committed_max := n * kPoolCommitIncrease \<rparr>, ar_count = n \<rparr>"

definition hw_start :: hstate where
  "hw_start = hs_start (hw_arena 0) (\<lambda>_. 0) of_nat"

definition hw_handle :: handle where
  "hw_handle = \<lparr> hd_process_id = 0, hd_dispatcher = 3, hd_rights = 6, hd_base_value = 0x40000 \<rparr>"

definition hw_made :: hstate where
  "hw_made = hw_start\<lparr> hs_arena := hw_arena 1,
     hs_objs := (hs_objs hw_start)(3 := increment_handle_count (hs_objs hw_start 3)),
     hs_mem := (hs_mem hw_start)(0 := Live_slot hw_handle) \<rparr>"

lemma hw_init: "Handle_Init ZX_OK True True True = Inr (hw_arena 0)"
  by (simp add: Handle_Init_def Arena_Init_def handle_pool_sizes hw_arena_def Pool_Init_def Let_def)
    (simp add: sizeof_Handle_def kMaxHandleCount_def PAGE_SIZE_def)

lemma hw_make: "Handle_Make True 3 6 hw_start = Some (Some 0, hw_made)"
proof -
  have "Arena_Alloc True (hw_arena 0) = Some (Some 0, hw_arena 1)"
    by (simp add: Arena_Alloc_def hw_arena_def Pool_Pop_def Pool_Init_def sizeof_Handle_def kMaxHandleCount_def
        kPoolCommitIncrease_def PAGE_SIZE_def)
  moreover have "GetNewBaseValue 0 0 = 0x40000"
    by (simp add: GetNewBaseValue_eq base_gen_def HandleToIndex_def)
  ultimately show ?thesis
    by (simp add: Handle_Make_def Handle_Alloc_def hw_start_def hs_start_def hw_made_def hw_handle_def HandleToIndex_def)
qed

lemma hw_made_reach: "hs_reach hw_made"
  unfolding hw_start_def by (rule hs_make [OF hs_init [OF hw_init] hw_make [unfolded hw_start_def]])

lemma hw_made_mem: "hs_mem hw_made i = (if i = 0 then Live_slot hw_handle else Free_slot 0)"
  by (simp add: hw_made_def hw_start_def hs_start_def)

lemma hw_made_handles: "handles_of hw_made pid = []"
  by (simp add: hw_made_def hw_start_def hs_start_def)

lemma hw_floating: "floating hw_made 0"
  by (simp add: floating_def hw_made_mem hw_made_handles)

section \<open>Properties\<close>

text \<open>
  C11: In every reachable handle table the handle count of each object is the number of its live
  handles, the arena's count is the number of all live handles, every entry of a process's list is
  a live handle of that process and occurs once, and no two live handles have the same base value.
\<close>

theorem handle_table_consistent:
  assumes "hs_reach s"
  shows "(\<forall>obj. unat (Handle_Count obj s) = card (live_refs s obj)) \<and>
    OutstandingHandles s = card {i. is_live (hs_mem s i)} \<and>
    (\<forall>pid. distinct (handles_of s pid) \<and>
      (\<forall>i\<in>set (handles_of s pid). \<exists>h. hs_mem s i = Live_slot h \<and> hd_process_id h = pid)) \<and>
    (\<forall>i j g h. hs_mem s i = Live_slot g \<and> hs_mem s j = Live_slot h \<and> hd_base_value g = hd_base_value h \<longrightarrow> i = j)"
proof (intro conjI allI impI)
  have inv: "hs_inv s"
    by (rule hs_reach_inv [OF assms])
  then have si: "slots_inv s"
    by (simp add: hs_inv_def)
  show "unat (Handle_Count obj s) = card (live_refs s obj)" for obj
    using inv live_refs_card [OF si, of obj]
    by (simp add: Handle_Count_def hs_inv_def counts_inv_def unat_of_nat kMaxHandleCount_def)
  have ai: "arena_inv (hs_arena s)" "arena_sizes sizeof_Handle kMaxHandleCount (hs_arena s)"
    using si by (simp_all add: slots_inv_def arena_sizes_def)
  have "Collect (outstanding (hs_arena s)) = IndexToHandle ` {i. is_live (hs_mem s i)}"
    using si outstanding_index(2) [OF ai(2)] by (auto simp: slots_inv_def image_iff) metis
  then show "OutstandingHandles s = card {i. is_live (hs_mem s i)}"
    using outstanding_card(2) [OF ai(1)]
    by (simp add: OutstandingHandles_def DiagnosticCount_def card_image inj_on_def)
  show "distinct (handles_of s pid)" for pid
    using inv by (simp add: hs_inv_def lists_inv_def)
  show "\<forall>i\<in>set (handles_of s pid). \<exists>h. hs_mem s i = Live_slot h \<and> hd_process_id h = pid" for pid
    using inv by (simp add: hs_inv_def lists_inv_def)
  show "i = j" if "hs_mem s i = Live_slot g \<and> hs_mem s j = Live_slot h \<and> hd_base_value g = hd_base_value h" for i j g h
    using that FromU32_live [OF si, of "hd_base_value g" i] FromU32_live [OF si, of "hd_base_value g" j] by auto
qed

theorem handle_table_consistent_witness:
  "hs_reach hw_made \<and> unat (Handle_Count 3 hw_made) = card (live_refs hw_made 3)"
  using handle_table_consistent [OF hw_made_reach] hw_made_reach by blast

text \<open>
  C1: The gate every system call goes through.  A process gets at an object exactly through a
  live handle that the process owns, under that handle's value (whose lowest bit is ignored), and
  with rights that include the desired ones; the value of a handle that another process owns, or
  of a handle that is gone, gives BAD_HANDLE, and missing rights give ACCESS_DENIED.
\<close>

theorem handle_lookup_exact:
  assumes "hs_reach s" "pid \<noteq> 0"
  shows "(case fst (GetDispatcherWithRightsInternal pid v desired s) of
      Inr (obj, rights) \<Rightarrow> \<exists>i h. hs_mem s i = Live_slot h \<and> hd_process_id h = pid \<and>
        (v = MapHandleToValue pid h s \<or> v = MapHandleToValue pid h s XOR 1) \<and>
        hd_rights h AND desired = desired \<and> obj = hd_dispatcher h \<and> rights = hd_rights h
    | Inl e \<Rightarrow> (if \<exists>i h. hs_mem s i = Live_slot h \<and> hd_process_id h = pid \<and>
          (v = MapHandleToValue pid h s \<or> v = MapHandleToValue pid h s XOR 1)
        then e = ZX_ERR_ACCESS_DENIED \<and> (\<exists>i h. hs_mem s i = Live_slot h \<and> hd_process_id h = pid \<and>
          (v = MapHandleToValue pid h s \<or> v = MapHandleToValue pid h s XOR 1) \<and> hd_rights h AND desired \<noteq> desired)
        else e = ZX_ERR_BAD_HANDLE))"
proof -
  have si: "slots_inv s"
    using hs_reach_inv [OF assms(1)] by (simp add: hs_inv_def)
  note iff = GetHandleLocked_iff [OF si assms(2), where v = v and skip = False]
  obtain q s1 where g: "GetHandleLocked pid v False s = (q, s1)"
    by fastforce
  show ?thesis
  proof (cases q)
    case None
    then show ?thesis
      using g iff by (auto simp: GetDispatcherWithRightsInternal_def)
  next
    case (Some i)
    then obtain h where h: "hs_mem s i = Live_slot h" "hd_process_id h = pid"
      "v = MapHandleToValue pid h s \<or> v = MapHandleToValue pid h s XOR 1"
      using g iff [of i] by auto
    have "s1 = s"
      using GetHandleLocked_frame(5) [OF g] Some by simp
    then show ?thesis
      using g Some h by (auto simp: GetDispatcherWithRightsInternal_def HasRights_def)
  qed
qed

theorem handle_lookup_exact_witness:
  "(1030 :: zx_koid_t) \<noteq> 0 \<and> (case fst (GetDispatcherWithRightsInternal 1030 1 0 hw_made) of Inl e \<Rightarrow> e = ZX_ERR_BAD_HANDLE | Inr _ \<Rightarrow> False)"
proof -
  have "(1030 :: zx_koid_t) \<noteq> 0"
    by simp
  note x = handle_lookup_exact [OF hw_made_reach this, where v = 1 and desired = 0]
  have no: "\<not> (\<exists>i h. hs_mem hw_made i = Live_slot h \<and> hd_process_id h = (1030 :: zx_koid_t))"
    by (auto simp: hw_made_mem hw_handle_def split: if_splits)
  show ?thesis
    using x no by (cases "fst (GetDispatcherWithRightsInternal 1030 1 0 hw_made)") (auto split: if_splits)
qed

text \<open>
  A handle added to a process is found there under its value; removing it under that value
  gives it back to its owner, restores the process's list, and the value is not found any more.
\<close>

theorem handle_add_remove_roundtrip:
  assumes s: "hs_reach s" and i: "floating s i" "hs_mem s i = Live_slot h" and pid: "pid \<noteq> 0"
  shows "fst (GetHandleLocked pid (MapHandleToValue pid h s) skip (AddHandleLocked pid i s)) = Some i \<and>
    (\<exists>s'. RemoveHandleLocked pid (MapHandleToValue pid h s) (AddHandleLocked pid i s) = (Some i, s') \<and>
      floating s' i \<and> handles_of s' pid = handles_of s pid \<and>
      fst (GetHandleLocked pid (MapHandleToValue pid h s) skip s') = None)"
proof -
  let ?v = "MapHandleToValue pid h s" and ?s1 = "AddHandleLocked pid i s"
  have r1: "hs_reach ?s1"
    by (rule hs_add [OF s i(1) pid])
  then have inv1: "hs_inv ?s1" and si1: "slots_inv ?s1"
    using hs_reach_inv by (auto simp: hs_inv_def)
  have m1: "hs_mem ?s1 i = Live_slot (h\<lparr> hd_process_id := pid \<rparr>)"
    by (simp add: AddHandleLocked_def Let_def set_process_id_mem [OF i(2)])
  have l1: "handles_of ?s1 pid = i # handles_of s pid"
    by (simp add: AddHandleLocked_def Let_def)
  have rand: "hp_handle_rand (hs_procs ?s1 pid) = hp_handle_rand (hs_procs s pid)"
    by (simp add: AddHandleLocked_def Let_def)
  then have v1: "MapHandleToValue pid (h\<lparr> hd_process_id := pid \<rparr>) ?s1 = ?v"
    by (simp add: MapHandleToValue_def map_handle_to_value_def)
  have get: "fst (GetHandleLocked pid ?v skip ?s1) = Some i" for skip
    unfolding GetHandleLocked_iff [OF si1 pid] using m1 v1 by auto
  obtain q s2 where rm: "RemoveHandleLocked pid ?v ?s1 = (q, s2)"
    by fastforce
  obtain t where "GetHandleLocked pid ?v False ?s1 = (Some i, t)" "t = ?s1"
    using get [of False] GetHandleLocked_frame(5) [of pid ?v False ?s1] by (cases "GetHandleLocked pid ?v False ?s1") auto
  then have q: "q = Some i" and s2: "s2 = set_handles pid (remove1 i (handles_of ?s1 pid)) (set_process_id i 0 ?s1)"
    using rm by (simp_all add: RemoveHandleLocked_def ZX_KOID_INVALID_def)
  have inv2: "slots_inv s2"
    using RemoveHandleLocked_inv(1) [OF inv1 pid rm] by (simp add: hs_inv_def)
  have m2: "hs_mem s2 = (hs_mem ?s1)(i := Live_slot (h\<lparr> hd_process_id := 0 \<rparr>))"
    by (simp add: s2 set_process_id_mem [OF m1])
  have "fst (GetHandleLocked pid ?v skip s2) \<noteq> Some j" for j
  proof
    assume a: "fst (GetHandleLocked pid ?v skip s2) = Some j"
    then obtain g where g: "hs_mem s2 j = Live_slot g" "hd_process_id g = pid"
      "?v = MapHandleToValue pid g s2 \<or> ?v = MapHandleToValue pid g s2 XOR 1"
      unfolding GetHandleLocked_iff [OF inv2 pid] by blast
    then have ji: "j \<noteq> i"
      using m2 pid by auto
    have "MapHandleToValue pid g s2 = MapHandleToValue pid g ?s1"
      by (simp add: MapHandleToValue_def s2)
    then have "fst (GetHandleLocked pid ?v skip ?s1) = Some j"
      unfolding GetHandleLocked_iff [OF si1 pid] using g m2 ji by auto
    then show False
      using get [of skip] ji by simp
  qed
  then have "fst (GetHandleLocked pid ?v skip s2) = None"
    by (cases "fst (GetHandleLocked pid ?v skip s2)") auto
  moreover have "handles_of s2 pid = handles_of s pid"
    by (simp add: s2 l1)
  ultimately show ?thesis
    using get rm q RemoveHandleLocked_inv(2) [OF inv1 pid rm q] by auto
qed

theorem handle_add_remove_roundtrip_witness:
  "fst (GetHandleLocked 1030 (MapHandleToValue 1030 hw_handle hw_made) True (AddHandleLocked 1030 0 hw_made)) = Some 0"
proof -
  have "hs_mem hw_made 0 = Live_slot hw_handle" "(1030 :: zx_koid_t) \<noteq> 0"
    by (simp_all add: hw_made_mem)
  from handle_add_remove_roundtrip [OF hw_made_reach hw_floating this, where skip = True] show ?thesis
    by blast
qed

text \<open>
  C25: Deleting a handle succeeds whenever the page of its free list node can be committed.  A
  waitable object is told to cancel, and the object learns that it has no handles exactly when this
  was its last live one; the slot keeps the base value for its next user, no other slot changes,
  and no process finds a handle under the old value.
\<close>

theorem handle_delete_exact:
  assumes s: "hs_reach s" and i: "floating s i" "hs_mem s i = Live_slot h"
  shows "\<exists>s'. Handle_Delete waitable True i s = Some s' \<and>
    hs_events s' = hs_events s @ (if waitable (hd_dispatcher h) then [Ev_cancel (hd_dispatcher h) i] else []) @
      (if live_refs s (hd_dispatcher h) = {i} then [Ev_zero_handles (hd_dispatcher h)] else []) \<and>
    hs_mem s' = (hs_mem s)(i := Free_slot (hd_base_value h)) \<and>
    (\<forall>pid skip. pid \<noteq> 0 \<longrightarrow> fst (GetHandleLocked pid (MapHandleToValue pid h s) skip s') = None)"
proof (cases rule: Delete_cases [OF hs_reach_inv [OF s] i, where waitable = waitable and map_ok = True])
  case 1
  then show ?thesis
    by simp
next
  case (2 s')
  have inv: "slots_inv s" "slots_inv s'"
    using hs_reach_inv [OF s] 2(2) by (simp_all add: hs_inv_def)
  have "fst (GetHandleLocked pid (MapHandleToValue pid h s) skip s') \<noteq> Some j" if pid: "pid \<noteq> 0" for pid skip j
  proof
    assume "fst (GetHandleLocked pid (MapHandleToValue pid h s) skip s') = Some j"
    then obtain g where g: "hs_mem s' j = Live_slot g"
      "MapHandleToValue pid h s = MapHandleToValue pid g s' \<or> MapHandleToValue pid h s = MapHandleToValue pid g s' XOR 1"
      unfolding GetHandleLocked_iff [OF inv(2) pid] by blast
    have ji: "j \<noteq> i" and gj: "hs_mem s j = Live_slot g"
      using g(1) 2(3) by (auto split: if_splits)
    let ?m = "hp_handle_rand (hs_procs s pid)"
    have ok: "base_ok j (hd_base_value g)" "base_ok i (hd_base_value h)"
      using inv(1) gj i(2) by (auto simp: slots_inv_def)
    have "drop_bit 1 (MapHandleToValue pid h s XOR ?m) = hd_base_value g"
      using g(2) 2(4) value_to_base [OF ok(1), of "MapHandleToValue pid h s" ?m] by (simp add: MapHandleToValue_def)
    moreover have "drop_bit 1 (MapHandleToValue pid h s XOR ?m) = hd_base_value h"
      using value_to_base [OF ok(2), of "MapHandleToValue pid h s" ?m] by (simp add: MapHandleToValue_def)
    ultimately have "hd_base_value g = hd_base_value h"
      by simp
    then show False
      using FromU32_live [OF inv(1), of "hd_base_value h" i] FromU32_live [OF inv(1), of "hd_base_value h" j] gj i(2) ji
      by auto
  qed
  then have "\<forall>pid skip. pid \<noteq> 0 \<longrightarrow> fst (GetHandleLocked pid (MapHandleToValue pid h s) skip s') = None"
    by (metis option.exhaust)
  then show ?thesis
    using 2 by (simp add: delete_events_def)
qed

theorem handle_delete_exact_witness:
  "\<exists>s'. Handle_Delete (\<lambda>_. True) True 0 hw_made = Some s' \<and> hs_events s' = [Ev_cancel 3 0, Ev_zero_handles 3]"
proof -
  have m: "hs_mem hw_made 0 = Live_slot hw_handle"
    by (simp add: hw_made_mem)
  have "live_refs hw_made 3 = {0}" "hs_events hw_made = []"
    by (auto simp: live_refs_def hw_made_mem hw_handle_def hw_made_def hw_start_def hs_start_def split: if_splits)
  then show ?thesis
    using handle_delete_exact [OF hw_made_reach hw_floating m, of "\<lambda>_. True"] by (auto simp: hw_handle_def)
qed

lemma delete_all_total:
  assumes "hs_inv s" "distinct is" "\<forall>i\<in>set is. floating s i"
  shows "\<exists>s'. delete_all waitable (\<lambda>_. True) is s = Some s'"
  using assms
proof (induction "is" arbitrary: s)
  case (Cons i "is")
  have fi: "floating s i"
    using Cons.prems(3) by simp
  then obtain h where h: "hs_mem s i = Live_slot h"
    by (auto simp: floating_def is_live_iff)
  show ?case
  proof (cases rule: Delete_cases [OF Cons.prems(1) fi h, where waitable = waitable and map_ok = True])
    case 1
    then show ?thesis
      by simp
  next
    case (2 s1)
    have "\<forall>j\<in>set is. floating s1 j"
      using Cons.prems(2,3) 2(3,4) by (auto simp: floating_def)
    then show ?thesis
      using Cons.IH [OF 2(2)] Cons.prems(2) 2(1) by simp
  qed
qed simp

text \<open>
  When a process dies its handle table is emptied: cleaning up returns if the pages of the
  free list nodes can be committed, deletes every handle of its list and touches no other slot.
\<close>

theorem process_death_empties_table:
  assumes "hs_reach s"
  shows "\<exists>s'. clean_handle_table waitable (\<lambda>_. True) pid s = Some s' \<and> handles_of s' pid = [] \<and>
    (\<forall>i. hs_mem s' i = (if i \<in> set (handles_of s pid) then Free_slot (slot_base_value (hs_mem s i)) else hs_mem s i))"
proof -
  have inv: "hs_inv s"
    by (rule hs_reach_inv [OF assms])
  have "distinct (handles_of s pid)"
    using inv by (simp add: hs_inv_def lists_inv_def)
  from delete_all_total [OF disowned_inv(1) [OF inv] this disowned_inv(2) [OF inv], of waitable]
  obtain s' where c: "clean_handle_table waitable (\<lambda>_. True) pid s = Some s'"
    by (auto simp: clean_handle_table_def disowned_def Let_def)
  show ?thesis
    using c clean_inv(2,3) [OF inv c] by blast
qed

theorem process_death_empties_table_witness:
  "\<exists>s'. clean_handle_table (\<lambda>_. False) (\<lambda>_. True) 1030 hw_made = Some s' \<and> handles_of s' 1030 = []"
  using process_death_empties_table [OF hw_made_reach, of "\<lambda>_. False" 1030] by blast

text \<open>
  Removing an array of handles whose first chunk cannot be read from user memory reports
  success and removes nothing.
\<close>

theorem RemoveHandles_unreadable_ok:
  assumes "0 < num_handles" "user 0 (min num_handles kMaxMessageHandles) = None"
  shows "RemoveHandles waitable map_ok pid user num_handles s = Some (ZX_OK, s)"
  using assms unfolding RemoveHandles_def by (subst remove_handles_loop.simps) (simp add: Let_def)

theorem RemoveHandles_unreadable_ok_witness:
  "RemoveHandles (\<lambda>_. True) (\<lambda>_. True) 1030 (\<lambda>_ _. None) 2 hw_made = Some (ZX_OK, hw_made)"
  using RemoveHandles_unreadable_ok [of 2 "\<lambda>_ _. None"] by simp

end
