(* ===== verification/ChannelCalls.thy ===== *)
theory ChannelCalls
  imports Channel HandleTable
begin

text \<open>
  The channel system calls of \<^verbatim>\<open>kernel/syscalls/channel.cpp\<close>: \<open>zx_channel_write\<close>, the body shared by
  \<open>zx_channel_read\<close> and \<open>zx_channel_read_etc\<close>, and the two entry points of \<open>zx_channel_call\<close>. They join the
  channel dispatchers of \<open>Channel\<close> with the handle tables of \<open>HandleTable\<close>: a message carries handles from the
  table of one process to that of another. The theory holds the definitions, what a process finds under its handle
  values, and two properties: a message moves its handles to the reader, and a write consumes its handles however
  it ends.
\<close>

section \<open>State\<close>

record kernel_state =
  ks_handles :: hstate
  ks_channels :: chan_state

text \<open>
  What the system calls find around them: which objects can be waited for, whether the
  arena can commit the page of a free-list node, and which objects are channel endpoints.
\<close>

record call_env =
  ce_waitable :: "nat \<Rightarrow> bool"
  ce_map_ok :: "nat \<Rightarrow> bool"
  ce_endpoint :: "nat \<Rightarrow> chan_ref option"

definition ZX_RIGHT_TRANSFER :: zx_rights_t where
  [const_defs]: "ZX_RIGHT_TRANSFER = push_bit 1 1"

definition ZX_RIGHT_READ :: zx_rights_t where
  [const_defs]: "ZX_RIGHT_READ = push_bit 2 1"

definition ZX_RIGHT_WRITE :: zx_rights_t where
  [const_defs]: "ZX_RIGHT_WRITE = push_bit 3 1"

definition ZX_CHANNEL_READ_MAY_DISCARD :: "32 word" where
  [const_defs]: "ZX_CHANNEL_READ_MAY_DISCARD = 1"

text \<open>
  The calls that the handle table makes on objects (\<^verbatim>\<open>set_owner\<close>,
  \<^verbatim>\<open>on_zero_handles\<close>), carried out on the channels among them, in order.
\<close>

fun channel_event :: "call_env \<Rightarrow> hevent \<Rightarrow> chan_state \<Rightarrow> chan_state" where
  "channel_event env (Ev_zero_handles obj) c =
     (case ce_endpoint env obj of None \<Rightarrow> c | Some r \<Rightarrow> chan_close (fst r) (snd r) c)"
| "channel_event env (Ev_set_owner obj pid) c =
     (case ce_endpoint env obj of None \<Rightarrow> c | Some r \<Rightarrow> channel_set_owner r pid c)"
| "channel_event env _ c = c"

definition settle :: "call_env \<Rightarrow> hstate \<Rightarrow> chan_state \<Rightarrow> kernel_state" where
  "settle env h c =
     \<lparr>ks_handles = h\<lparr>hs_events := []\<rparr>, ks_channels = fold (channel_event env) (hs_events h) c\<rparr>"

section \<open>Handles in and out of packets\<close>

text \<open>
  A packet that goes out of scope: its handles are deleted if it owns them. \<^const>\<open>None\<close> is the
  fault of the arena.
\<close>

definition destroy_packet :: "call_env \<Rightarrow> message_packet \<Rightarrow> kernel_state \<Rightarrow> kernel_state option" where
  "destroy_packet env msg ks =
     (case delete_all (ce_waitable env) (ce_map_ok env) (fst (MessagePacket_recycle msg)) (ks_handles ks) of
        None \<Rightarrow> None
      | Some h \<Rightarrow> Some (settle env h (ks_channels ks)))"

text \<open>\<^verbatim>\<open>ProcessDispatcher::GetDispatcherWithRights<ChannelDispatcher>\<close>\<close>

definition get_channel ::
    "call_env \<Rightarrow> zx_koid_t \<Rightarrow> zx_handle_t \<Rightarrow> zx_rights_t \<Rightarrow> hstate \<Rightarrow> (zx_status_t + nat \<times> chan_ref) \<times> hstate" where
  "get_channel env pid v rights h =
     (case GetDispatcherWithRightsInternal pid v rights h of
        (Inl st, h1) \<Rightarrow> (Inl st, h1)
      | (Inr (obj, _), h1) \<Rightarrow>
          (case ce_endpoint env obj of
             None \<Rightarrow> (Inl ZX_ERR_WRONG_TYPE, h1)
           | Some r \<Rightarrow> (Inr (obj, r), h1)))"

definition put_status :: "nat \<Rightarrow> nat option \<Rightarrow> hstate \<Rightarrow> zx_status_t" where
  "put_status channel r h =
     (case r of
        None \<Rightarrow> ZX_ERR_BAD_HANDLE
      | Some i \<Rightarrow>
          (case hs_mem h i of
             Free_slot v \<Rightarrow> ZX_ERR_BAD_HANDLE
           | Live_slot hdl \<Rightarrow>
               if \<not> HasRights hdl ZX_RIGHT_TRANSFER then ZX_ERR_ACCESS_DENIED
               else if hd_dispatcher hdl = channel then ZX_ERR_NOT_SUPPORTED else ZX_OK))"

fun put_loop ::
    "zx_koid_t \<Rightarrow> nat \<Rightarrow> zx_handle_t list \<Rightarrow> zx_status_t \<Rightarrow> hstate \<Rightarrow> zx_status_t \<times> nat option list \<times> hstate" where
  "put_loop pid channel [] status h = (status, [], h)"
| "put_loop pid channel (v # vs) status h =
     (let (r, h1) = RemoveHandleLocked pid v h;
          status1 = (if status = ZX_OK then put_status channel r h1 else status);
          (status2, rs, h2) = put_loop pid channel vs status1 h1
      in (status2, r # rs, h2))"

type_synonym user_handles = "nat \<Rightarrow> nat \<Rightarrow> zx_handle_t list option"

definition msg_put_handles ::
    "zx_koid_t \<Rightarrow> message_packet \<Rightarrow> user_handles \<Rightarrow> nat \<Rightarrow> nat \<Rightarrow> hstate \<Rightarrow> zx_status_t \<times> message_packet \<times> hstate" where
  "msg_put_handles pid msg user num_handles channel h =
     (case user 0 num_handles of
        None \<Rightarrow> (ZX_ERR_INVALID_ARGS, msg, h)
      | Some vs \<Rightarrow>
          (let (status, rs, h1) = put_loop pid channel vs ZX_OK h
           in (status, set_owns_handles True (msg\<lparr>mp_handles := rs\<rparr>), h1)))"

text \<open>
  \<^verbatim>\<open>msg_get_handles\<close>: the values the process will see, and the handles added to its table. The
  status of the copy of the values to user memory is not looked at.
\<close>

definition value_of_handle :: "zx_koid_t \<Rightarrow> nat \<Rightarrow> hstate \<Rightarrow> zx_handle_t" where
  "value_of_handle pid i h =
     (case hs_mem h i of Live_slot hdl \<Rightarrow> MapHandleToValue pid hdl h | Free_slot v \<Rightarrow> ZX_HANDLE_INVALID)"

definition get_one :: "call_env \<Rightarrow> zx_koid_t \<Rightarrow> nat \<Rightarrow> hstate \<Rightarrow> hstate" where
  "get_one env pid i h =
     (let obj = (case hs_mem h i of Live_slot hdl \<Rightarrow> hd_dispatcher hdl | Free_slot v \<Rightarrow> 0);
          h1 = (if ce_waitable env obj then hs_log (Ev_cancel obj i) h else h)
      in AddHandleLocked pid i h1)"

definition msg_get_handles ::
    "call_env \<Rightarrow> zx_koid_t \<Rightarrow> message_packet \<Rightarrow> hstate \<Rightarrow> zx_handle_t list \<times> message_packet \<times> hstate" where
  "msg_get_handles env pid msg h =
     (let is = map the (mp_handles msg)
      in (map (\<lambda>i. value_of_handle pid i h) is, set_owns_handles False msg, fold (get_one env pid) is h))"

section \<open>System calls\<close>

text \<open>Giving up before the handles are in a packet consumes them all the same.\<close>

definition drop_handles ::
    "call_env \<Rightarrow> zx_koid_t \<Rightarrow> user_handles \<Rightarrow> nat \<Rightarrow> zx_status_t \<Rightarrow> hstate \<Rightarrow> chan_state
       \<Rightarrow> (zx_status_t \<times> kernel_state) option" where
  "drop_handles env pid user num_handles status h c =
     (case RemoveHandles (ce_waitable env) (ce_map_ok env) pid user num_handles h of
        None \<Rightarrow> None
      | Some (_, h1) \<Rightarrow> Some (status, settle env h1 c))"

text \<open>The part that \<^verbatim>\<open>sys_channel_write\<close> and \<^verbatim>\<open>sys_channel_call_noretry\<close> share: a packet or a status.\<close>

definition prepare_message ::
    "call_env \<Rightarrow> bool \<Rightarrow> fresh_memory \<Rightarrow> zx_koid_t \<Rightarrow> zx_handle_t \<Rightarrow> zx_rights_t \<Rightarrow> user_ptr \<Rightarrow> nat
       \<Rightarrow> user_handles \<Rightarrow> nat \<Rightarrow> kernel_state
       \<Rightarrow> ((zx_status_t + chan_ref \<times> message_packet) \<times> kernel_state) option" where
  "prepare_message env pmm_ok mem pid handle_value rights bytes num_bytes user num_handles ks =
     (let c = ks_channels ks in
      case get_channel env pid handle_value rights (ks_handles ks) of
        (Inl st, h1) \<Rightarrow> map_option (map_prod Inl id) (drop_handles env pid user num_handles st h1 c)
      | (Inr (obj, r), h1) \<Rightarrow>
          (case MessagePacket_Create pmm_ok mem bytes num_bytes num_handles of
             Inl st \<Rightarrow> map_option (map_prod Inl id) (drop_handles env pid user num_handles st h1 c)
           | Inr msg \<Rightarrow>
               if num_handles > 0
               then (case msg_put_handles pid msg user num_handles obj h1 of
                       (st, msg1, h2) \<Rightarrow>
                         if st \<noteq> ZX_OK
                         then map_option (\<lambda>ks1. (Inl st, ks1)) (destroy_packet env msg1 (settle env h2 c))
                         else Some (Inr (r, msg1), settle env h2 c))
               else Some (Inr (r, msg), settle env h1 c)))"

definition sys_channel_write ::
    "call_env \<Rightarrow> bool \<Rightarrow> fresh_memory \<Rightarrow> zx_koid_t \<Rightarrow> zx_handle_t \<Rightarrow> 32 word \<Rightarrow> user_ptr \<Rightarrow> nat
       \<Rightarrow> user_handles \<Rightarrow> nat \<Rightarrow> kernel_state \<Rightarrow> (zx_status_t \<times> kernel_state) option" where
  "sys_channel_write env pmm_ok mem pid handle_value options bytes num_bytes user num_handles ks =
     (if options \<noteq> 0
      then drop_handles env pid user num_handles ZX_ERR_INVALID_ARGS (ks_handles ks) (ks_channels ks)
      else case prepare_message env pmm_ok mem pid handle_value ZX_RIGHT_WRITE bytes num_bytes user num_handles ks of
             None \<Rightarrow> None
           | Some (Inl st, ks1) \<Rightarrow> Some (st, ks1)
           | Some (Inr (r, msg), ks1) \<Rightarrow>
               (let (st, c) = channel_Write r pid msg (ks_channels ks1)
                in if st \<noteq> ZX_OK then map_option (\<lambda>ks2. (st, ks2)) (destroy_packet env msg ks1)
                   else Some (ZX_OK, ks1\<lparr>ks_channels := c\<rparr>)))"

text \<open>What a read hands back: the status, the bytes and handle values copied out.\<close>

record read_result =
  rr_status :: zx_status_t
  rr_bytes :: "byte list"
  rr_handles :: "zx_handle_t list"

abbreviation read_failed :: "zx_status_t \<Rightarrow> byte list \<Rightarrow> read_result" where
  "read_failed st bs \<equiv> \<lparr>rr_status = st, rr_bytes = bs, rr_handles = []\<rparr>"

text \<open>
  The end of reading a packet, shared by \<^verbatim>\<open>channel_read\<close> and \<^verbatim>\<open>channel_read_out\<close>: the data, then
  the handles; then the packet goes out of scope.
\<close>

definition deliver_packet ::
    "call_env \<Rightarrow> zx_koid_t \<Rightarrow> user_ptr \<Rightarrow> message_packet \<Rightarrow> kernel_state \<Rightarrow> (read_result \<times> kernel_state) option" where
  "deliver_packet env pid bytes msg ks =
     (let (copied, out) = (if mp_data_size msg > 0 then CopyDataTo bytes msg else (ZX_OK, []))
      in if copied \<noteq> ZX_OK
         then map_option (\<lambda>ks1. (read_failed ZX_ERR_INVALID_ARGS out, ks1)) (destroy_packet env msg ks)
         else if mp_num_handles msg > 0
         then (case msg_get_handles env pid msg (ks_handles ks) of
                 (vs, msg1, h) \<Rightarrow>
                   map_option (\<lambda>ks1. (\<lparr>rr_status = ZX_OK, rr_bytes = out, rr_handles = vs\<rparr>, ks1))
                     (destroy_packet env msg1 (settle env h (ks_channels ks))))
         else map_option (\<lambda>ks1. (\<lparr>rr_status = ZX_OK, rr_bytes = out, rr_handles = []\<rparr>, ks1))
                (destroy_packet env msg ks))"

text \<open>
  \<^verbatim>\<open>channel_read\<close>. \<open>actual_ok\<close> says whether both actual sizes can be written (or
  their pointers are null).
\<close>

definition channel_read ::
    "call_env \<Rightarrow> zx_koid_t \<Rightarrow> zx_handle_t \<Rightarrow> 32 word \<Rightarrow> user_ptr \<Rightarrow> nat \<Rightarrow> nat \<Rightarrow> bool \<Rightarrow> kernel_state
       \<Rightarrow> (read_result \<times> kernel_state) option" where
  "channel_read env pid handle_value options bytes num_bytes num_handles actual_ok ks =
     (case get_channel env pid handle_value ZX_RIGHT_READ (ks_handles ks) of
        (Inl st, h1) \<Rightarrow> Some (read_failed st [], settle env h1 (ks_channels ks))
      | (Inr (obj, r), h1) \<Rightarrow>
          (let ks1 = settle env h1 (ks_channels ks) in
           if options AND NOT ZX_CHANNEL_READ_MAY_DISCARD \<noteq> 0
           then Some (read_failed ZX_ERR_NOT_SUPPORTED [], ks1)
           else case channel_Read r pid num_bytes num_handles (options AND ZX_CHANNEL_READ_MAY_DISCARD \<noteq> 0)
                       (ks_channels ks1) of
                  ((st, n, k, None), c) \<Rightarrow>
                    Some (read_failed (if st = ZX_ERR_BUFFER_TOO_SMALL \<and> \<not> actual_ok then ZX_ERR_INVALID_ARGS else st) [],
                          ks1\<lparr>ks_channels := c\<rparr>)
                | ((st, n, k, Some msg), c) \<Rightarrow>
                    if \<not> actual_ok
                    then map_option (\<lambda>ks2. (read_failed ZX_ERR_INVALID_ARGS [], ks2))
                           (destroy_packet env msg (ks1\<lparr>ks_channels := c\<rparr>))
                    else if st = ZX_ERR_BUFFER_TOO_SMALL
                    then map_option (\<lambda>ks2. (read_failed st [], ks2))
                           (destroy_packet env msg (ks1\<lparr>ks_channels := c\<rparr>))
                    else deliver_packet env pid bytes msg (ks1\<lparr>ks_channels := c\<rparr>)))"

text \<open>
  \<^verbatim>\<open>sys_channel_call_noretry\<close> up to the wait. The arguments have been read from user memory
  (\<open>args_ok\<close>); no status means that the thread waits.
\<close>

definition sys_channel_call_noretry ::
    "call_env \<Rightarrow> bool \<Rightarrow> fresh_memory \<Rightarrow> zx_koid_t \<Rightarrow> nat \<Rightarrow> zx_handle_t \<Rightarrow> 32 word \<Rightarrow> bool \<Rightarrow> user_ptr \<Rightarrow> nat
       \<Rightarrow> user_handles \<Rightarrow> nat \<Rightarrow> kernel_state \<Rightarrow> (zx_status_t option \<times> kernel_state) option" where
  "sys_channel_call_noretry env pmm_ok mem pid t handle_value options args_ok bytes num_bytes user num_handles ks =
     (if \<not> args_ok then Some (Some ZX_ERR_INVALID_ARGS, ks)
      else if options \<noteq> 0 \<or> num_bytes < sizeof_txid
      then map_option (map_prod Some id)
             (drop_handles env pid user num_handles ZX_ERR_INVALID_ARGS (ks_handles ks) (ks_channels ks))
      else case prepare_message env pmm_ok mem pid handle_value (ZX_RIGHT_WRITE OR ZX_RIGHT_READ) bytes num_bytes
                  user num_handles ks of
             None \<Rightarrow> None
           | Some (Inl st, ks1) \<Rightarrow> Some (Some st, ks1)
           | Some (Inr (r, msg), ks1) \<Rightarrow>
               (case channel_Call t r pid msg (ks_channels ks1) of
                  None \<Rightarrow> None
                | Some (Some st, c) \<Rightarrow>
                    map_option (\<lambda>ks2. (Some st, ks2)) (destroy_packet env msg (ks1\<lparr>ks_channels := c\<rparr>))
                | Some (None, c) \<Rightarrow> Some (None, ks1\<lparr>ks_channels := c\<rparr>)))"

text \<open>\<^verbatim>\<open>channel_read_out\<close>: the reply of a call goes to the caller, if it fits.\<close>

definition channel_read_out ::
    "call_env \<Rightarrow> zx_koid_t \<Rightarrow> message_packet \<Rightarrow> user_ptr \<Rightarrow> nat \<Rightarrow> nat \<Rightarrow> bool \<Rightarrow> kernel_state
       \<Rightarrow> (read_result \<times> kernel_state) option" where
  "channel_read_out env pid reply rd_bytes rd_num_bytes rd_num_handles actual_ok ks =
     (if rd_num_bytes < mp_data_size reply \<or> rd_num_handles < mp_num_handles reply
      then map_option (\<lambda>ks1. (read_failed ZX_ERR_BUFFER_TOO_SMALL [], ks1)) (destroy_packet env reply ks)
      else if \<not> actual_ok
      then map_option (\<lambda>ks1. (read_failed ZX_ERR_INVALID_ARGS [], ks1)) (destroy_packet env reply ks)
      else deliver_packet env pid rd_bytes reply ks)"

text \<open>
  The end of both call system calls: what \<^verbatim>\<open>ResumeInterruptedCall\<close> returned and the epilogue.
  In \<^verbatim>\<open>sys_channel_call_finish\<close> a thread without a call in progress gets bad-state.
\<close>

definition sys_channel_call_finish ::
    "call_env \<Rightarrow> zx_koid_t \<Rightarrow> nat \<Rightarrow> bool \<Rightarrow> zx_status_t \<Rightarrow> user_ptr \<Rightarrow> nat \<Rightarrow> nat \<Rightarrow> bool \<Rightarrow> kernel_state
       \<Rightarrow> (read_result \<times> kernel_state) option" where
  "sys_channel_call_finish env pid t args_ok waited rd_bytes rd_num_bytes rd_num_handles actual_ok ks =
     (if \<not> args_ok then Some (read_failed ZX_ERR_INVALID_ARGS [], ks)
      else case mw_channel (cs_waiter (ks_channels ks) t) of
        None \<Rightarrow> Some (read_failed ZX_ERR_BAD_STATE [], ks)
      | Some r \<Rightarrow>
          (case channel_ResumeInterruptedCall r t waited (ks_channels ks) of
             None \<Rightarrow> None
           | Some ((st, reply), c) \<Rightarrow>
               (let ks1 = ks\<lparr>ks_channels := c\<rparr> in
                case reply of
                  None \<Rightarrow> Some (read_failed st [], ks1)
                | Some msg \<Rightarrow>
                    if st \<noteq> ZX_OK
                    then map_option (\<lambda>ks2. (read_failed st [], ks2)) (destroy_packet env msg ks1)
                    else channel_read_out env pid msg rd_bytes rd_num_bytes rd_num_handles actual_ok ks1)))"

section \<open>What processes find\<close>

definition finds :: "hstate \<Rightarrow> zx_koid_t \<Rightarrow> zx_handle_t \<Rightarrow> nat option" where
  "finds h pid v = fst (GetHandleLocked pid v True h)"

lemma GetHandleLocked_finds: "fst (GetHandleLocked pid v skip h) = finds h pid v"
  by (auto simp: finds_def GetHandleLocked_def split: option.split)

lemma finds_iff:
  assumes "hs_inv h" "pid \<noteq> 0"
  shows "finds h pid v = Some i \<longleftrightarrow>
    (\<exists>hdl. hs_mem h i = Live_slot hdl \<and> hd_process_id hdl = pid \<and>
      (v = MapHandleToValue pid hdl h \<or> v = MapHandleToValue pid hdl h XOR 1))"
  using GetHandleLocked_iff [of h pid v True i] assms by (simp add: finds_def hs_inv_def)

lemma finds_cong:
  "hs_mem h' = hs_mem h \<Longrightarrow> hs_procs h' = hs_procs h \<Longrightarrow> hs_arena h' = hs_arena h \<Longrightarrow> finds h' q w = finds h q w"
  by (simp add: finds_def GetHandleLocked_def map_value_to_handle_def FromU32_def Let_def split: option.split)

lemma option_eqI: "(\<And>i. x = Some i \<longleftrightarrow> y = Some i) \<Longrightarrow> x = y"
  by (metis option.exhaust)

text \<open>A handle that no process has, on its way between two of them.\<close>

definition loose :: "hstate \<Rightarrow> nat \<Rightarrow> bool" where
  "loose h i \<longleftrightarrow> floating h i \<and> slot_process_id (hs_mem h i) = 0"

lemma loose_not_found: "hs_inv h \<Longrightarrow> pid \<noteq> 0 \<Longrightarrow> loose h i \<Longrightarrow> finds h pid v \<noteq> Some i"
  by (auto simp: finds_iff loose_def)

text \<open>Only owners change between the two states: slots, objects and rights stay.\<close>

fun slot_key :: "hslot \<Rightarrow> (nat \<times> zx_rights_t \<times> 32 word) option" where
  "slot_key (Free_slot v) = None"
| "slot_key (Live_slot hdl) = Some (hd_dispatcher hdl, hd_rights hdl, hd_base_value hdl)"

definition moved :: "hstate \<Rightarrow> hstate \<Rightarrow> bool" where
  "moved h h' \<longleftrightarrow> (\<forall>i. slot_key (hs_mem h' i) = slot_key (hs_mem h i)) \<and>
     (\<forall>pid. hp_handle_rand (hs_procs h' pid) = hp_handle_rand (hs_procs h pid))"

lemma moved_refl [simp]: "moved h h"
  by (simp add: moved_def)

lemma moved_trans: "moved h h1 \<Longrightarrow> moved h1 h2 \<Longrightarrow> moved h h2"
  by (simp add: moved_def)

lemma RemoveHandleLocked_exact:
  assumes inv: "hs_inv h" and pid: "pid \<noteq> 0" and r: "RemoveHandleLocked pid v h = (r, h')"
  shows "r = finds h pid v" "moved h h'"
    "q \<noteq> 0 \<Longrightarrow> finds h' q w = (if finds h q w = r then None else finds h q w)"
    "r = Some i \<Longrightarrow> loose h' i" "loose h j \<Longrightarrow> loose h' j"
proof -
  have inv': "hs_inv h'" by (rule RemoveHandleLocked_inv(1) [OF inv pid r])
  obtain q0 h1 where g: "GetHandleLocked pid v False h = (q0, h1)" by fastforce
  note fr = GetHandleLocked_frame [OF g]
  have q0: "q0 = finds h pid v" using g GetHandleLocked_finds [of pid v False h] by simp
  have "r = finds h pid v \<and> moved h h' \<and> (\<forall>i. r = Some i \<longrightarrow> loose h' i) \<and> (\<forall>j. loose h j \<longrightarrow> loose h' j) \<and>
      (\<forall>q w. q \<noteq> 0 \<longrightarrow> finds h' q w = (if finds h q w = r then None else finds h q w))"
  proof (cases q0)
    case None
    then have "r = None" "hs_mem h' = hs_mem h" "hs_procs h' = hs_procs h" "hs_arena h' = hs_arena h"
      using r g fr by (simp_all add: RemoveHandleLocked_def)
    moreover from this have "finds h' q w = finds h q w" for q w
      by (intro finds_cong)
    ultimately show ?thesis
      using None q0 by (simp add: moved_def loose_def floating_def)
  next
    case (Some i)
    then have h1: "h1 = h" using fr(5) by simp
    obtain hdl where m: "hs_mem h i = Live_slot hdl" "hd_process_id hdl = pid"
      using Some q0 finds_iff [OF inv pid, of v i] by auto
    have h': "h' = set_handles pid (remove1 i (handles_of h pid)) (set_process_id i 0 h)" "r = Some i"
      using r g Some h1 by (simp_all add: RemoveHandleLocked_def ZX_KOID_INVALID_def)
    have mem: "hs_mem h' = (hs_mem h)(i := Live_slot (hdl\<lparr>hd_process_id := 0\<rparr>))"
      by (simp add: h' set_process_id_mem [OF m(1)])
    have rand: "hp_handle_rand (hs_procs h' q) = hp_handle_rand (hs_procs h q)" for q
      by (simp add: h')
    have "finds h' q w = (if finds h q w = r then None else finds h q w)" if "q \<noteq> 0" for q w
    proof (rule option_eqI)
      fix j
      have "MapHandleToValue q x h' = MapHandleToValue q x h" for x
        by (simp add: MapHandleToValue_def rand)
      then show "finds h' q w = Some j \<longleftrightarrow> (if finds h q w = r then None else finds h q w) = Some j"
        using that h'(2) finds_iff [OF inv' that, of w j] finds_iff [OF inv that, of w j] mem
        by (cases "j = i") auto
    qed
    moreover have "loose h' i"
      using RemoveHandleLocked_inv(2) [OF inv pid r h'(2)] mem by (simp add: loose_def)
    moreover have "loose h' j" if "loose h j" for j
    proof -
      have "j \<noteq> i" using that m pid by (auto simp: loose_def)
      then show ?thesis
        using that m(1) by (auto simp: loose_def floating_def h'(1) set_process_id_mem dest: notin_set_remove1)
    qed
    moreover have "moved h h'"
      using m rand by (simp add: moved_def mem)
    ultimately show ?thesis using Some q0 h'(2) by simp
  qed
  then show "r = finds h pid v" "moved h h'"
    "q \<noteq> 0 \<Longrightarrow> finds h' q w = (if finds h q w = r then None else finds h q w)"
    "r = Some i \<Longrightarrow> loose h' i" "loose h j \<Longrightarrow> loose h' j" by blast+
qed

lemma put_loop_inv:
  assumes "hs_inv h" "pid \<noteq> 0" "put_loop pid channel vs st h = (st', rs, h')"
  shows "hs_inv h' \<and> moved h h' \<and> length rs = length vs \<and>
    (\<forall>i. Some i \<in> set rs \<longrightarrow> loose h' i) \<and> (\<forall>i. loose h i \<longrightarrow> loose h' i \<and> Some i \<notin> set rs) \<and>
    (\<forall>q w. q \<noteq> 0 \<longrightarrow> finds h' q w = (if finds h q w \<in> set rs then None else finds h q w)) \<and>
    (\<forall>v \<in> set vs. finds h' pid v = None) \<and> distinct (filter (\<lambda>r. r \<noteq> None) rs)"
  using assms(1,3)
proof (induction vs arbitrary: h st rs)
  case Nil
  then show ?case by simp
next
  case (Cons v vs)
  obtain r h1 where r: "RemoveHandleLocked pid v h = (r, h1)" by fastforce
  note x = RemoveHandleLocked_exact [OF Cons.prems(1) assms(2) r]
  have inv1: "hs_inv h1" by (rule RemoveHandleLocked_inv(1) [OF Cons.prems(1) assms(2) r])
  obtain rs1 where p: "put_loop pid channel vs (if st = ZX_OK then put_status channel r h1 else st) h1 = (st', rs1, h')"
    and rs: "rs = r # rs1"
    using Cons.prems(2) r by (auto simp: Let_def split: prod.splits)
  note IH = Cons.IH [OF inv1 p]
  have found: "finds h' q w = (if finds h q w \<in> set rs then None else finds h q w)" if "q \<noteq> 0" for q w
    using IH x(3) [OF that, of w] that by (auto simp: rs)
  moreover have "finds h' pid v = None"
    using found [OF assms(2), of v] x(1) by (simp add: rs)
  moreover have "r = Some i \<Longrightarrow> loose h1 i \<and> loose h' i \<and> Some i \<notin> set rs1" for i
    using x(4) [of i] IH by auto
  moreover have "r \<noteq> Some i" if "loose h i" for i
    using loose_not_found [OF Cons.prems(1) assms(2) that, of v] x(1) by simp
  ultimately show ?case
    using IH x(2,5) moved_trans [OF x(2)] by (auto simp: rs)
qed

lemma put_loop_found:
  assumes "hs_inv h" "pid \<noteq> 0" "put_loop pid channel vs st h = (st', rs, h')"
  shows "list_all2 (\<lambda>v r. r = None \<or> r = finds h pid v) vs rs"
  using assms(1,3)
proof (induction vs arbitrary: h st rs)
  case (Cons v vs)
  obtain r h1 where r: "RemoveHandleLocked pid v h = (r, h1)" by fastforce
  note x = RemoveHandleLocked_exact [OF Cons.prems(1) assms(2) r]
  have inv1: "hs_inv h1" by (rule RemoveHandleLocked_inv(1) [OF Cons.prems(1) assms(2) r])
  obtain rs1 where p: "put_loop pid channel vs (if st = ZX_OK then put_status channel r h1 else st) h1 = (st', rs1, h')"
    and rs: "rs = r # rs1"
    using Cons.prems(2) r by (auto simp: Let_def split: prod.splits)
  have "list_all2 (\<lambda>v r. r = None \<or> r = finds h pid v) vs rs1"
    using Cons.IH [OF inv1 p] by (rule list_all2_mono) (simp add: x(3) [OF assms(2)] split: if_splits)
  then show ?case using x(1) by (simp add: rs)
qed simp

text \<open>The loop succeeds exactly when every handle is there, may be transferred and is not the channel.\<close>

lemma put_loop_status:
  assumes "hs_inv h" "pid \<noteq> 0" "put_loop pid channel vs st h = (st', rs, h')"
  shows "st' = ZX_OK \<longleftrightarrow> st = ZX_OK \<and>
    (\<forall>r \<in> set rs. \<exists>i obj rights b. r = Some i \<and> slot_key (hs_mem h i) = Some (obj, rights, b) \<and>
       rights AND ZX_RIGHT_TRANSFER = ZX_RIGHT_TRANSFER \<and> obj \<noteq> channel)"
  using assms(1,3)
proof (induction vs arbitrary: h st rs)
  case Nil
  then show ?case by simp
next
  case (Cons v vs)
  obtain r h1 where r: "RemoveHandleLocked pid v h = (r, h1)" by fastforce
  note x = RemoveHandleLocked_exact [OF Cons.prems(1) assms(2) r]
  have inv1: "hs_inv h1" by (rule RemoveHandleLocked_inv(1) [OF Cons.prems(1) assms(2) r])
  let ?st = "if st = ZX_OK then put_status channel r h1 else st"
  obtain rs1 where p: "put_loop pid channel vs ?st h1 = (st', rs1, h')" and rs: "rs = r # rs1"
    using Cons.prems(2) r by (auto simp: Let_def split: prod.splits)
  have key: "slot_key (hs_mem h1 i) = slot_key (hs_mem h i)" for i
    using x(2) by (simp add: moved_def)
  have "put_status channel r h1 = ZX_OK \<longleftrightarrow>
      (\<exists>i obj rights b. r = Some i \<and> slot_key (hs_mem h i) = Some (obj, rights, b) \<and>
         rights AND ZX_RIGHT_TRANSFER = ZX_RIGHT_TRANSFER \<and> obj \<noteq> channel)"
    unfolding key [symmetric] by (auto simp: put_status_def HasRights_def split: option.splits hslot.splits)
  then show ?case
    using Cons.IH [OF inv1 p] by (auto simp: rs key)
qed

section \<open>Objects hear nothing of a handle that is taken\<close>

text \<open>
  Giving up ownership calls \<^verbatim>\<open>set_owner\<close> with the invalid id, which channels ignore.
\<close>

definition quiet :: "hevent list \<Rightarrow> bool" where
  "quiet es \<longleftrightarrow> (\<forall>e \<in> set es. \<forall>env c. channel_event env e c = c)"

lemma quiet_simps [simp]: "quiet []" "quiet (es @ es') \<longleftrightarrow> quiet es \<and> quiet es'"
  by (auto simp: quiet_def)

lemma quiet_settle: "quiet (hs_events h) \<Longrightarrow> ks_channels (settle env h c) = c"
proof -
  have "fold (channel_event env) es c = c" if "quiet es" for es
    using that by (induction es) (simp_all add: quiet_def)
  then show "quiet (hs_events h) \<Longrightarrow> ks_channels (settle env h c) = c" by (simp add: settle_def)
qed

lemma GetHandleLocked_quiet:
  "GetHandleLocked pid v skip h = (r, h') \<Longrightarrow> quiet (hs_events h) \<Longrightarrow> quiet (hs_events h')"
  by (auto simp: GetHandleLocked_def quiet_def split: option.splits if_splits)

lemma RemoveHandleLocked_quiet:
  assumes "RemoveHandleLocked pid v h = (r, h')" "quiet (hs_events h)"
  shows "quiet (hs_events h')"
proof -
  obtain r1 h1 where g: "GetHandleLocked pid v False h = (r1, h1)" by fastforce
  have "quiet (hs_events h1)" by (rule GetHandleLocked_quiet [OF g assms(2)])
  moreover have "quiet (hs_events (set_process_id i ZX_KOID_INVALID h1))" if "quiet (hs_events h1)" for i
    using that by (auto simp: set_process_id_def quiet_def channel_set_owner_def split: hslot.split option.split)
  ultimately show ?thesis
    using assms(1) g by (auto simp: RemoveHandleLocked_def Let_def split: option.splits)
qed

lemma put_loop_quiet:
  "put_loop pid channel vs st h = (st', rs, h') \<Longrightarrow> quiet (hs_events h) \<Longrightarrow> quiet (hs_events h')"
  by (induction vs arbitrary: h st rs) (auto simp: Let_def split: prod.splits dest: RemoveHandleLocked_quiet)

lemma settle_simps [simp]:
  "hs_mem (ks_handles (settle env h c)) = hs_mem h" "hs_procs (ks_handles (settle env h c)) = hs_procs h"
  "hs_arena (ks_handles (settle env h c)) = hs_arena h" "hs_objs (ks_handles (settle env h c)) = hs_objs h"
  "hs_events (ks_handles (settle env h c)) = []"
  by (simp_all add: settle_def)

lemma settle_inv [simp]:
  "hs_inv (ks_handles (settle env h c)) = hs_inv h" "loose (ks_handles (settle env h c)) i = loose h i"
  "finds (ks_handles (settle env h c)) pid v = finds h pid v"
  "moved (ks_handles (settle env h c)) h' = moved h h'" "moved h' (ks_handles (settle env h c)) = moved h' h"
proof -
  show "hs_inv (ks_handles (settle env h c)) = hs_inv h" by (rule hs_inv_cong) simp_all
  show "loose (ks_handles (settle env h c)) i = loose h i" by (simp add: loose_def floating_def)
  show "finds (ks_handles (settle env h c)) pid v = finds h pid v"
    by (rule finds_cong) simp_all
qed (simp_all add: moved_def)

section \<open>Adding the handles of a packet\<close>

lemma value_moved: "moved h h' \<Longrightarrow> value_of_handle pid i h' = value_of_handle pid i h"
proof -
  assume m: "moved h h'"
  then have "slot_key (hs_mem h' i) = slot_key (hs_mem h i)"
    and "hp_handle_rand (hs_procs h' pid) = hp_handle_rand (hs_procs h pid)"
    by (simp_all add: moved_def)
  then show ?thesis
    by (cases "hs_mem h i"; cases "hs_mem h' i")
       (simp_all add: value_of_handle_def MapHandleToValue_def map_handle_to_value_def)
qed

lemma get_one_exact:
  assumes inv: "hs_inv h" and i: "loose h i" and pid: "pid \<noteq> 0"
  shows "hs_inv (get_one env pid i h)" "moved h (get_one env pid i h)"
    "finds (get_one env pid i h) pid (value_of_handle pid i h) = Some i"
    "loose h j \<Longrightarrow> j \<noteq> i \<Longrightarrow> loose (get_one env pid i h) j"
    "q \<noteq> 0 \<Longrightarrow> finds h q w = Some k \<Longrightarrow> finds (get_one env pid i h) q w = Some k"
proof -
  obtain hdl where m: "hs_mem h i = Live_slot hdl" "hd_process_id hdl = 0"
    using i by (auto simp: loose_def floating_def is_live_iff)
  define h1 where "h1 = (if ce_waitable env (hd_dispatcher hdl) then hs_log (Ev_cancel (hd_dispatcher hdl) i) h else h)"
  define h' where "h' = get_one env pid i h"
  have h': "h' = AddHandleLocked pid i h1"
    by (simp add: h'_def get_one_def m h1_def)
  have h1: "hs_mem h1 = hs_mem h" "hs_procs h1 = hs_procs h" "hs_inv h1" "floating h1 i"
    using inv i by (auto simp: h1_def loose_def floating_def)
  have mem: "hs_mem h' = (hs_mem h)(i := Live_slot (hdl\<lparr>hd_process_id := pid\<rparr>))"
    using m h1 by (simp add: h' AddHandleLocked_def Let_def set_process_id_mem)
  have lists: "handles_of h' q = (if q = pid then i # handles_of h pid else handles_of h q)"
    "hp_handle_rand (hs_procs h' q) = hp_handle_rand (hs_procs h q)" for q
    by (simp_all add: h' AddHandleLocked_def Let_def h1)
  have inv': "hs_inv h'"
    unfolding h' by (rule AddHandleLocked_inv [OF h1(3,4)])
  have val: "MapHandleToValue q x h' = MapHandleToValue q x h" for q x
    by (simp add: MapHandleToValue_def lists)
  show "hs_inv (get_one env pid i h)" using inv' by (simp add: h'_def)
  show "moved h (get_one env pid i h)"
    unfolding h'_def [symmetric] using m by (simp add: moved_def mem lists)
  have "MapHandleToValue pid (hdl\<lparr>hd_process_id := pid\<rparr>) h = MapHandleToValue pid hdl h"
    by (simp add: MapHandleToValue_def map_handle_to_value_def)
  then show "finds (get_one env pid i h) pid (value_of_handle pid i h) = Some i"
    unfolding h'_def [symmetric] finds_iff [OF inv' pid] using m by (simp add: mem val value_of_handle_def)
  show "loose (get_one env pid i h) j" if "loose h j" "j \<noteq> i"
    unfolding h'_def [symmetric] using that by (simp add: loose_def floating_def mem lists)
  show "finds (get_one env pid i h) q w = Some k" if q: "q \<noteq> 0" and f: "finds h q w = Some k"
  proof -
    have "k \<noteq> i" using f loose_not_found [OF inv q i] by auto
    then show ?thesis
      unfolding h'_def [symmetric] finds_iff [OF inv' q] using f finds_iff [OF inv q, of w k] by (auto simp: mem val)
  qed
qed

lemma get_all_exact:
  assumes "hs_inv h" "distinct is" "\<forall>i \<in> set is. loose h i" "pid \<noteq> 0"
  shows "hs_inv (fold (get_one env pid) is h) \<and> moved h (fold (get_one env pid) is h) \<and>
    (\<forall>i \<in> set is. finds (fold (get_one env pid) is h) pid (value_of_handle pid i h) = Some i) \<and>
    (\<forall>q w k. q \<noteq> 0 \<longrightarrow> finds h q w = Some k \<longrightarrow> finds (fold (get_one env pid) is h) q w = Some k)"
  using assms(1-3)
proof (induction "is" arbitrary: h)
  case Nil
  then show ?case by simp
next
  case (Cons i "is")
  have li: "loose h i" using Cons.prems by simp
  note x = get_one_exact [OF Cons.prems(1) li assms(4), where env = env]
  have l: "\<forall>j \<in> set is. loose (get_one env pid i h) j"
    using x(4) Cons.prems(2,3) by auto
  have IH: "hs_inv (fold (get_one env pid) is (get_one env pid i h))"
    "moved (get_one env pid i h) (fold (get_one env pid) is (get_one env pid i h))"
    "\<And>j. j \<in> set is \<Longrightarrow> finds (fold (get_one env pid) is (get_one env pid i h)) pid
       (value_of_handle pid j (get_one env pid i h)) = Some j"
    "\<And>q w k. q \<noteq> 0 \<Longrightarrow> finds (get_one env pid i h) q w = Some k \<Longrightarrow>
       finds (fold (get_one env pid) is (get_one env pid i h)) q w = Some k"
    using Cons.IH [OF x(1) _ l] Cons.prems(2) by auto
  have "moved h (fold (get_one env pid) is (get_one env pid i h))"
    by (rule moved_trans [OF x(2) IH(2)])
  moreover have "finds (fold (get_one env pid) is (get_one env pid i h)) pid (value_of_handle pid j h) = Some j"
    if "j \<in> set (i # is)" for j
  proof (cases "j = i")
    case True
    then show ?thesis using IH(4) [OF assms(4) x(3)] by simp
  next
    case False
    then show ?thesis using that IH(3) [of j] value_moved [OF x(2)] by simp
  qed
  ultimately show ?case using IH(1,4) x(5) by simp
qed

section \<open>Messages with handles\<close>

lemma get_channel_frame:
  assumes "get_channel env pid v rights h = (x, h1)"
  shows "hs_inv h1 = hs_inv h" "moved h h1" "finds h1 q w = finds h q w" "loose h1 i = loose h i"
    "quiet (hs_events h) \<Longrightarrow> quiet (hs_events h1)"
proof -
  obtain r h0 where g: "GetHandleLocked pid v False h = (r, h0)" by fastforce
  have "h1 = h0"
    using assms g by (auto simp: get_channel_def GetDispatcherWithRightsInternal_def
        split: option.splits hslot.splits if_splits sum.splits)
  with GetHandleLocked_frame [OF g]
  have eq: "hs_arena h1 = hs_arena h" "hs_mem h1 = hs_mem h" "hs_objs h1 = hs_objs h" "hs_procs h1 = hs_procs h"
    by simp_all
  show "hs_inv h1 = hs_inv h" using hs_inv_cong [OF eq] by simp
  show "moved h h1" by (simp add: moved_def eq)
  show "loose h1 i = loose h i" by (simp add: loose_def floating_def eq)
  show "finds h1 q w = finds h q w"
    by (rule finds_cong) (simp_all add: eq)
  show "quiet (hs_events h) \<Longrightarrow> quiet (hs_events h1)"
    using GetHandleLocked_quiet [OF g] \<open>h1 = h0\<close> by simp
qed

text \<open>The handles \<open>is\<close> have been taken from a process under the values \<open>vs\<close>.\<close>

definition taken :: "zx_koid_t \<Rightarrow> zx_handle_t list \<Rightarrow> nat list \<Rightarrow> hstate \<Rightarrow> hstate \<Rightarrow> bool" where
  "taken pid vs is h h' \<longleftrightarrow>
     hs_inv h' \<and> moved h h' \<and> distinct is \<and> (\<forall>i \<in> set is. loose h' i) \<and>
     list_all2 (\<lambda>v i. finds h pid v = Some i) vs is \<and> (\<forall>v \<in> set vs. finds h' pid v = None)"

lemma put_all_found:
  assumes "hs_inv h" "pid \<noteq> 0" "put_loop pid channel vs st h = (ZX_OK, rs, h')"
  obtains "is" where "rs = map Some is" "taken pid vs is h h'"
proof -
  define js where "js = map the rs"
  have "\<forall>r \<in> set rs. \<exists>i. r = Some i"
    using put_loop_status [OF assms] by auto
  then have rs: "rs = map Some js"
    by (auto simp: js_def intro!: nth_equalityI)
  note p = put_loop_inv [OF assms]
  have "filter (\<lambda>r. r \<noteq> None) rs = map Some js" unfolding rs by (induction js) auto
  then have "distinct js" using p by (simp add: distinct_map)
  moreover have "list_all2 (\<lambda>v i. finds h pid v = Some i) vs js"
    using put_loop_found [OF assms] unfolding rs list_all2_map2 by (rule list_all2_mono) auto
  ultimately have "taken pid vs js h h'"
    using p rs by (auto simp: taken_def)
  then show thesis using rs that by blast
qed

lemma taken_Nil: "hs_inv h' \<Longrightarrow> moved h h' \<Longrightarrow> taken pid [] [] h h'"
  by (simp add: taken_def)

text \<open>What a prepared message is.\<close>

lemma prepare_message_ok:
  assumes inv: "hs_inv (ks_handles ks)" and q: "quiet (hs_events (ks_handles ks))" and pid: "pid \<noteq> 0"
    and user: "\<And>vs. user 0 k = Some vs \<Longrightarrow> length vs = k"
    and prep: "prepare_message env pmm_ok mem pid hv rights bytes n user k ks = Some (Inr (r, msg), ks1)"
  obtains obj vs "is" where
    "fst (get_channel env pid hv rights (ks_handles ks)) = Inr (obj, r)"
    "packet_ok msg" "mp_payload msg = user_bytes bytes n" "mp_data_size msg = n" "mp_num_handles msg = k"
    "mp_handles msg = map Some is" "mp_owns_handles msg = (0 < k)"
    "length vs = k" "0 < k \<Longrightarrow> user 0 k = Some vs" "taken pid vs is (ks_handles ks) (ks_handles ks1)"
    "ks_channels ks1 = ks_channels ks" "hs_events (ks_handles ks1) = []"
proof -
  obtain x h1 where g: "get_channel env pid hv rights (ks_handles ks) = (x, h1)" by fastforce
  note fr = get_channel_frame [OF g]
  obtain obj where x: "x = Inr (obj, r)"
    using prep g by (auto simp: prepare_message_def drop_handles_def Let_def map_option_case
        split: sum.splits option.splits if_splits prod.splits)
  obtain m where m: "MessagePacket_Create pmm_ok mem bytes n k = Inr m"
    using prep g x by (auto simp: prepare_message_def drop_handles_def Let_def map_option_case
        split: sum.splits option.splits)
  note mo = Create_ok [OF m]
  show thesis
  proof (cases "0 < k")
    case False
    then have ks1: "msg = m" "ks1 = settle env h1 (ks_channels ks)"
      using prep g x m by (simp_all add: prepare_message_def)
    have "mp_handles m = []" using mo False by (auto simp: packet_ok_def)
    then show ?thesis
      using that [of obj "[]" "[]"] g x mo ks1 False fr inv q
      by (simp add: taken_Nil quiet_settle)
  next
    case True
    obtain vs where vs: "user 0 k = Some vs"
      using prep g x m True
      by (cases "user 0 k") (auto simp: prepare_message_def msg_put_handles_def Let_def map_option_case split: option.splits)
    obtain st rs h2 where p: "put_loop pid obj vs ZX_OK h1 = (st, rs, h2)" by (metis prod_cases3)
    have ks1: "st = ZX_OK" "msg = set_owns_handles True (m\<lparr>mp_handles := rs\<rparr>)" "ks1 = settle env h2 (ks_channels ks)"
      using prep g x m True vs p
      by (auto simp: prepare_message_def msg_put_handles_def Let_def map_option_case split: if_splits option.splits)
    have inv1: "hs_inv h1" using fr(1) inv by simp
    obtain js where js: "rs = map Some js" "taken pid vs js h1 h2"
      using put_all_found [OF inv1 pid p [unfolded ks1(1)]] by blast
    have len: "length vs = k" by (rule user [OF vs])
    have tk: "taken pid vs js (ks_handles ks) (ks_handles ks1)"
      using js(2) fr(2) moved_trans by (auto simp: taken_def ks1 fr(3))
    have "length js = k" using js(2) len by (auto simp: taken_def dest: list_all2_lengthD)
    then have "packet_ok msg" "mp_payload msg = user_bytes bytes n"
      using mo by (auto simp: ks1(2) js(1) packet_ok_def mp_payload_def set_owns_handles_def)
    moreover have "quiet (hs_events h2)" by (rule put_loop_quiet [OF p fr(5) [OF q]])
    ultimately show ?thesis
      using that [of obj js vs] g x mo tk len vs True
      by (simp add: ks1 js(1) set_owns_handles_def quiet_settle)
  qed
qed

lemma sys_channel_write_ok:
  assumes "sys_channel_write env pmm_ok mem pid hv opts bytes n user k ks = Some (ZX_OK, ks2)"
  obtains r msg ks1 where
    "prepare_message env pmm_ok mem pid hv ZX_RIGHT_WRITE bytes n user k ks = Some (Inr (r, msg), ks1)"
    "pid = ch_owner (cs_chan (ks_channels ks1) r)" "ch_peer (cs_chan (ks_channels ks1) r)"
    "ks2 = ks1\<lparr>ks_channels := channel_WriteSelf (peer_ref r) msg (ks_channels ks1)\<rparr>"
  | ks1 where
    "prepare_message env pmm_ok mem pid hv ZX_RIGHT_WRITE bytes n user k ks = Some (Inl ZX_OK, ks1)"
  using assms
  by (auto simp: sys_channel_write_def drop_handles_def channel_Write_def Let_def map_option_case
      split: if_splits option.splits sum.splits)

lemma prepare_message_fails:
  assumes "prepare_message env pmm_ok mem pid hv rights bytes n user k ks = Some (Inl st, ks1)"
  shows "st \<noteq> ZX_OK"
proof -
  have "fst (get_channel env pid hv rights h) \<noteq> Inl ZX_OK" for h
    by (auto simp: get_channel_def GetDispatcherWithRightsInternal_def split: prod.splits option.splits hslot.splits
        if_splits sum.splits)
  moreover have "MessagePacket_Create pmm_ok mem bytes n k \<noteq> Inl ZX_OK"
    by (auto simp: MessagePacket_Create_def MessagePacket_Create_with_def MessagePacket_CreateCommon_def Let_def
        split: sum.splits option.splits prod.splits if_splits)
  ultimately show ?thesis
    using assms
    by (auto simp: prepare_message_def drop_handles_def Let_def map_option_case
        split: sum.splits option.splits if_splits prod.splits) (metis fst_conv)+
qed

lemma destroy_unowned: "\<not> mp_owns_handles msg \<Longrightarrow> destroy_packet env msg ks = Some (settle env (ks_handles ks) (ks_channels ks))"
  by (simp add: destroy_packet_def MessagePacket_recycle_def)

lemma deliver_packet_ok:
  assumes ok: "packet_ok msg" and h: "mp_handles msg = map Some is" "mp_owns_handles msg = (is \<noteq> [])"
    and inv: "hs_inv (ks_handles ks)" and "is": "distinct is" "\<forall>i \<in> set is. loose (ks_handles ks) i"
    and dst: "user_range_ok dst 0 (mp_data_size msg)" and pid: "pid \<noteq> 0"
  obtains ks' where
    "deliver_packet env pid dst msg ks =
       Some (\<lparr>rr_status = ZX_OK, rr_bytes = mp_payload msg,
              rr_handles = map (\<lambda>i. value_of_handle pid i (ks_handles ks)) is\<rparr>, ks')"
    "hs_inv (ks_handles ks')" "moved (ks_handles ks) (ks_handles ks')"
    "\<forall>i \<in> set is. finds (ks_handles ks') pid (value_of_handle pid i (ks_handles ks)) = Some i"
proof -
  have len: "mp_num_handles msg = length is"
    using ok h(1) by (simp add: packet_ok_def)
  have data: "(if mp_data_size msg > 0 then CopyDataTo dst msg else (ZX_OK, [])) = (ZX_OK, mp_payload msg)"
  proof (cases "mp_data_size msg > 0")
    case True
    then show ?thesis using CopyDataTo_exact [OF ok, of dst] dst by (simp add: prod_eq_iff)
  next
    case False
    then have "mp_payload msg = []" by (simp add: mp_payload_def)
    then show ?thesis using False by simp
  qed
  show thesis
  proof (cases "is")
    case Nil
    then have "deliver_packet env pid dst msg ks =
        Some (\<lparr>rr_status = ZX_OK, rr_bytes = mp_payload msg, rr_handles = []\<rparr>, settle env (ks_handles ks) (ks_channels ks))"
      using len h(2) unfolding deliver_packet_def data by (simp add: destroy_unowned)
    then show ?thesis using that inv Nil by simp
  next
    case (Cons i0 is0)
    let ?h = "fold (get_one env pid) is (ks_handles ks)"
    let ?ks = "settle env ?h (ks_channels ks)"
    have "msg_get_handles env pid msg (ks_handles ks) =
        (map (\<lambda>i. value_of_handle pid i (ks_handles ks)) is, set_owns_handles False msg, ?h)"
      by (simp add: msg_get_handles_def h(1) comp_def)
    then have "deliver_packet env pid dst msg ks =
        Some (\<lparr>rr_status = ZX_OK, rr_bytes = mp_payload msg,
               rr_handles = map (\<lambda>i. value_of_handle pid i (ks_handles ks)) is\<rparr>,
              settle env (ks_handles ?ks) (ks_channels ?ks))"
      using len Cons unfolding deliver_packet_def data by (simp add: destroy_unowned set_owns_handles_def)
    then show ?thesis
      by (rule that) (use get_all_exact [OF inv "is" pid, of env] in simp_all)
  qed
qed

text \<open>Reading a message that is at the head of the queue, with large enough buffers.\<close>

lemma channel_read_head:
  assumes inv: "hs_inv (ks_handles ks)" and ev: "hs_events (ks_handles ks) = []" and pid: "pid \<noteq> 0"
    and g: "fst (get_channel env pid v ZX_RIGHT_READ (ks_handles ks)) = Inr (obj, r)"
    and c: "ch_messages (cs_chan (ks_channels ks) r) = msg # rest" "ch_owner (cs_chan (ks_channels ks) r) = pid"
    and room: "mp_data_size msg \<le> nb" "mp_num_handles msg \<le> nh" "user_range_ok dst 0 (mp_data_size msg)"
    and msg: "packet_ok msg" "mp_handles msg = map Some is" "mp_owns_handles msg = (is \<noteq> [])"
    and "is": "distinct is" "\<forall>i \<in> set is. loose (ks_handles ks) i"
  obtains vs ks' where
    "channel_read env pid v 0 dst nb nh True ks =
       Some (\<lparr>rr_status = ZX_OK, rr_bytes = mp_payload msg, rr_handles = vs\<rparr>, ks')"
    "moved (ks_handles ks) (ks_handles ks')" "list_all2 (\<lambda>v i. finds (ks_handles ks') pid v = Some i) vs is"
proof -
  obtain h1 where h1: "get_channel env pid v ZX_RIGHT_READ (ks_handles ks) = (Inr (obj, r), h1)"
    using g by (metis prod.collapse)
  note fr = get_channel_frame [OF h1]
  let ?s = "settle env h1 (ks_channels ks)"
  have qs: "ks_channels ?s = ks_channels ks" using fr(5) ev by (simp add: quiet_settle)
  obtain c2 where rd: "channel_Read r pid nb nh False (ks_channels ks) =
      ((ZX_OK, mp_data_size msg, mp_num_handles msg, Some msg), c2)"
    using c room by (auto simp: channel_Read_def Let_def)
  define ks0 where "ks0 = ?s\<lparr>ks_channels := c2\<rparr>"
  have read: "channel_read env pid v 0 dst nb nh True ks = deliver_packet env pid dst msg ks0"
    using h1 rd qs by (simp add: channel_read_def ks0_def Let_def)
  have k0: "hs_inv (ks_handles ks0)" "\<forall>i \<in> set is. loose (ks_handles ks0) i" "moved (ks_handles ks) (ks_handles ks0)"
    using inv "is"(2) fr(1,2,4) by (simp_all add: ks0_def)
  from deliver_packet_ok [OF msg k0(1) "is"(1) k0(2) room(3) pid, of env]
  obtain ks2 where d: "deliver_packet env pid dst msg ks0 =
      Some (\<lparr>rr_status = ZX_OK, rr_bytes = mp_payload msg,
             rr_handles = map (\<lambda>i. value_of_handle pid i (ks_handles ks0)) is\<rparr>, ks2)"
    "moved (ks_handles ks0) (ks_handles ks2)"
    "\<forall>i \<in> set is. finds (ks_handles ks2) pid (value_of_handle pid i (ks_handles ks0)) = Some i" by blast
  have "list_all2 (\<lambda>v i. finds (ks_handles ks2) pid v = Some i)
      (map (\<lambda>i. value_of_handle pid i (ks_handles ks0)) is) is"
    using d(3) by (auto simp: list_all2_conv_all_nth)
  then show thesis
    using that read d(1) moved_trans [OF k0(3) d(2)] by metis
qed

text \<open>
  C2: handles travel with a message. One process writes \<open>n\<close> bytes and \<open>k\<close> handles to a channel
  whose other end, held by a second process, is idle; the second process reads them with buffers that
  are large enough. The read succeeds and gives back the bytes. The writer finds nothing any more under
  the values it passed; the reader finds, under the values it received, exactly the
  handles that the writer had, in their order. No handle changes its object, rights or base value
  on the way.
\<close>

theorem message_with_handles_travels:
  assumes inv: "hs_inv (ks_handles ks)" and ev: "hs_events (ks_handles ks) = []"
    and pids: "p1 \<noteq> 0" "p2 \<noteq> 0" and user: "user 0 k = Some vs" "length vs = k"
    and wr: "sys_channel_write env pmm_ok mem p1 v1 opts bytes n user k ks = Some (ZX_OK, ks1)"
    and sender: "fst (get_channel env p1 v1 ZX_RIGHT_WRITE (ks_handles ks)) = Inr (obj1, r)"
    and idle: "ch_messages (cs_chan (ks_channels ks) (peer_ref r)) = []"
      "ch_waiters (cs_chan (ks_channels ks) (peer_ref r)) = []"
    and receiver: "fst (get_channel env p2 v2 ZX_RIGHT_READ (ks_handles ks1)) = Inr (obj2, peer_ref r)"
    and owner: "ch_owner (cs_chan (ks_channels ks) (peer_ref r)) = p2"
    and room: "n \<le> nb" "k \<le> nh" "user_range_ok dst 0 n"
  shows "\<exists>is vs' ks2. channel_read env p2 v2 0 dst nb nh True ks1 =
           Some (\<lparr>rr_status = ZX_OK, rr_bytes = user_bytes bytes n, rr_handles = vs'\<rparr>, ks2) \<and>
         distinct is \<and> moved (ks_handles ks) (ks_handles ks2) \<and>
         list_all2 (\<lambda>v i. finds (ks_handles ks) p1 v = Some i) vs is \<and>
         (\<forall>v \<in> set vs. finds (ks_handles ks1) p1 v = None) \<and>
         list_all2 (\<lambda>v i. finds (ks_handles ks2) p2 v = Some i) vs' is"
  using wr
proof (cases rule: sys_channel_write_ok)
  case (2 ks0)
  then show ?thesis using prepare_message_fails by blast
next
  case (1 r0 msg ks0)
  have "quiet (hs_events (ks_handles ks))" "\<And>us. user 0 k = Some us \<Longrightarrow> length us = k"
    using ev user by auto
  from prepare_message_ok [OF inv this(1) pids(1) this(2) 1(1)]
  obtain obj us "is" where p: "fst (get_channel env p1 v1 ZX_RIGHT_WRITE (ks_handles ks)) = Inr (obj, r0)"
    "packet_ok msg" "mp_payload msg = user_bytes bytes n" "mp_data_size msg = n" "mp_num_handles msg = k"
    "mp_handles msg = map Some is" "mp_owns_handles msg = (0 < k)" "length us = k"
    "0 < k \<Longrightarrow> user 0 k = Some us" "taken p1 us is (ks_handles ks) (ks_handles ks0)"
    "ks_channels ks0 = ks_channels ks" "hs_events (ks_handles ks0) = []" by metis
  have us: "us = vs" using p(8,9) user by (cases "k = 0") auto
  have r0: "r0 = r" using p(1) sender by simp
  have k: "length is = k" using p(2,5,6) by (simp add: packet_ok_def)
  let ?c = "channel_WriteSelf (peer_ref r) msg (ks_channels ks)"
  have c: "ch_messages (cs_chan ?c (peer_ref r)) = [msg]" "ch_owner (cs_chan ?c (peer_ref r)) = p2"
    using idle owner by (simp_all add: channel_WriteSelf_def reply_target_def Let_def)
  have ks1: "ks_handles ks1 = ks_handles ks0" "ks_channels ks1 = ?c"
    using 1(4) p(11) r0 by simp_all
  have tk: "taken p1 vs is (ks_handles ks) (ks_handles ks1)" using p(10) ks1 us by simp
  have "mp_owns_handles msg = (is \<noteq> [])" using p(7) k by auto
  with channel_read_head [of ks1 p2 env v2 obj2 "peer_ref r" msg "[]" nb nh dst "is"]
  obtain vs' ks2 where d: "channel_read env p2 v2 0 dst nb nh True ks1 =
      Some (\<lparr>rr_status = ZX_OK, rr_bytes = user_bytes bytes n, rr_handles = vs'\<rparr>, ks2)"
    "moved (ks_handles ks1) (ks_handles ks2)" "list_all2 (\<lambda>v i. finds (ks_handles ks2) p2 v = Some i) vs' is"
    using tk p(2-6,12) pids(2) receiver c ks1 room by (auto simp: taken_def)
  then show ?thesis
    using moved_trans [OF _ d(2)] tk by (auto simp: taken_def)
qed

section \<open>Handles are consumed\<close>

text \<open>
  The values \<open>vs\<close> no longer name anything for a process, and no other lookup of any process
  has changed.
\<close>

definition consumed :: "zx_koid_t \<Rightarrow> zx_handle_t list \<Rightarrow> hstate \<Rightarrow> hstate \<Rightarrow> bool" where
  "consumed pid vs h h' \<longleftrightarrow> hs_inv h' \<and> (\<forall>v \<in> set vs. v \<noteq> ZX_HANDLE_INVALID \<longrightarrow> finds h' pid v = None) \<and>
     (\<forall>q w. q \<noteq> 0 \<longrightarrow> finds h' q w = finds h q w \<or>
        finds h' q w = None \<and> (\<exists>v \<in> set vs. finds h pid v = finds h q w))"

lemma consumed_refl: "hs_inv h \<Longrightarrow> consumed pid [] h h"
  by (simp add: consumed_def)

lemma consumed_append:
  assumes "pid \<noteq> 0" "consumed pid vs h h1" "consumed pid us h1 h2"
  shows "consumed pid (vs @ us) h h2"
  unfolding consumed_def
proof (intro conjI ballI impI allI)
  show "hs_inv h2" using assms(3) by (simp add: consumed_def)
  show "finds h2 pid v = None" if "v \<in> set (vs @ us)" "v \<noteq> ZX_HANDLE_INVALID" for v
    using that assms unfolding consumed_def by (metis Un_iff set_append)
  fix q w
  assume q: "q \<noteq> (0 :: zx_koid_t)"
  have 1: "finds h1 q' w' = finds h q' w' \<or> finds h1 q' w' = None \<and> (\<exists>v \<in> set vs. finds h pid v = finds h q' w')"
    if "q' \<noteq> 0" for q' w'
    using assms(2) that unfolding consumed_def by blast
  have 2: "finds h2 q w = finds h1 q w \<or> finds h2 q w = None \<and> (\<exists>v \<in> set us. finds h1 pid v = finds h1 q w)"
    using assms(3) q unfolding consumed_def by blast
  show "finds h2 q w = finds h q w \<or> finds h2 q w = None \<and> (\<exists>v \<in> set (vs @ us). finds h pid v = finds h q w)"
    using 1 [OF q, of w] 2 1 [OF assms(1)] by (metis Un_iff set_append)
qed

lemma consumed_step:
  "pid \<noteq> 0 \<Longrightarrow> consumed pid vs h h1 \<Longrightarrow> consumed pid [] h1 h2 \<Longrightarrow> consumed pid vs h h2"
  using consumed_append by fastforce

lemma get_channel_consumed:
  "hs_inv h \<Longrightarrow> get_channel env pid v rights h = (x, h1) \<Longrightarrow> consumed p [] h h1"
  using get_channel_frame by (simp add: consumed_def)

lemma settle_consumed: "consumed pid vs h (ks_handles (settle env h' c)) = consumed pid vs h h'"
  by (simp add: consumed_def)

lemma remove_consumed:
  assumes "hs_inv h" "pid \<noteq> 0" "RemoveHandleLocked pid v h = (r, h')"
  shows "consumed pid [v] h h'"
proof -
  note x = RemoveHandleLocked_exact [OF assms]
  have "finds h' q w = finds h q w \<or> finds h' q w = None \<and> finds h pid v = finds h q w" if "q \<noteq> 0" for q w
    using x(1) x(3) [OF that, of w] by auto
  then show ?thesis
    using RemoveHandleLocked_inv(1) [OF assms] x(1) x(3) [OF assms(2), of v] by (simp add: consumed_def)
qed

lemma put_consumed:
  assumes "hs_inv h" "pid \<noteq> 0" "put_loop pid channel vs st h = (st', rs, h')"
  shows "consumed pid vs h h'"
  using assms(1,3)
proof (induction vs arbitrary: h st rs)
  case (Cons v vs)
  obtain r h1 where r: "RemoveHandleLocked pid v h = (r, h1)" by fastforce
  obtain st1 rs1 where p: "put_loop pid channel vs st1 h1 = (st', rs1, h')"
    using Cons.prems(2) r by (auto simp: Let_def split: prod.splits)
  have inv1: "hs_inv h1" by (rule RemoveHandleLocked_inv(1) [OF Cons.prems(1) assms(2) r])
  show ?case
    using consumed_append [OF assms(2) remove_consumed [OF Cons.prems(1) assms(2) r] Cons.IH [OF inv1 p]] by simp
qed (simp add: consumed_refl)

lemma delete_loose:
  assumes inv: "hs_inv h" and i: "loose h i" and d: "Handle_Delete waitable ok i h = Some h'"
  shows "consumed pid [] h h'" "loose h j \<Longrightarrow> j \<noteq> i \<Longrightarrow> loose h' j"
proof -
  have fl: "floating h i" using i by (simp add: loose_def)
  obtain hdl where m: "hs_mem h i = Live_slot hdl" "hd_process_id hdl = 0"
    using i by (auto simp: loose_def floating_def is_live_iff)
  obtain h1 where h1: "Handle_Delete waitable ok i h = Some h1" "hs_inv h1"
    "hs_mem h1 = (hs_mem h)(i := Free_slot (hd_base_value hdl))" "hs_procs h1 = hs_procs h"
    using d by (cases rule: Delete_cases [OF inv fl m(1), where waitable = waitable and map_ok = ok]) auto
  have h': "h' = h1" using d h1(1) by simp
  have "finds h1 q w = finds h q w" if q: "q \<noteq> 0" for q w
  proof (rule option_eqI)
    fix k
    have "MapHandleToValue q x h1 = MapHandleToValue q x h" for x by (simp add: MapHandleToValue_def h1(4))
    then show "finds h1 q w = Some k \<longleftrightarrow> finds h q w = Some k"
      using finds_iff [OF h1(2) q, of w k] finds_iff [OF inv q, of w k] h1(3) m q by (cases "k = i") auto
  qed
  then show "consumed pid [] h h'" using h1(2) by (simp add: consumed_def h')
  show "loose h j \<Longrightarrow> j \<noteq> i \<Longrightarrow> loose h' j" by (simp add: loose_def floating_def h' h1)
qed

lemma delete_all_consumed:
  assumes "hs_inv h" "pid \<noteq> 0" "distinct is" "\<forall>i \<in> set is. loose h i" "delete_all waitable ok is h = Some h'"
  shows "consumed pid [] h h'"
  using assms(1,3-5)
proof (induction "is" arbitrary: h)
  case (Cons i "is")
  obtain h1 where d: "Handle_Delete waitable (ok i) i h = Some h1" "delete_all waitable ok is h1 = Some h'"
    using Cons.prems(4) by (auto split: option.splits)
  have li: "loose h i" using Cons.prems(3) by simp
  note x = delete_loose [OF Cons.prems(1) li d(1)]
  have "\<forall>j \<in> set is. loose h1 j" using Cons.prems(2,3) x(2) by auto
  moreover have "hs_inv h1" using x(1) [of pid] by (simp add: consumed_def)
  ultimately have "consumed pid [] h1 h'"
    using Cons.IH [OF _ _ _ d(2)] Cons.prems(2) by simp
  then show ?case by (rule consumed_step [OF assms(2) x(1)])
qed (simp add: consumed_refl)

lemma remove_chunk_consumed:
  assumes "hs_inv h" "pid \<noteq> 0" "remove_chunk waitable ok pid vs st h = Some (st', h')"
  shows "consumed pid vs h h'"
  using assms(1,3)
proof (induction vs arbitrary: st h)
  case (Cons v vs)
  show ?case
  proof (cases "v = ZX_HANDLE_INVALID")
    case True
    then have "consumed pid vs h h'" using Cons by simp
    then show ?thesis using True by (auto simp: consumed_def)
  next
    case False
    obtain r h1 where r: "RemoveHandleLocked pid v h = (r, h1)" by fastforce
    note c1 = remove_consumed [OF Cons.prems(1) assms(2) r]
    obtain st2 h2 where h2: "consumed pid [v] h h2" "remove_chunk waitable ok pid vs st2 h2 = Some (st', h')"
    proof (cases r)
      case None
      then show ?thesis using that c1 Cons.prems(2) r False by simp
    next
      case (Some i)
      then obtain h2 where d: "Handle_Delete waitable (ok i) i h1 = Some h2"
        "remove_chunk waitable ok pid vs st h2 = Some (st', h')"
        using Cons.prems(2) r False by (auto split: option.splits)
      have "loose h1 i" by (rule RemoveHandleLocked_exact(4) [OF Cons.prems(1) assms(2) r Some])
      moreover have "hs_inv h1" using c1 by (simp add: consumed_def)
      ultimately show ?thesis
        using that consumed_step [OF assms(2) c1 delete_loose(1)] d by blast
    qed
    then have "hs_inv h2" by (simp add: consumed_def)
    then have "consumed pid vs h2 h'" using Cons.IH h2(2) by blast
    then show ?thesis using consumed_append [OF assms(2) h2(1)] by fastforce
  qed
qed (simp add: consumed_refl)

text \<open>A readable array of handle values in user memory.\<close>

definition user_array :: "zx_handle_t list \<Rightarrow> user_handles" where
  "user_array vs off n = Some (take n (drop off vs))"

lemma remove_loop_consumed:
  assumes "pid \<noteq> 0"
  shows "hs_inv h \<Longrightarrow> remove_handles_loop waitable ok pid (user_array vs) (length vs) off st h = Some (st', h') \<Longrightarrow>
    consumed pid (drop off vs) h h'"
proof (induction "length vs - off" arbitrary: off st h rule: less_induct)
  case less
  let ?n = "min (length vs - off) kMaxMessageHandles"
  show ?case
  proof (cases "off < length vs")
    case False
    then show ?thesis
      using less.prems by (subst (asm) remove_handles_loop.simps) (simp add: consumed_refl)
  next
    case True
    then have pos: "0 < ?n" by (simp add: kMaxMessageHandles_def)
    obtain st1 h1 where rc: "remove_chunk waitable ok pid (take ?n (drop off vs)) st h = Some (st1, h1)"
      and rest: "remove_handles_loop waitable ok pid (user_array vs) (length vs) (off + ?n) st1 h1 = Some (st', h')"
      using less.prems(2) True
      by (subst (asm) remove_handles_loop.simps) (auto simp: Let_def user_array_def split: option.splits)
    have c: "consumed pid (take ?n (drop off vs)) h h1"
      by (rule remove_chunk_consumed [OF less.prems(1) assms rc])
    have "consumed pid (drop (off + ?n) vs) h1 h'"
    proof (rule less.hyps [OF _ _ rest])
      show "length vs - (off + ?n) < length vs - off" using pos True by linarith
      show "hs_inv h1" using c by (simp add: consumed_def)
    qed
    from consumed_append [OF assms c this] show ?thesis
      by (metis add.commute append_take_drop_id drop_drop)
  qed
qed

lemma drop_handles_consumed:
  assumes "hs_inv h" "pid \<noteq> 0" "drop_handles env pid (user_array vs) (length vs) st h c = Some (st', ks')"
  shows "consumed pid vs h (ks_handles ks')"
proof -
  obtain st1 h1 where "RemoveHandles (ce_waitable env) (ce_map_ok env) pid (user_array vs) (length vs) h = Some (st1, h1)"
    "ks' = settle env h1 c"
    using assms(3) by (auto simp: drop_handles_def split: option.splits)
  then show ?thesis
    using remove_loop_consumed [OF assms(2,1), of _ _ vs 0] by (auto simp: RemoveHandles_def settle_consumed)
qed

lemma user_array_all [simp]: "user_array vs 0 (length vs) = Some vs"
  by (simp add: user_array_def)

lemma some_handles: "Some i \<in> set rs \<longleftrightarrow> i \<in> set (map the (filter (\<lambda>r. r \<noteq> None) rs))"
  by (induction rs) auto

lemma distinct_some_handles: "distinct (filter (\<lambda>r. r \<noteq> None) rs) \<Longrightarrow> distinct (map the (filter (\<lambda>r. r \<noteq> None) rs))"
  by (induction rs) (auto simp: some_handles [symmetric])

lemma destroy_consumed:
  assumes "hs_inv (ks_handles ks)" "pid \<noteq> 0" "distinct (filter (\<lambda>r. r \<noteq> None) (mp_handles msg))"
    "\<forall>i. Some i \<in> set (mp_handles msg) \<longrightarrow> loose (ks_handles ks) i" "destroy_packet env msg ks = Some ks'"
  shows "consumed pid [] (ks_handles ks) (ks_handles ks')"
proof -
  obtain h' where d: "delete_all (ce_waitable env) (ce_map_ok env) (fst (MessagePacket_recycle msg)) (ks_handles ks) = Some h'"
    "ks' = settle env h' (ks_channels ks)"
    using assms(5) by (auto simp: destroy_packet_def split: option.splits)
  have "distinct (fst (MessagePacket_recycle msg))" "\<forall>i \<in> set (fst (MessagePacket_recycle msg)). loose (ks_handles ks) i"
    using assms(3,4) distinct_some_handles by (auto simp: MessagePacket_recycle_def some_handles)
  from delete_all_consumed [OF assms(1,2) this d(1)] show ?thesis
    by (simp add: d(2) settle_consumed)
qed

lemma prepare_message_consumed:
  assumes inv: "hs_inv (ks_handles ks)" and pid: "pid \<noteq> 0"
    and prep: "prepare_message env pmm_ok mem pid hv rights bytes n (user_array vs) (length vs) ks = Some (x, ks1)"
  shows "consumed pid vs (ks_handles ks) (ks_handles ks1)"
proof -
  obtain g h1 where g: "get_channel env pid hv rights (ks_handles ks) = (g, h1)" by fastforce
  note c1 = get_channel_consumed [OF inv g, of pid]
  have inv1: "hs_inv h1" using c1 by (simp add: consumed_def)
  consider (drop) st st' where "drop_handles env pid (user_array vs) (length vs) st h1 (ks_channels ks) = Some (st', ks1)"
    | (none) "vs = []" "ks1 = settle env h1 (ks_channels ks)"
    | (put) obj m st rs h2 where "put_loop pid obj vs ZX_OK h1 = (st, rs, h2)"
        "st = ZX_OK \<and> ks1 = settle env h2 (ks_channels ks) \<or>
         destroy_packet env (set_owns_handles True (m\<lparr>mp_handles := rs\<rparr>)) (settle env h2 (ks_channels ks)) = Some ks1"
    using prep g
    by (auto simp: prepare_message_def msg_put_handles_def Let_def map_option_case
        split: sum.splits option.splits if_splits prod.splits)
  then show ?thesis
  proof cases
    case drop
    then have "consumed pid vs h1 (ks_handles ks1)" by (rule drop_handles_consumed [OF inv1 pid])
    then show ?thesis using consumed_append [OF pid c1] by fastforce
  next
    case none
    then show ?thesis using c1 by (simp add: settle_consumed)
  next
    case put
    have "consumed pid vs (ks_handles ks) h2"
      using consumed_append [OF pid c1 put_consumed [OF inv1 pid put(1)]] by simp
    moreover have "consumed pid [] h2 (ks_handles ks1)" if
      "destroy_packet env (set_owns_handles True (m\<lparr>mp_handles := rs\<rparr>)) (settle env h2 (ks_channels ks)) = Some ks1"
    proof -
      have "consumed pid [] (ks_handles (settle env h2 (ks_channels ks))) (ks_handles ks1)"
        by (rule destroy_consumed [OF _ pid _ _ that])
           (use put_loop_inv [OF inv1 pid put(1)] in \<open>simp_all add: set_owns_handles_def\<close>)
      then show ?thesis by (simp add: consumed_def)
    qed
    ultimately show ?thesis
      using put(2) consumed_step [OF pid] by (auto simp: settle_consumed)
  qed
qed

lemma sys_channel_write_consumed:
  assumes inv: "hs_inv (ks_handles ks)" and ev: "hs_events (ks_handles ks) = []" and pid: "pid \<noteq> 0"
    and wr: "sys_channel_write env pmm_ok mem pid hv opts bytes n (user_array vs) (length vs) ks = Some (st, ks1)"
  shows "consumed pid vs (ks_handles ks) (ks_handles ks1)"
proof -
  consider (drop) st' where
      "drop_handles env pid (user_array vs) (length vs) st' (ks_handles ks) (ks_channels ks) = Some (st, ks1)"
    | (prep) x where "prepare_message env pmm_ok mem pid hv ZX_RIGHT_WRITE bytes n (user_array vs) (length vs) ks = Some (x, ks1)"
    | (sent) r msg ks0 c where
        "prepare_message env pmm_ok mem pid hv ZX_RIGHT_WRITE bytes n (user_array vs) (length vs) ks = Some (Inr (r, msg), ks0)"
        "ks1 = ks0\<lparr>ks_channels := c\<rparr> \<or> destroy_packet env msg ks0 = Some ks1"
    using wr
    by (auto simp: sys_channel_write_def Let_def map_option_case split: if_splits option.splits sum.splits prod.splits)
  then show ?thesis
  proof cases
    case drop
    then show ?thesis by (rule drop_handles_consumed [OF inv pid])
  next
    case prep
    then show ?thesis by (rule prepare_message_consumed [OF inv pid])
  next
    case sent
    note c = prepare_message_consumed [OF inv pid sent(1)]
    have qt: "quiet (hs_events (ks_handles ks))" using ev by simp
    obtain vs' js where m: "mp_handles msg = map Some js" "taken pid vs' js (ks_handles ks) (ks_handles ks0)"
      using prepare_message_ok [OF inv qt pid _ sent(1)] by (metis option.inject user_array_all)
    have "filter (\<lambda>r. r \<noteq> None) (map Some js) = map Some js" by (induction js) auto
    then have "consumed pid [] (ks_handles ks0) (ks_handles ks1)" if "destroy_packet env msg ks0 = Some ks1"
      using m by (intro destroy_consumed [OF _ pid _ _ that]) (auto simp: taken_def distinct_map)
    then show ?thesis using sent(2) c consumed_step [OF pid c] by auto
  qed
qed


section \<open>When a write succeeds\<close>

lemma get_channel_found:
  assumes "finds h pid v = Some i" "slot_key (hs_mem h i) = Some (obj, rights, b)"
    "rights AND want = want" "ce_endpoint env obj = Some r"
  shows "fst (get_channel env pid v want h) = Inr (obj, r)"
proof -
  obtain h1 where g: "GetHandleLocked pid v False h = (Some i, h1)"
    using assms(1) GetHandleLocked_finds [of pid v False h] by (cases "GetHandleLocked pid v False h") auto
  then have "h1 = h" using GetHandleLocked_frame(5) [OF g] by simp
  moreover obtain hdl where "hs_mem h i = Live_slot hdl" "hd_dispatcher hdl = obj" "hd_rights hdl = rights"
    using assms(2) by (cases "hs_mem h i") auto
  ultimately show ?thesis
    using g assms(3,4) by (simp add: get_channel_def GetDispatcherWithRightsInternal_def HasRights_def)
qed

text \<open>A handle that may be put into a message on the channel object \<open>channel\<close>.\<close>

definition sendable :: "nat \<Rightarrow> hstate \<Rightarrow> nat \<Rightarrow> bool" where
  "sendable channel h i \<longleftrightarrow>
     (\<exists>obj rights b. slot_key (hs_mem h i) = Some (obj, rights, b) \<and>
        rights AND ZX_RIGHT_TRANSFER = ZX_RIGHT_TRANSFER \<and> obj \<noteq> channel)"

lemma put_loop_ok:
  assumes "hs_inv h" "pid \<noteq> 0" "list_all2 (\<lambda>v i. finds h pid v = Some i) vs is" "distinct is"
    "\<forall>i \<in> set is. sendable channel h i"
  shows "\<exists>h'. put_loop pid channel vs ZX_OK h = (ZX_OK, map Some is, h')"
  using assms(1,3-5)
proof (induction vs arbitrary: h "is")
  case (Cons v vs)
  obtain i is' where i: "is = i # is'" "finds h pid v = Some i" "list_all2 (\<lambda>v i. finds h pid v = Some i) vs is'"
    using Cons.prems(2) by (auto simp: list_all2_Cons1)
  obtain r h1 where r: "RemoveHandleLocked pid v h = (r, h1)" by fastforce
  note x = RemoveHandleLocked_exact [OF Cons.prems(1) assms(2) r]
  have inv1: "hs_inv h1" by (rule RemoveHandleLocked_inv(1) [OF Cons.prems(1) assms(2) r])
  have key: "slot_key (hs_mem h1 j) = slot_key (hs_mem h j)" for j
    using x(2) by (simp add: moved_def)
  have ri: "r = Some i" using x(1) i(2) by simp
  have st: "put_status channel r h1 = ZX_OK"
    using Cons.prems(4) key [of i] i(1) unfolding ri sendable_def
    by (cases "hs_mem h1 i") (auto simp: put_status_def HasRights_def)
  have "list_all2 (\<lambda>v i. finds h1 pid v = Some i) vs is'"
    using i(1,3) Cons.prems(3) x(3) [OF assms(2)] ri by (auto simp: list_all2_conv_all_nth)
  then obtain h' where "put_loop pid channel vs ZX_OK h1 = (ZX_OK, map Some is', h')"
    using Cons.IH [OF inv1, of is'] Cons.prems(3,4) i(1) key by (auto simp: sendable_def)
  then show ?case using r st by (simp add: i(1) ri)
qed simp

lemma sys_channel_write_succeeds:
  assumes inv: "hs_inv (ks_handles ks)" and ev: "hs_events (ks_handles ks) = []" and pid: "pid \<noteq> 0"
    and ch: "fst (get_channel env pid hv ZX_RIGHT_WRITE (ks_handles ks)) = Inr (obj, r)"
    and sizes: "n \<le> kMaxMessageSize" "length vs \<le> kMaxMessageHandles" "user_range_ok bytes 0 n"
    and hs: "list_all2 (\<lambda>v i. finds (ks_handles ks) pid v = Some i) vs is" "distinct is"
      "\<forall>i \<in> set is. sendable obj (ks_handles ks) i"
    and c: "ch_owner (cs_chan (ks_channels ks) r) = pid" "ch_peer (cs_chan (ks_channels ks) r)"
  shows "\<exists>ks1. sys_channel_write env True mem pid hv 0 bytes n (user_array vs) (length vs) ks = Some (ZX_OK, ks1)"
proof -
  obtain h1 where g: "get_channel env pid hv ZX_RIGHT_WRITE (ks_handles ks) = (Inr (obj, r), h1)"
    using ch by (metis prod.collapse)
  note fr = get_channel_frame [OF g]
  have q1: "quiet (hs_events h1)" using fr(5) ev by simp
  have "MessagePacket_CreateCommon True mem n (length vs) \<noteq> Inl st" for st
    unfolding CreateCommon_status using sizes by (auto simp: packet_create_status_def)
  then obtain m0 where m0: "MessagePacket_CreateCommon True mem n (length vs) = Inr m0"
    by (metis sum.exhaust)
  from serves_user [of bytes] m0 have "\<exists>m. MessagePacket_Create True mem bytes n (length vs) = Inr m"
    by (rule Create_with_cases) (use sizes(3) in \<open>auto simp: MessagePacket_Create_def CopyIn_def\<close>)
  then obtain m where m: "MessagePacket_Create True mem bytes n (length vs) = Inr m" by blast
  have "list_all2 (\<lambda>v i. finds h1 pid v = Some i) vs is" "\<forall>i \<in> set is. sendable obj h1 i"
    using hs fr(2,3) by (auto simp: sendable_def moved_def)
  then obtain h2 where p: "put_loop pid obj vs ZX_OK h1 = (ZX_OK, map Some is, h2)"
    using put_loop_ok [of h1 pid vs "is" obj] fr(1) inv pid hs(2) by blast
  let ?msg = "if 0 < length vs then set_owns_handles True (m\<lparr>mp_handles := map Some is\<rparr>) else m"
  let ?ks = "settle env (if 0 < length vs then h2 else h1) (ks_channels ks)"
  have "prepare_message env True mem pid hv ZX_RIGHT_WRITE bytes n (user_array vs) (length vs) ks = Some (Inr (r, ?msg), ?ks)"
    using g m p by (simp add: prepare_message_def msg_put_handles_def)
  moreover have "ks_channels ?ks = ks_channels ks"
    using q1 put_loop_quiet [OF p q1] by (simp add: quiet_settle)
  ultimately show ?thesis
    using c by (simp add: sys_channel_write_def channel_Write_def Let_def)
qed

section \<open>A run on concrete values\<close>

text \<open>
  Process 1030 has one end of a channel and a handle to object 3 that it may transfer, process 1031 the other
  end.
\<close>

definition kw_arena :: "nat \<Rightarrow> arena" where
  "kw_arena n = (hw_arena 1)\<lparr>ar_data := (ar_data (hw_arena 1))\<lparr>pool_top := n * sizeof_Handle\<rparr>, ar_count := n\<rparr>"

definition kw_add :: "nat \<Rightarrow> zx_rights_t \<Rightarrow> zx_koid_t \<Rightarrow> hstate \<Rightarrow> hstate" where
  "kw_add obj rights pid s =
     (case Handle_Make True obj rights s of Some (Some i, s1) \<Rightarrow> AddHandleLocked pid i s1 | _ \<Rightarrow> s)"

definition kw_handles :: hstate where
  "kw_handles = kw_add 1 12 1031 (kw_add 3 2 1030 (kw_add 0 12 1030 hw_start))"

definition kw_state :: kernel_state where
  "kw_state = \<lparr>ks_handles = kw_handles\<lparr>hs_events := []\<rparr>,
     ks_channels = channel_set_owner (0, Side1) 1031 (channel_set_owner (0, Side0) 1030 (chan_init (\<lambda>k x. 9)))\<rparr>"

definition kw_env :: call_env where
  "kw_env = \<lparr>ce_waitable = (\<lambda>_. True), ce_map_ok = (\<lambda>_. True),
             ce_endpoint = (\<lambda>obj. if obj = 0 then Some (0, Side0) else if obj = 1 then Some (0, Side1) else None)\<rparr>"

definition kw_mem :: fresh_memory where
  "kw_mem = \<lparr>fm_page = (\<lambda>i. \<lparr>pg_paddr = 0, pg_bytes = (\<lambda>i. 0)\<rparr>), fm_handle = (\<lambda>i. None)\<rparr>"

definition kw_user :: user_ptr where
  "kw_user = \<lparr>ub_byte = of_nat, ub_ok = (\<lambda>i. True)\<rparr>"

lemma kw_add_inv: "hs_inv s \<Longrightarrow> hs_inv (kw_add obj rights pid s)"
  by (auto simp: kw_add_def split: option.split intro!: AddHandleLocked_inv dest: Make_inv)

lemma kw_inv: "hs_inv (ks_handles kw_state)" "hs_events (ks_handles kw_state) = []"
proof -
  have "hs_inv hw_start" unfolding hw_start_def by (rule hs_start_inv [OF hw_init])
  then have inv: "hs_inv kw_handles" unfolding kw_handles_def by (intro kw_add_inv)
  show "hs_inv (ks_handles kw_state)"
    using hs_inv_cong(1) [of "ks_handles kw_state" kw_handles] inv by (simp add: kw_state_def)
  show "hs_events (ks_handles kw_state) = []" by (simp add: kw_state_def)
qed

lemma kw_alloc:
  "Arena_Alloc True (hw_arena 0) = Some (Some 0, kw_arena 1)" "Arena_Alloc True (kw_arena 1) = Some (Some 40, kw_arena 2)"
  "Arena_Alloc True (kw_arena 2) = Some (Some 80, kw_arena 3)"
  by (simp_all add: Arena_Alloc_def kw_arena_def hw_arena_def Pool_Pop_def Pool_Init_def sizeof_Handle_def kMaxHandleCount_def
      kPoolCommitIncrease_def PAGE_SIZE_def)

lemma kw_base: "GetNewBaseValue 0 0 = 0x40000" "GetNewBaseValue 40 0 = 0x40001" "GetNewBaseValue 80 0 = 0x40002"
  by (simp_all add: GetNewBaseValue_eq base_gen_def HandleToIndex_def sizeof_Handle_def)

lemma kw_slots:
  "hs_mem kw_handles = (\<lambda>i. Free_slot 0)
     (0 := Live_slot \<lparr>hd_process_id = 1030, hd_dispatcher = 0, hd_rights = 12, hd_base_value = 0x40000\<rparr>,
      1 := Live_slot \<lparr>hd_process_id = 1030, hd_dispatcher = 3, hd_rights = 2, hd_base_value = 0x40001\<rparr>,
      2 := Live_slot \<lparr>hd_process_id = 1031, hd_dispatcher = 1, hd_rights = 12, hd_base_value = 0x40002\<rparr>)"
  "hp_handle_rand (hs_procs kw_handles pid) = 0"
  by (simp_all add: kw_handles_def kw_add_def Handle_Make_def Handle_Alloc_def hw_start_def hs_start_def kw_alloc [unfolded One_nat_def] kw_base hs_log_def
      HandleToIndex_def sizeof_Handle_def AddHandleLocked_def set_process_id_def set_handles_def process_handle_rand_def Let_def)

lemma sys_channel_write_moved:
  assumes inv: "hs_inv (ks_handles ks)" and ev: "hs_events (ks_handles ks) = []" and pid: "pid \<noteq> 0"
    and wr: "sys_channel_write env pmm_ok mem pid hv opts bytes n (user_array vs) (length vs) ks = Some (ZX_OK, ks1)"
  shows "moved (ks_handles ks) (ks_handles ks1)"
  using wr
proof (cases rule: sys_channel_write_ok)
  case (2 ks0)
  then show ?thesis using prepare_message_fails by blast
next
  case (1 r msg ks0)
  have q: "quiet (hs_events (ks_handles ks))" "\<And>us. user_array vs 0 (length vs) = Some us \<Longrightarrow> length us = length vs"
    using ev by auto
  obtain us "is" where "taken pid us is (ks_handles ks) (ks_handles ks0)"
    by (rule prepare_message_ok [OF inv q(1) pid q(2) 1(1)]) blast+
  then show ?thesis using 1(4) by (simp add: taken_def)
qed

lemma consumed_other:
  assumes "consumed pid vs h h'" "q \<noteq> 0" "\<forall>v \<in> set vs. finds h pid v \<noteq> finds h q w"
  shows "finds h' q w = finds h q w"
  using assms unfolding consumed_def by blast

lemma kw_finds:
  "finds (ks_handles kw_state) 1030 0x80001 = Some 0" "finds (ks_handles kw_state) 1030 0x80003 = Some 1"
  "finds (ks_handles kw_state) 1031 0x80005 = Some 2"
  by (simp_all add: finds_iff kw_inv) (simp_all add: kw_state_def kw_slots MapHandleToValue_def map_handle_to_value_def)

lemma kw_key:
  "slot_key (hs_mem (ks_handles kw_state) 0) = Some (0, 12, 0x40000)"
  "slot_key (hs_mem (ks_handles kw_state) (Suc 0)) = Some (3, 2, 0x40001)"
  "slot_key (hs_mem (ks_handles kw_state) 2) = Some (1, 12, 0x40002)"
  by (simp_all add: kw_state_def kw_slots)

lemma kw_chan:
  "ch_owner (cs_chan (ks_channels kw_state) (0, Side0)) = 1030" "ch_owner (cs_chan (ks_channels kw_state) (0, Side1)) = 1031"
  "ch_peer (cs_chan (ks_channels kw_state) (0, Side0))" "ch_messages (cs_chan (ks_channels kw_state) (0, Side1)) = []"
  "ch_waiters (cs_chan (ks_channels kw_state) (0, Side1)) = []"
  by (simp_all add: kw_state_def channel_set_owner_def chan_init_def new_channel_def)

lemma kw_sender: "fst (get_channel kw_env 1030 0x80001 ZX_RIGHT_WRITE (ks_handles kw_state)) = Inr (0, (0, Side0))"
  by (rule get_channel_found [OF kw_finds(1) kw_key(1)]) (simp_all add: kw_env_def ZX_RIGHT_WRITE_def)

lemma kw_write:
  "\<exists>ks1. sys_channel_write kw_env True kw_mem 1030 0x80001 0 kw_user 40 (user_array [0x80003]) 1 kw_state = Some (ZX_OK, ks1)"
proof -
  have "sendable 0 (ks_handles kw_state) (Suc 0)"
    by (simp add: sendable_def kw_key ZX_RIGHT_TRANSFER_def)
  moreover have "user_range_ok kw_user 0 40"
    by (simp add: kw_user_def user_range_ok_def list_all_iff)
  ultimately show ?thesis
    using sys_channel_write_succeeds [OF kw_inv _ kw_sender, of 40 "[0x80003]" kw_user "[1]" kw_mem] kw_finds(2) kw_chan
    by (simp add: kMaxMessageSize_def kMaxMessageHandles_def)
qed

lemma kw_receiver:
  assumes "sys_channel_write kw_env True kw_mem 1030 0x80001 0 kw_user 40 (user_array [0x80003]) 1 kw_state = Some (ZX_OK, ks1)"
  shows "fst (get_channel kw_env 1031 0x80005 ZX_RIGHT_READ (ks_handles ks1)) = Inr (1, (0, Side1))"
proof -
  have wr: "sys_channel_write kw_env True kw_mem 1030 0x80001 0 kw_user 40 (user_array [0x80003]) (length [0x80003::zx_handle_t]) kw_state =
      Some (ZX_OK, ks1)" using assms by simp
  have "finds (ks_handles ks1) 1031 0x80005 = Some 2"
    using consumed_other [OF sys_channel_write_consumed [OF kw_inv _ wr], where q = 1031 and w = "0x80005"] kw_finds by simp
  moreover have "slot_key (hs_mem (ks_handles ks1) 2) = Some (1, 12, 0x40002)"
    using sys_channel_write_moved [OF kw_inv _ wr] kw_key(3) by (simp add: moved_def)
  ultimately show ?thesis
    by (rule get_channel_found) (simp_all add: kw_env_def ZX_RIGHT_READ_def)
qed

theorem message_with_handles_travels_witness:
  "\<exists>ks1 ks2 v'. sys_channel_write kw_env True kw_mem 1030 0x80001 0 kw_user 40 (user_array [0x80003]) 1 kw_state = Some (ZX_OK, ks1) \<and>
     channel_read kw_env 1031 0x80005 0 kw_user 64 1 True ks1 =
       Some (\<lparr>rr_status = ZX_OK, rr_bytes = map of_nat [0..<40], rr_handles = [v']\<rparr>, ks2) \<and>
     finds (ks_handles ks1) 1030 0x80003 = None \<and> finds (ks_handles ks2) 1031 v' = Some 1"
proof -
  obtain ks1 where wr: "sys_channel_write kw_env True kw_mem 1030 0x80001 0 kw_user 40 (user_array [0x80003]) 1 kw_state = Some (ZX_OK, ks1)"
    using kw_write by blast
  have "\<exists>is vs' ks2. channel_read kw_env 1031 0x80005 0 kw_user 64 1 True ks1 =
      Some (\<lparr>rr_status = ZX_OK, rr_bytes = user_bytes kw_user 40, rr_handles = vs'\<rparr>, ks2) \<and>
    distinct is \<and> moved (ks_handles kw_state) (ks_handles ks2) \<and>
    list_all2 (\<lambda>v i. finds (ks_handles kw_state) 1030 v = Some i) [0x80003] is \<and>
    (\<forall>v \<in> set [0x80003]. finds (ks_handles ks1) 1030 v = None) \<and>
    list_all2 (\<lambda>v i. finds (ks_handles ks2) 1031 v = Some i) vs' is"
    by (rule message_with_handles_travels [OF kw_inv _ _ _ _ wr kw_sender _ _ _ _ _ _ _])
       (use kw_receiver [OF wr] kw_chan in \<open>simp_all add: user_array_def kw_user_def user_range_ok_def list_all_iff\<close>)
  then show ?thesis
    using wr kw_finds(2) by (force simp: list_all2_Cons1 list_all2_Cons2 user_bytes_def kw_user_def)
qed


end
