(* ===== verification/Fifo.thy ===== *)
theory Fifo
  imports Dispatcher
begin

text \<open>
  Fifos (\<^verbatim>\<open>kernel/object/fifo_dispatcher.cpp\<close>): a pair of endpoints, each holding a
  ring of \<open>elem_count\<close> fixed-size elements that the other endpoint fills. \<^verbatim>\<open>head_\<close> and
  \<^verbatim>\<open>tail_\<close> are free-running 32-bit counters that wrap around; the slot of a counter is
  its low bits. The ring's bytes are a function from byte offset to byte, of which the
  code touches the offsets below \<open>elem_count * elem_size\<close> only
  (\<open>slot_index_less\<close>).
\<close>

section \<open>Constants and state\<close>

definition ZX_FIFO_READABLE :: zx_signals_t where
  [sig_defs]: "ZX_FIFO_READABLE = ZX_OBJECT_READABLE"

definition ZX_FIFO_WRITABLE :: zx_signals_t where
  [sig_defs]: "ZX_FIFO_WRITABLE = ZX_OBJECT_WRITABLE"

definition ZX_FIFO_PEER_CLOSED :: zx_signals_t where
  [sig_defs]: "ZX_FIFO_PEER_CLOSED = ZX_OBJECT_PEER_CLOSED"

text \<open>\<^verbatim>\<open>kMaxSizeBytes\<close> is \<^verbatim>\<open>PAGE_SIZE\<close>.\<close>

definition fifo_kMaxSizeBytes :: "64 word" where
  [const_defs]: "fifo_kMaxSizeBytes = 4096"

record fifo = dispatcher +
  fifo_peer :: bool
  elem_count :: "32 word"
  elem_size :: "32 word"
  fifo_mask :: "32 word"
  fifo_head :: "32 word"
  fifo_tail :: "32 word"
  fifo_data :: "nat \<Rightarrow> byte"

type_synonym fifo_pair = "side \<Rightarrow> fifo"

section \<open>Operations\<close>

definition new_fifo :: "zx_koid_t \<Rightarrow> 32 word \<Rightarrow> 32 word \<Rightarrow> (nat \<Rightarrow> byte) \<Rightarrow> fifo" where
  "new_fifo koid num esize data =
     \<lparr>obj_koid = koid, obj_handle_count = 0, obj_signals = ZX_FIFO_WRITABLE, state_changes = [],
      fifo_peer = True, elem_count = num, elem_size = esize, fifo_mask = num - 1,
      fifo_head = 0, fifo_tail = 0, fifo_data = data\<rparr>"

text \<open>
  \<^verbatim>\<open>FifoDispatcher::Create\<close>. The five allocations may fail, which the argument
  \<open>alloc_ok\<close> says (holder, data0, fifo0, data1, fifo1). Sizes are \<^verbatim>\<open>size_t\<close>, so the
  product is taken modulo \<open>2 ^ 64\<close>. \<open>data0\<close> and \<open>data1\<close> are the uninitialised arrays.
\<close>

definition FifoDispatcher_Create ::
    "bool list \<Rightarrow> zx_koid_t \<Rightarrow> zx_koid_t \<Rightarrow> (nat \<Rightarrow> byte) \<Rightarrow> (nat \<Rightarrow> byte) \<Rightarrow> 64 word \<Rightarrow> 64 word
       \<Rightarrow> zx_status_t + fifo_pair" where
  "FifoDispatcher_Create alloc_ok koid0 koid1 data0 data1 num elemsize =
     (if num = 0 \<or> elemsize = 0 \<or> num AND (num - 1) \<noteq> 0 \<or>
         num > fifo_kMaxSizeBytes \<or> elemsize > fifo_kMaxSizeBytes \<or>
         num * elemsize > fifo_kMaxSizeBytes
      then Inl ZX_ERR_OUT_OF_RANGE
      else if \<not> list_all id alloc_ok then Inl ZX_ERR_NO_MEMORY
      else Inr (\<lambda>x. case x of
                  Side0 \<Rightarrow> new_fifo koid0 (ucast num) (ucast elemsize) data0
                | Side1 \<Rightarrow> new_fifo koid1 (ucast num) (ucast elemsize) data1))"

definition fifo_update :: "side \<Rightarrow> zx_signals_t \<Rightarrow> zx_signals_t \<Rightarrow> fifo_pair \<Rightarrow> fifo_pair" where
  "fifo_update x c t p = p(x := UpdateStateLocked c t (p x))"

definition fifo_on_zero_handles_locked :: "side \<Rightarrow> fifo_pair \<Rightarrow> fifo_pair" where
  "fifo_on_zero_handles_locked x p = p"

definition fifo_OnPeerZeroHandlesLocked :: "side \<Rightarrow> fifo_pair \<Rightarrow> fifo_pair" where
  "fifo_OnPeerZeroHandlesLocked x p = fifo_update x ZX_FIFO_WRITABLE ZX_FIFO_PEER_CLOSED p"

definition fifo_has_peer :: "side \<Rightarrow> fifo_pair \<Rightarrow> bool" where
  "fifo_has_peer x p = fifo_peer (p x)"

definition fifo_reset_peer :: "side \<Rightarrow> fifo_pair \<Rightarrow> fifo_pair" where
  "fifo_reset_peer x p = p(x := (p x)\<lparr>fifo_peer := False\<rparr>)"

abbreviation fifo_close :: "side \<Rightarrow> fifo_pair \<Rightarrow> fifo_pair" where
  "fifo_close \<equiv> on_zero_handles fifo_has_peer fifo_reset_peer fifo_on_zero_handles_locked
                   fifo_OnPeerZeroHandlesLocked"

text \<open>
  The copy loop of \<^verbatim>\<open>WriteSelfLocked\<close>: the state is the remaining count, the head, the
  ring and the offset of \<^verbatim>\<open>ptr\<close> in the user buffer. The first component of the
  result is False when a copy faulted. The loop ends because each round copies at least one element, or because the count is
  exhausted; \<open>n\<close> is never zero while \<open>offset < elem_count\<close>, which \<open>ring_offset\<close>
  shows for every well-formed fifo, and the guard \<open>n = 0\<close> below only makes the function
  total on states no fifo reaches.
\<close>

function fifo_write_loop ::
    "32 word \<Rightarrow> 32 word \<Rightarrow> 32 word \<Rightarrow> user_ptr \<Rightarrow> nat \<Rightarrow> 32 word \<Rightarrow> (nat \<Rightarrow> byte) \<Rightarrow> nat
       \<Rightarrow> bool \<times> 32 word \<times> (nat \<Rightarrow> byte)" where
  "fifo_write_loop ecount esize msk ptr num head data pos =
     (if num = 0 then (True, head, data)
      else let offset = head AND msk;
               n = unat (ecount - offset);
               to_copy = (if num > n then n else num)
           in if n = 0 then (False, head, data)
              else case copy_array_from_user ptr pos (to_copy * unat esize) of
                     None \<Rightarrow> (False, head, data)
                   | Some bs \<Rightarrow>
                       fifo_write_loop ecount esize msk ptr (num - to_copy)
                         (head + of_nat to_copy)
                         (blit data (unat offset * unat esize) bs)
                         (pos + to_copy * unat esize))"
  by pat_completeness auto
termination
  by (relation "measure (\<lambda>(ec, es, m, p, num, h, d, pos). num)") auto

declare fifo_write_loop.simps [simp del]

text \<open>
  \<^verbatim>\<open>WriteSelfLocked\<close>, called on the endpoint \<open>x\<close> that receives. The result carries
  the status, the number of elements written and the new pair.
\<close>

definition fifo_WriteSelfLocked ::
    "side \<Rightarrow> 64 word \<Rightarrow> user_ptr \<Rightarrow> 64 word \<Rightarrow> fifo_pair \<Rightarrow> (zx_status_t + nat) \<times> fifo_pair" where
  "fifo_WriteSelfLocked x esize ptr num p =
     (let f = p x in
      if esize \<noteq> ucast (elem_size f) then (Inl ZX_ERR_OUT_OF_RANGE, p)
      else if num = 0 then (Inl ZX_ERR_OUT_OF_RANGE, p)
      else
        let old_head = fifo_head f;
            avail = unat (elem_count f - (fifo_head f - fifo_tail f))
        in if avail = 0 then (Inl ZX_ERR_SHOULD_WAIT, p)
           else
             let was_empty = (avail = unat (elem_count f));
                 cnt = (if unat num > avail then avail else unat num)
             in case fifo_write_loop (elem_count f) (elem_size f) (fifo_mask f) ptr cnt
                       (fifo_head f) (fifo_data f) 0 of
                  (False, _, data') \<Rightarrow>
                    (Inl ZX_ERR_INVALID_ARGS, p(x := f\<lparr>fifo_head := old_head, fifo_data := data'\<rparr>))
                | (True, head', data') \<Rightarrow>
                    let p1 = p(x := f\<lparr>fifo_head := head', fifo_data := data'\<rparr>);
                        p2 = (if was_empty then fifo_update x 0 ZX_FIFO_READABLE p1 else p1);
                        p3 = (if elem_count f = head' - fifo_tail f
                              then fifo_update (peer_of x) ZX_FIFO_WRITABLE 0 p2 else p2)
                    in (Inr (unat (head' - old_head)), p3))"

definition fifo_WriteFromUser ::
    "side \<Rightarrow> 64 word \<Rightarrow> user_ptr \<Rightarrow> 64 word \<Rightarrow> fifo_pair \<Rightarrow> (zx_status_t + nat) \<times> fifo_pair" where
  "fifo_WriteFromUser x esize ptr num p =
     (if \<not> fifo_peer (p x) then (Inl ZX_ERR_PEER_CLOSED, p)
      else fifo_WriteSelfLocked (peer_of x) esize ptr num p)"

text \<open>
  The copy loop of \<^verbatim>\<open>ReadToUser\<close>; it returns the new tail and the bytes copied out.
\<close>

function fifo_read_loop ::
    "32 word \<Rightarrow> 32 word \<Rightarrow> 32 word \<Rightarrow> user_ptr \<Rightarrow> (nat \<Rightarrow> byte) \<Rightarrow> nat \<Rightarrow> 32 word \<Rightarrow> nat \<Rightarrow> byte list
       \<Rightarrow> (32 word \<times> byte list) option" where
  "fifo_read_loop ecount esize msk ptr data num tail pos out =
     (if num = 0 then Some (tail, out)
      else let offset = tail AND msk;
               n = unat (ecount - offset);
               to_copy = (if num > n then n else num)
           in if n = 0 then None
              else if \<not> user_range_ok ptr pos (to_copy * unat esize) then None
              else fifo_read_loop ecount esize msk ptr data (num - to_copy)
                     (tail + of_nat to_copy) (pos + to_copy * unat esize)
                     (out @ map data [unat offset * unat esize ..<
                                      unat offset * unat esize + to_copy * unat esize]))"
  by pat_completeness auto
termination
  by (relation "measure (\<lambda>(ec, es, m, p, d, num, t, pos, out). num)") auto

declare fifo_read_loop.simps [simp del]

definition fifo_ReadToUser ::
    "side \<Rightarrow> 64 word \<Rightarrow> user_ptr \<Rightarrow> 64 word \<Rightarrow> fifo_pair \<Rightarrow> (zx_status_t + nat \<times> byte list) \<times> fifo_pair" where
  "fifo_ReadToUser x esize ptr num p =
     (let f = p x in
      if esize \<noteq> ucast (elem_size f) then (Inl ZX_ERR_OUT_OF_RANGE, p)
      else if num = 0 then (Inl ZX_ERR_OUT_OF_RANGE, p)
      else
        let old_tail = fifo_tail f;
            avail = unat (fifo_head f - fifo_tail f)
        in if avail = 0
           then (Inl (if fifo_peer f then ZX_ERR_SHOULD_WAIT else ZX_ERR_PEER_CLOSED), p)
           else
             let was_full = (avail = unat (elem_count f));
                 cnt = (if unat num > avail then avail else unat num)
             in case fifo_read_loop (elem_count f) (elem_size f) (fifo_mask f) ptr (fifo_data f) cnt
                       (fifo_tail f) 0 [] of
                  None \<Rightarrow> (Inl ZX_ERR_INVALID_ARGS, p)
                | Some (tail', out) \<Rightarrow>
                    let p1 = p(x := f\<lparr>fifo_tail := tail'\<rparr>);
                        p2 = (if was_full \<and> fifo_peer f
                              then fifo_update (peer_of x) 0 ZX_FIFO_WRITABLE p1 else p1);
                        p3 = (if fifo_head f - tail' = 0
                              then fifo_update x ZX_FIFO_READABLE 0 p2 else p2)
                    in (Inr (unat (tail' - old_tail), out), p3))"

lemma blit_slot:
  assumes "b < es" "length bs = tc * es"
  shows "blit data (H * es) bs (s * es + b) =
           (if H \<le> s \<and> s < H + tc then bs ! ((s - H) * es + b) else data (s * es + b))"
proof -
  have "H * es \<le> s * es + b \<longleftrightarrow> H \<le> s"
  proof
    assume "H * es \<le> s * es + b"
    then have "H * es < Suc s * es" using assms(1) by simp
    then show "H \<le> s" by (metis less_Suc_eq_le mult_less_cancel2)
  next
    assume "H \<le> s"
    then show "H * es \<le> s * es + b" by (simp add: trans_le_add1)
  qed
  moreover have "s * es + b < H * es + tc * es \<longleftrightarrow> s < H + tc"
  proof
    assume "s * es + b < H * es + tc * es"
    then have "s * es < (H + tc) * es" by (simp add: algebra_simps)
    then show "s < H + tc" by simp
  next
    assume "s < H + tc"
    then have "Suc s * es \<le> (H + tc) * es" by (intro mult_le_mono1) simp
    then show "s * es + b < H * es + tc * es" using assms(1) by (simp add: algebra_simps)
  qed
  moreover have "H \<le> s \<Longrightarrow> s * es + b - H * es = (s - H) * es + b"
    by (simp add: algebra_simps diff_mult_distrib)
  ultimately show ?thesis
    using assms(2) by (auto simp: blit_def)
qed

lemma slot_index_less:
  fixes es :: nat
  assumes "i < tc" "b < es"
  shows "i * es + b < tc * es"
proof -
  have "Suc i * es \<le> tc * es"
    using assms(1) by (intro mult_le_mono1) simp
  then show ?thesis
    using assms(2) by simp
qed

text \<open>
  A run is what one round of a copy loop moves: up to the end of the ring.
\<close>

definition ring_run :: "nat \<Rightarrow> 32 word \<Rightarrow> nat \<Rightarrow> nat" where
  "ring_run k h num = min num (2 ^ k - unat h mod 2 ^ k)"

lemma ring_run_le: "ring_run k h num \<le> num"
  by (simp add: ring_run_def)

lemma ring_run_pos: "0 < num \<Longrightarrow> 0 < ring_run k h num"
  by (simp add: ring_run_def)

lemma ring_run_slot: "j < ring_run k h num \<Longrightarrow> (unat h + j) mod 2 ^ k = unat h mod 2 ^ k + j"
proof -
  assume "j < ring_run k h num"
  then have "unat h mod 2 ^ k + j < 2 ^ k" unfolding ring_run_def by linarith
  then show ?thesis by (metis mod_add_left_eq mod_less)
qed

lemma ring_run_next:
  fixes h :: "32 word"
  assumes "k < 32"
  shows "(unat (h + of_nat r) + j) mod 2 ^ k = (unat h + (r + j)) mod 2 ^ k"
proof -
  have "unat (h + of_nat r) mod 2 ^ k = (unat h + r) mod 2 ^ k"
    using assms by (intro unat_add_mod_pow2) simp
  then show ?thesis by (metis add.assoc mod_add_left_eq)
qed

lemma ring_run_slots_distinct:
  assumes "j < ring_run k h num" "num \<le> 2 ^ k" "i < num - ring_run k h num"
  shows "(unat h + j) mod 2 ^ k \<noteq> (unat h + (ring_run k h num + i)) mod 2 ^ k"
  using assms mod_add_cancel_less [of "unat h" j "2 ^ k" "ring_run k h num + i"] by fastforce

lemma ring_offset:
  assumes "k < 32"
  shows "unat (2 ^ k - (h AND (2 ^ k - 1)) :: 32 word) = 2 ^ k - unat h mod 2 ^ k"
  using assms by (simp add: unat_sub_if' unat_and_pow2_mask less_imp_le)

lemma ring_run_range_split:
  "user_range_ok ptr pos (num * es) \<longleftrightarrow>
     user_range_ok ptr pos (ring_run k h num * es) \<and>
     user_range_ok ptr (pos + ring_run k h num * es) ((num - ring_run k h num) * es)"
  using user_range_ok_split [of "ring_run k h num * es" "num * es" ptr pos] ring_run_le [of k h num]
  by (simp add: diff_mult_distrib)

lemma fifo_write_loop_step:
  assumes "k < 32" "num \<noteq> 0"
  shows "fifo_write_loop (2 ^ k) esize (2 ^ k - 1) ptr num head data pos =
     (let r = ring_run k head num in
      if user_range_ok ptr pos (r * unat esize)
      then fifo_write_loop (2 ^ k) esize (2 ^ k - 1) ptr (num - r) (head + of_nat r)
             (blit data ((unat head mod 2 ^ k) * unat esize)
                (map (ub_byte ptr) [pos..<pos + r * unat esize])) (pos + r * unat esize)
      else (False, head, data))"
proof -
  have run: "(if num > 2 ^ k - unat head mod 2 ^ k then 2 ^ k - unat head mod 2 ^ k else num) = ring_run k head num"
    and pos: "2 ^ k - unat head mod 2 ^ k \<noteq> 0"
    by (simp_all add: ring_run_def not_le)
  show ?thesis
    by (subst fifo_write_loop.simps)
       (simp only: Let_def ring_offset [OF assms(1)] unat_and_pow2_mask run pos assms(2)
          copy_array_from_user_def if_False, simp)
qed

text \<open>
  What a copy into the ring has to achieve: element \<open>j\<close> of the user buffer is in slot
  \<open>head + j\<close>, and every other slot is unchanged.
\<close>

definition ring_stored ::
    "nat \<Rightarrow> nat \<Rightarrow> user_ptr \<Rightarrow> nat \<Rightarrow> 32 word \<Rightarrow> nat \<Rightarrow> (nat \<Rightarrow> byte) \<Rightarrow> bool" where
  "ring_stored k es ptr num head pos data \<longleftrightarrow>
     (\<forall>j b. j < num \<longrightarrow> b < es \<longrightarrow>
        data (((unat head + j) mod 2 ^ k) * es + b) = ub_byte ptr (pos + j * es + b))"

definition ring_frame ::
    "nat \<Rightarrow> nat \<Rightarrow> nat \<Rightarrow> 32 word \<Rightarrow> (nat \<Rightarrow> byte) \<Rightarrow> (nat \<Rightarrow> byte) \<Rightarrow> bool" where
  "ring_frame k es num head data data' \<longleftrightarrow>
     (\<forall>s b. (\<forall>j<num. s \<noteq> (unat head + j) mod 2 ^ k) \<longrightarrow> b < es \<longrightarrow>
        data' (s * es + b) = data (s * es + b))"

lemma ring_frame_run:
  assumes "k < 32"
    and "ring_frame k es (num - r) (head + of_nat r)
           (blit data ((unat head mod 2 ^ k) * es) (map f [pos..<pos + r * es])) data'"
    and r: "r = ring_run k head num"
  shows "ring_frame k es num head data data'"
  unfolding ring_frame_def
proof (intro allI impI)
  fix s b
  assume s: "\<forall>j<num. s \<noteq> (unat head + j) mod 2 ^ k" and b: "b < es"
  have "\<forall>j<num - r. s \<noteq> (unat (head + of_nat r) + j) mod 2 ^ k"
    unfolding ring_run_next [OF assms(1)] using s by simp
  moreover have "\<not> (unat head mod 2 ^ k \<le> s \<and> s < unat head mod 2 ^ k + r)"
    using s ring_run_slot [of _ k head num] ring_run_le [of k head num] r
    by (metis le_add_diff_inverse less_le_trans nat_add_left_cancel_less)
  ultimately show "data' (s * es + b) = data (s * es + b)"
    using assms(2) b by (auto simp: ring_frame_def blit_slot)
qed

lemma ring_stored_run:
  assumes "k < 32" "num \<le> 2 ^ k"
    and frame: "ring_frame k es (num - r) (head + of_nat r)
           (blit data ((unat head mod 2 ^ k) * es) (map (ub_byte ptr) [pos..<pos + r * es])) data'"
    and stored: "ring_stored k es ptr (num - r) (head + of_nat r) (pos + r * es) data'"
    and r: "r = ring_run k head num"
  shows "ring_stored k es ptr num head pos data'"
  unfolding ring_stored_def
proof (intro allI impI)
  fix j b
  assume j: "j < num" and b: "b < es"
  show "data' (((unat head + j) mod 2 ^ k) * es + b) = ub_byte ptr (pos + j * es + b)"
  proof (cases "j < r")
    case True
    then have "\<forall>i<num - r. (unat head + j) mod 2 ^ k \<noteq> (unat (head + of_nat r) + i) mod 2 ^ k"
      unfolding ring_run_next [OF assms(1)] using ring_run_slots_distinct assms(2) r by blast
    then show ?thesis
      using frame b True slot_index_less [OF True b] ring_run_slot [of j k head num] r
      by (simp add: ring_frame_def blit_slot add.assoc)
  next
    case False
    then have "data' (((unat (head + of_nat r) + (j - r)) mod 2 ^ k) * es + b) =
        ub_byte ptr (pos + r * es + (j - r) * es + b)"
      using stored [unfolded ring_stored_def, rule_format, of "j - r" b] j b by simp
    then show ?thesis
      using False unfolding ring_run_next [OF assms(1)] by (simp add: algebra_simps diff_mult_distrib)
  qed
qed

lemma fifo_write_loop_spec:
  assumes "k < 32" "num \<le> 2 ^ k"
  shows "\<exists>head' data'. fifo_write_loop (2 ^ k) esize (2 ^ k - 1) ptr num head data pos =
             (user_range_ok ptr pos (num * unat esize), head', data') \<and>
           (user_range_ok ptr pos (num * unat esize) \<longrightarrow>
              head' = head + of_nat num \<and> ring_stored k (unat esize) ptr num head pos data') \<and>
           ring_frame k (unat esize) num head data data'"
  using assms(2)
proof (induction num arbitrary: head data pos rule: less_induct)
  case (less num)
  show ?case
  proof (cases "num = 0")
    case True
    then show ?thesis by (simp add: fifo_write_loop.simps ring_stored_def ring_frame_def)
  next
    case False
    let ?es = "unat esize"
    define r where "r = ring_run k head num"
    have le: "r \<le> num" and lt: "num - r < num" and pre: "num - r \<le> 2 ^ k"
      using ring_run_le ring_run_pos [of num k head] False less.prems by (auto simp: r_def)
    note step = fifo_write_loop_step [OF assms(1) False, of esize ptr head data pos,
        unfolded Let_def, folded r_def]
    note split = ring_run_range_split [of ptr pos num ?es k head, folded r_def]
    show ?thesis
    proof (cases "user_range_ok ptr pos (r * ?es)")
      case False
      then show ?thesis using step split by (simp add: ring_frame_def)
    next
      case True
      let ?h = "head + of_nat r" and ?d = "blit data ((unat head mod 2 ^ k) * ?es)
          (map (ub_byte ptr) [pos..<pos + r * ?es])" and ?p = "pos + r * ?es"
      let ?ok = "user_range_ok ptr ?p ((num - r) * ?es)"
      obtain head' data' where
        eq: "fifo_write_loop (2 ^ k) esize (2 ^ k - 1) ptr (num - r) ?h ?d ?p = (?ok, head', data')"
        and st: "?ok \<Longrightarrow> head' = ?h + of_nat (num - r) \<and> ring_stored k ?es ptr (num - r) ?h ?p data'"
        and fr: "ring_frame k ?es (num - r) ?h ?d data'"
        using less.IH [OF lt pre, of ?h ?d ?p] by blast
      have "ring_frame k ?es num head data data'"
        by (rule ring_frame_run [OF assms(1) fr r_def])
      moreover have "?ok \<Longrightarrow> ring_stored k ?es ptr num head pos data'"
        using ring_stored_run [OF assms(1) less.prems fr _ r_def] st by blast
      moreover have "?h + of_nat (num - r) = head + of_nat num"
        using le by (simp flip: of_nat_add add: add.assoc)
      ultimately show ?thesis
        using True step split eq st by auto
    qed
  qed
qed

text \<open>The bytes of a slot, and of the \<open>num\<close> elements from a counter on.\<close>

definition fifo_slot :: "nat \<Rightarrow> (nat \<Rightarrow> byte) \<Rightarrow> nat \<Rightarrow> byte list" where
  "fifo_slot es data s = map data [s * es..<s * es + es]"

definition ring_elems :: "nat \<Rightarrow> nat \<Rightarrow> (nat \<Rightarrow> byte) \<Rightarrow> nat \<Rightarrow> nat \<Rightarrow> byte list list" where
  "ring_elems N es data from num = map (\<lambda>j. fifo_slot es data ((from + j) mod N)) [0..<num]"

lemma length_ring_elems [simp]: "length (ring_elems N es data from num) = num"
  by (simp add: ring_elems_def)

lemma length_fifo_slot [simp]: "length (fifo_slot es data s) = es"
  by (simp add: fifo_slot_def)

lemma map_slots_contiguous:
  "map data [H * es..<H * es + r * es] = concat (map (\<lambda>j. fifo_slot es data (H + j)) [0..<r])"
proof (induction r)
  case (Suc r)
  have "[H * es..<H * es + Suc r * es] = [H * es..<H * es + r * es] @ [(H + r) * es..<(H + r) * es + es]"
    by (metis add.assoc add_mult_distrib le_add1 mult_Suc upt_add_eq_append add.commute)
  then show ?case
    by (simp add: Suc fifo_slot_def)
qed simp

lemma ring_elems_split:
  "r \<le> num \<Longrightarrow> ring_elems N es data from num = ring_elems N es data from r @ ring_elems N es data (from + r) (num - r)"
proof -
  assume r: "r \<le> num"
  have "[0..<num] = [0..<r] @ map (\<lambda>j. r + j) [0..<num - r]"
    using r by (intro nth_equalityI) (auto simp: nth_append)
  then show ?thesis
    by (simp add: ring_elems_def comp_def add.assoc)
qed

lemma ring_elems_mod_cong:
  "from mod N = from' mod N \<Longrightarrow> ring_elems N es data from num = ring_elems N es data from' num"
  unfolding ring_elems_def by (metis mod_add_left_eq)

lemma fifo_read_loop_step:
  assumes "k < 32" "num \<noteq> 0"
  shows "fifo_read_loop (2 ^ k) esize (2 ^ k - 1) ptr data num tail pos out =
     (let r = ring_run k tail num in
      if user_range_ok ptr pos (r * unat esize)
      then fifo_read_loop (2 ^ k) esize (2 ^ k - 1) ptr data (num - r) (tail + of_nat r)
             (pos + r * unat esize)
             (out @ concat (ring_elems (2 ^ k) (unat esize) data (unat tail) r))
      else None)"
proof -
  have run: "(if num > 2 ^ k - unat tail mod 2 ^ k then 2 ^ k - unat tail mod 2 ^ k else num) = ring_run k tail num"
    and pos: "2 ^ k - unat tail mod 2 ^ k \<noteq> 0"
    by (simp_all add: ring_run_def not_le)
  have "map data [unat tail mod 2 ^ k * unat esize..<unat tail mod 2 ^ k * unat esize + ring_run k tail num * unat esize]
      = concat (ring_elems (2 ^ k) (unat esize) data (unat tail) (ring_run k tail num))"
    unfolding map_slots_contiguous ring_elems_def
    by (intro arg_cong [where f = concat] map_cong refl) (simp add: ring_run_slot)
  then show ?thesis
    by (subst fifo_read_loop.simps)
       (simp only: Let_def ring_offset [OF assms(1)] unat_and_pow2_mask run pos assms(2) if_False, simp)
qed

lemma fifo_read_loop_spec:
  assumes "k < 32" "num \<le> 2 ^ k"
  shows "fifo_read_loop (2 ^ k) esize (2 ^ k - 1) ptr data num tail pos out =
     (if user_range_ok ptr pos (num * unat esize)
      then Some (tail + of_nat num, out @ concat (ring_elems (2 ^ k) (unat esize) data (unat tail) num))
      else None)"
  using assms(2)
proof (induction num arbitrary: tail pos out rule: less_induct)
  case (less num)
  show ?case
  proof (cases "num = 0")
    case True
    then show ?thesis by (simp add: fifo_read_loop.simps ring_elems_def)
  next
    case False
    define r where "r = ring_run k tail num"
    have le: "r \<le> num" and lt: "num - r < num" and pre: "num - r \<le> 2 ^ k"
      using ring_run_le ring_run_pos [of num k tail] False less.prems by (auto simp: r_def)
    have "ring_elems (2 ^ k) (unat esize) data (unat (tail + of_nat r)) (num - r) =
        ring_elems (2 ^ k) (unat esize) data (unat tail + r) (num - r)"
      using ring_run_next [OF assms(1), of tail r 0] by (intro ring_elems_mod_cong) simp
    then have "concat (ring_elems (2 ^ k) (unat esize) data (unat tail) num) =
        concat (ring_elems (2 ^ k) (unat esize) data (unat tail) r) @
        concat (ring_elems (2 ^ k) (unat esize) data (unat (tail + of_nat r)) (num - r))"
      using ring_elems_split [OF le] by simp
    moreover have "tail + of_nat r + of_nat (num - r) = tail + of_nat num"
      using le by (simp flip: of_nat_add add: add.assoc)
    ultimately show ?thesis
      using fifo_read_loop_step [OF assms(1) False, of esize ptr data tail pos out, unfolded Let_def, folded r_def]
        ring_run_range_split [of ptr pos num "unat esize" k tail, folded r_def] less.IH [OF lt pre]
      by simp
  qed
qed

section \<open>Specification: a bounded queue of elements\<close>

definition fifo_spec_write ::
    "nat \<Rightarrow> nat \<Rightarrow> nat \<Rightarrow> user_ptr \<Rightarrow> nat \<Rightarrow> byte list list \<Rightarrow> (zx_status_t + nat) \<times> byte list list" where
  "fifo_spec_write cap es esize ptr num q =
     (let k = min num (cap - length q) in
      if esize \<noteq> es \<or> num = 0 then (Inl ZX_ERR_OUT_OF_RANGE, q)
      else if k = 0 then (Inl ZX_ERR_SHOULD_WAIT, q)
      else if \<not> user_range_ok ptr 0 (k * es) then (Inl ZX_ERR_INVALID_ARGS, q)
      else (Inr k, q @ map (\<lambda>j. map (ub_byte ptr) [j * es..<j * es + es]) [0..<k]))"

definition fifo_spec_read ::
    "bool \<Rightarrow> nat \<Rightarrow> nat \<Rightarrow> user_ptr \<Rightarrow> nat \<Rightarrow> byte list list
       \<Rightarrow> (zx_status_t + nat \<times> byte list) \<times> byte list list" where
  "fifo_spec_read peer es esize ptr num q =
     (let k = min num (length q) in
      if esize \<noteq> es \<or> num = 0 then (Inl ZX_ERR_OUT_OF_RANGE, q)
      else if q = [] then (Inl (if peer then ZX_ERR_SHOULD_WAIT else ZX_ERR_PEER_CLOSED), q)
      else if \<not> user_range_ok ptr 0 (k * es) then (Inl ZX_ERR_INVALID_ARGS, q)
      else (Inr (k, concat (take k q)), drop k q))"

text \<open>Well-formedness of an endpoint, and the queue it holds.\<close>

definition fifo_wf :: "fifo \<Rightarrow> bool" where
  "fifo_wf f \<longleftrightarrow>
     (\<exists>k<13. elem_count f = 2 ^ k \<and> fifo_mask f = 2 ^ k - 1) \<and>
     0 < unat (elem_size f) \<and>
     unat (elem_count f) * unat (elem_size f) \<le> 4096 \<and>
     unat (fifo_head f - fifo_tail f) \<le> unat (elem_count f)"

definition fifo_abs :: "fifo \<Rightarrow> byte list list" where
  "fifo_abs f = ring_elems (unat (elem_count f)) (unat (elem_size f)) (fifo_data f)
                  (unat (fifo_tail f)) (unat (fifo_head f - fifo_tail f))"

lemma length_fifo_abs [simp]: "length (fifo_abs f) = unat (fifo_head f - fifo_tail f)"
  by (simp add: fifo_abs_def)

lemma fifo_wfE:
  assumes "fifo_wf f"
  obtains k where "k < 13" "elem_count f = 2 ^ k" "fifo_mask f = 2 ^ k - 1" "unat (elem_count f) = 2 ^ k"
    "0 < unat (elem_size f)" "unat (fifo_head f - fifo_tail f) \<le> 2 ^ k"
  using assms by (auto simp: fifo_wf_def)

lemma pow2_13_less: "k < 13 \<Longrightarrow> (2::nat) ^ k \<le> 4096"
proof -
  assume "k < 13"
  then have "(2::nat) ^ k \<le> 2 ^ 12" by (intro power_increasing) auto
  then show ?thesis by simp
qed

lemma fifo_avail:
  assumes "fifo_wf f"
  shows "unat (elem_count f - (fifo_head f - fifo_tail f)) =
           unat (elem_count f) - unat (fifo_head f - fifo_tail f)"
  using assms by (auto simp: fifo_wf_def unat_sub_if')

text \<open>Changing slots outside the live ones keeps the queue.\<close>

lemma head_via_tail:
  fixes h t :: "32 word"
  assumes "k < 32"
  shows "(unat t + unat (h - t)) mod 2 ^ k = unat h mod 2 ^ k"
  using unat_add_mod_pow2 [of k t "unat (h - t)"] assms by simp

lemma ring_frame_keeps:
  fixes h t :: "32 word"
  assumes "ring_frame k es num h data data'" "k < 32" "unat (h - t) + num \<le> 2 ^ k"
  shows "ring_elems (2 ^ k) es data' (unat t) (unat (h - t)) =
         ring_elems (2 ^ k) es data (unat t) (unat (h - t))"
proof -
  have "fifo_slot es data' ((unat t + i) mod 2 ^ k) = fifo_slot es data ((unat t + i) mod 2 ^ k)"
    if i: "i < unat (h - t)" for i
  proof -
    have "(unat t + i) mod 2 ^ k \<noteq> (unat h + j) mod 2 ^ k" if "j < num" for j
    proof
      assume eq: "(unat t + i) mod 2 ^ k = (unat h + j) mod 2 ^ k"
      have "(unat h + j) mod 2 ^ k = (unat t + (unat (h - t) + j)) mod 2 ^ k"
        using head_via_tail [OF assms(2), of t h] by (metis add.assoc mod_add_left_eq)
      then have "i = unat (h - t) + j"
        using eq i that assms(3) by (intro mod_add_cancel_less [of "unat t" i "2 ^ k"]) auto
      with i show False by simp
    qed
    then have "data' (((unat t + i) mod 2 ^ k) * es + b) = data (((unat t + i) mod 2 ^ k) * es + b)"
      if "b < es" for b
      using assms(1) that unfolding ring_frame_def by blast
    then show ?thesis
      unfolding fifo_slot_def by (intro nth_equalityI) simp_all
  qed
  then show ?thesis by (simp add: ring_elems_def)
qed

lemma ring_stored_elems:
  fixes h t :: "32 word"
  assumes "ring_stored k es ptr num h 0 data'" "k < 32"
  shows "ring_elems (2 ^ k) es data' (unat t + unat (h - t)) num =
         map (\<lambda>j. map (ub_byte ptr) [j * es..<j * es + es]) [0..<num]"
proof -
  have "ring_elems (2 ^ k) es data' (unat t + unat (h - t)) num = ring_elems (2 ^ k) es data' (unat h) num"
    using head_via_tail [OF assms(2)] by (intro ring_elems_mod_cong) simp
  moreover have "fifo_slot es data' ((unat h + j) mod 2 ^ k) = map (ub_byte ptr) [j * es..<j * es + es]"
    if "j < num" for j
    using assms(1) that unfolding fifo_slot_def ring_stored_def by (intro nth_equalityI) simp_all
  ultimately show ?thesis
    by (simp add: ring_elems_def)
qed

lemma fifo_update_apply:
  "fifo_update x c t p y = (if y = x then UpdateStateLocked c t (p x) else p y)"
  by (simp add: fifo_update_def)

lemma UpdateStateLocked_fifo [simp]:
  "fifo_peer (UpdateStateLocked c t f) = fifo_peer f"
  "elem_count (UpdateStateLocked c t f) = elem_count f"
  "elem_size (UpdateStateLocked c t f) = elem_size f"
  "fifo_mask (UpdateStateLocked c t f) = fifo_mask f"
  "fifo_head (UpdateStateLocked c t f) = fifo_head f"
  "fifo_tail (UpdateStateLocked c t f) = fifo_tail f"
  "fifo_data (UpdateStateLocked c t f) = fifo_data f"
  by (simp_all add: UpdateStateLocked_def Let_def)

lemma fifo_abs_update [simp]:
  "fifo_abs (UpdateStateLocked c t f) = fifo_abs f" "fifo_wf (UpdateStateLocked c t f) = fifo_wf f"
  by (simp_all add: fifo_abs_def fifo_wf_def)

lemma ucast_eq_iff_unat: "(esize :: 64 word) = ucast (es :: 32 word) \<longleftrightarrow> unat esize = unat es"
proof -
  have "unat (ucast es :: 64 word) = unat es"
    by (simp add: unsigned_ucast_eq take_bit_nat_eq_self_iff) (rule less_le_trans [OF unsigned_less], simp)
  then show ?thesis by (metis word_unat_eq_iff)
qed

text \<open>One write into a well-formed ring with room for \<open>num\<close> elements.\<close>

lemma fifo_write_loop_abs:
  assumes "fifo_wf f" and room: "unat (fifo_head f - fifo_tail f) + num \<le> unat (elem_count f)"
  shows "\<exists>head' data'.
     fifo_write_loop (elem_count f) (elem_size f) (fifo_mask f) ptr num (fifo_head f) (fifo_data f) 0 =
       (user_range_ok ptr 0 (num * unat (elem_size f)), head', data') \<and>
     fifo_abs (f\<lparr>fifo_data := data'\<rparr>) = fifo_abs f \<and>
     (user_range_ok ptr 0 (num * unat (elem_size f)) \<longrightarrow>
        head' = fifo_head f + of_nat num \<and>
        unat (head' - fifo_tail f) = unat (fifo_head f - fifo_tail f) + num \<and>
        fifo_abs (f\<lparr>fifo_head := head', fifo_data := data'\<rparr>) =
          fifo_abs f @ map (\<lambda>j. map (ub_byte ptr) [j * unat (elem_size f)..<j * unat (elem_size f) + unat (elem_size f)]) [0..<num])"
proof -
  obtain k where k: "k < 13" "elem_count f = 2 ^ k" "fifo_mask f = 2 ^ k - 1" "unat (elem_count f) = 2 ^ k"
    using assms(1) by (rule fifo_wfE)
  let ?es = "unat (elem_size f)" and ?ok = "user_range_ok ptr 0 (num * unat (elem_size f))"
  let ?len = "unat (fifo_head f - fifo_tail f)"
  obtain head' data' where eq:
      "fifo_write_loop (2 ^ k) (elem_size f) (2 ^ k - 1) ptr num (fifo_head f) (fifo_data f) 0 = (?ok, head', data')"
    and st: "?ok \<Longrightarrow> head' = fifo_head f + of_nat num \<and> ring_stored k ?es ptr num (fifo_head f) 0 data'"
    and fr: "ring_frame k ?es num (fifo_head f) (fifo_data f) data'"
    using fifo_write_loop_spec [of k num "elem_size f" ptr "fifo_head f" "fifo_data f" 0] k room by auto
  have keep: "ring_elems (2 ^ k) ?es data' (unat (fifo_tail f)) ?len = fifo_abs f"
    using ring_frame_keeps [OF fr, of "fifo_tail f"] k room by (simp add: fifo_abs_def)
  have len: "unat (fifo_head f + of_nat num - fifo_tail f) = ?len + num"
    using room k pow2_13_less [OF k(1)] by (intro unat_diff_add_of_nat) simp
  have "ring_elems (2 ^ k) ?es data' (unat (fifo_tail f)) (?len + num) =
      fifo_abs f @ map (\<lambda>j. map (ub_byte ptr) [j * ?es..<j * ?es + ?es]) [0..<num]" if ?ok
    using ring_elems_split [of ?len "?len + num" "2 ^ k" ?es data' "unat (fifo_tail f)"] keep
      ring_stored_elems [of k ?es ptr num "fifo_head f" data' "fifo_tail f"] st [OF that] k by simp
  then show ?thesis
    using eq st keep len k by (auto simp: fifo_abs_def)
qed

lemma fifo_wf_head_data:
  assumes "fifo_wf f" "unat (h - fifo_tail f) \<le> unat (elem_count f)"
  shows "fifo_wf (f\<lparr>fifo_head := h, fifo_data := d\<rparr>)"
  using assms by (simp add: fifo_wf_def)

text \<open>The paths of \<^verbatim>\<open>WriteSelfLocked\<close> that change nothing.\<close>

lemma fifo_write_rejects:
  assumes "fifo_wf (p x)"
    and "esize \<noteq> ucast (elem_size (p x)) \<or> num = 0 \<or>
         unat (fifo_head (p x) - fifo_tail (p x)) = unat (elem_count (p x))"
  shows "fifo_WriteSelfLocked x esize ptr num p =
           (fst (fifo_spec_write (unat (elem_count (p x))) (unat (elem_size (p x))) (unat esize) ptr
                   (unat num) (fifo_abs (p x))), p) \<and>
         snd (fifo_spec_write (unat (elem_count (p x))) (unat (elem_size (p x))) (unat esize) ptr
                (unat num) (fifo_abs (p x))) = fifo_abs (p x)"
proof -
  have "unat num = 0 \<longleftrightarrow> num = 0" by (simp add: unat_eq_0)
  then show ?thesis
    using assms(2) fifo_avail [OF assms(1)]
    by (auto simp: fifo_WriteSelfLocked_def fifo_spec_write_def Let_def ucast_eq_iff_unat)
qed

lemma fifo_write_accepts:
  assumes wf: "fifo_wf (p x)" and args: "esize = ucast (elem_size (p x))" "num \<noteq> 0"
    and room: "unat (fifo_head (p x) - fifo_tail (p x)) < unat (elem_count (p x))"
  shows "(fst (fifo_WriteSelfLocked x esize ptr num p), fifo_abs (snd (fifo_WriteSelfLocked x esize ptr num p) x)) =
           fifo_spec_write (unat (elem_count (p x))) (unat (elem_size (p x))) (unat esize) ptr (unat num)
             (fifo_abs (p x)) \<and>
         fifo_wf (snd (fifo_WriteSelfLocked x esize ptr num p) x) \<and>
         fifo_abs (snd (fifo_WriteSelfLocked x esize ptr num p) (peer_of x)) = fifo_abs (p (peer_of x))"
proof -
  let ?f = "p x"
  let ?len = "unat (fifo_head ?f - fifo_tail ?f)" and ?cap = "unat (elem_count ?f)"
  let ?es = "unat (elem_size ?f)"
  define k where "k = min (unat num) (?cap - ?len)"
  have num0: "unat num \<noteq> 0" using args(2) by (simp add: unat_eq_0)
  have k: "k \<noteq> 0" "?len + k \<le> ?cap" using room num0 by (auto simp: k_def)
  have cnt: "(if unat num > ?cap - ?len then ?cap - ?len else unat num) = k"
    by (simp add: k_def)
  obtain head' data' where
      eq: "fifo_write_loop (elem_count ?f) (elem_size ?f) (fifo_mask ?f) ptr k (fifo_head ?f) (fifo_data ?f) 0 =
        (user_range_ok ptr 0 (k * ?es), head', data')"
    and keep: "fifo_abs (?f\<lparr>fifo_data := data'\<rparr>) = fifo_abs ?f"
    and hd: "user_range_ok ptr 0 (k * ?es) \<Longrightarrow> head' = fifo_head ?f + of_nat k"
    and len: "user_range_ok ptr 0 (k * ?es) \<Longrightarrow> unat (head' - fifo_tail ?f) = ?len + k"
    and abs: "user_range_ok ptr 0 (k * ?es) \<Longrightarrow>
        fifo_abs (?f\<lparr>fifo_head := head', fifo_data := data'\<rparr>) = fifo_abs ?f @
          map (\<lambda>j. map (ub_byte ptr) [j * ?es..<j * ?es + ?es]) [0..<k]"
    using fifo_write_loop_abs [OF wf k(2), of ptr] by blast
  have "unat (of_nat k :: 32 word) = k"
    using k(2) unat_less_pow [of "elem_count ?f"] by (simp add: unat_of_nat)
  then have k32: "user_range_ok ptr 0 (k * ?es) \<Longrightarrow> unat (head' - fifo_head ?f) = k"
    using hd by simp
  have "fifo_wf (?f\<lparr>fifo_head := head', fifo_data := data'\<rparr>)" if "user_range_ok ptr 0 (k * ?es)"
    using len [OF that] k(2) by (intro fifo_wf_head_data [OF wf]) linarith
  moreover have "fifo_wf (?f\<lparr>fifo_data := data'\<rparr>)"
    using wf by (simp add: fifo_wf_def)
  ultimately show ?thesis
    using args num0 room k(1) eq keep abs k32 cnt
    by (cases "user_range_ok ptr 0 (k * ?es)")
       (simp_all add: fifo_WriteSelfLocked_def fifo_spec_write_def Let_def fifo_avail [OF wf]
          ucast_eq_iff_unat fifo_update_apply flip: k_def)
qed

lemma fifo_write_spec:
  assumes "fifo_wf (p x)"
  shows "(fst (fifo_WriteSelfLocked x esize ptr num p), fifo_abs (snd (fifo_WriteSelfLocked x esize ptr num p) x)) =
           fifo_spec_write (unat (elem_count (p x))) (unat (elem_size (p x))) (unat esize) ptr (unat num)
             (fifo_abs (p x)) \<and>
         fifo_wf (snd (fifo_WriteSelfLocked x esize ptr num p) x) \<and>
         fifo_abs (snd (fifo_WriteSelfLocked x esize ptr num p) (peer_of x)) = fifo_abs (p (peer_of x))"
proof (cases "esize \<noteq> ucast (elem_size (p x)) \<or> num = 0 \<or>
         unat (fifo_head (p x) - fifo_tail (p x)) = unat (elem_count (p x))")
  case True
  show ?thesis
    using fifo_write_rejects [of p x esize num ptr, OF assms True] assms by (simp add: prod_eq_iff)
next
  case False
  then have "unat (fifo_head (p x) - fifo_tail (p x)) < unat (elem_count (p x))"
    using assms by (simp add: fifo_wf_def)
  then show ?thesis
    using False by (intro fifo_write_accepts [of p x, OF assms]) auto
qed

subsection \<open>Reading\<close>

lemma fifo_abs_tail:
  assumes "fifo_wf f" "n \<le> unat (fifo_head f - fifo_tail f)"
  shows "fifo_abs (f\<lparr>fifo_tail := fifo_tail f + of_nat n\<rparr>) = drop n (fifo_abs f)"
    and "ring_elems (unat (elem_count f)) (unat (elem_size f)) (fifo_data f) (unat (fifo_tail f)) n =
         take n (fifo_abs f)"
    and "fifo_wf (f\<lparr>fifo_tail := fifo_tail f + of_nat n\<rparr>)"
proof -
  obtain k where k: "k < 13" "unat (elem_count f) = 2 ^ k"
    using assms(1) by (rule fifo_wfE)
  have len: "unat (fifo_head f - (fifo_tail f + of_nat n)) = unat (fifo_head f - fifo_tail f) - n"
    by (rule unat_diff_sub_of_nat [OF assms(2)])
  note split = ring_elems_split [OF assms(2), of "2 ^ k" "unat (elem_size f)" "fifo_data f" "unat (fifo_tail f)"]
  have "ring_elems (2 ^ k) (unat (elem_size f)) (fifo_data f) (unat (fifo_tail f + of_nat n))
           (unat (fifo_head f - fifo_tail f) - n) =
        ring_elems (2 ^ k) (unat (elem_size f)) (fifo_data f) (unat (fifo_tail f) + n)
           (unat (fifo_head f - fifo_tail f) - n)"
    using ring_run_next [of k "fifo_tail f" n 0] k by (intro ring_elems_mod_cong) simp
  then show "fifo_abs (f\<lparr>fifo_tail := fifo_tail f + of_nat n\<rparr>) = drop n (fifo_abs f)"
    using split len k by (simp add: fifo_abs_def)
  show "ring_elems (unat (elem_count f)) (unat (elem_size f)) (fifo_data f) (unat (fifo_tail f)) n =
        take n (fifo_abs f)"
    using split k by (simp add: fifo_abs_def)
  show "fifo_wf (f\<lparr>fifo_tail := fifo_tail f + of_nat n\<rparr>)"
    using assms len by (auto simp: fifo_wf_def)
qed

lemma fifo_read_loop_abs:
  assumes "fifo_wf f" "n \<le> unat (fifo_head f - fifo_tail f)"
  shows "fifo_read_loop (elem_count f) (elem_size f) (fifo_mask f) ptr (fifo_data f) n (fifo_tail f) 0 [] =
     (if user_range_ok ptr 0 (n * unat (elem_size f))
      then Some (fifo_tail f + of_nat n, concat (take n (fifo_abs f))) else None)"
proof -
  obtain k where k: "k < 13" "elem_count f = 2 ^ k" "fifo_mask f = 2 ^ k - 1" "unat (elem_count f) = 2 ^ k"
      "unat (fifo_head f - fifo_tail f) \<le> 2 ^ k"
    using assms(1) by (rule fifo_wfE)
  show ?thesis
    using fifo_read_loop_spec [of k n "elem_size f" ptr "fifo_data f" "fifo_tail f" 0 "[]"] k assms(2)
      fifo_abs_tail(2) [OF assms] by simp
qed

lemma fifo_read_spec:
  assumes wf: "fifo_wf (p x)"
  shows "(fst (fifo_ReadToUser x esize ptr num p), fifo_abs (snd (fifo_ReadToUser x esize ptr num p) x)) =
           fifo_spec_read (fifo_peer (p x)) (unat (elem_size (p x))) (unat esize) ptr (unat num)
             (fifo_abs (p x)) \<and>
         fifo_wf (snd (fifo_ReadToUser x esize ptr num p) x) \<and>
         fifo_abs (snd (fifo_ReadToUser x esize ptr num p) (peer_of x)) = fifo_abs (p (peer_of x))"
proof -
  let ?f = "p x"
  let ?len = "unat (fifo_head ?f - fifo_tail ?f)"
  define k where "k = min (unat num) ?len"
  have k: "k \<le> ?len" by (simp add: k_def)
  have num0: "unat num = 0 \<longleftrightarrow> num = 0" by (simp add: unat_eq_0)
  have cnt: "(if unat num > ?len then ?len else unat num) = k" by (simp add: k_def)
  have empty: "fifo_abs ?f = [] \<longleftrightarrow> ?len = 0" by (metis length_0_conv length_fifo_abs)
  define t' where "t' = fifo_tail ?f + of_nat k"
  have "unat (t' - fifo_tail ?f) = k"
    using unat_of_nat_small [OF k] by (simp add: t'_def)
  then show ?thesis
    using wf num0 empty fifo_abs_tail(1,3) [OF wf k, folded t'_def]
    by (simp add: fifo_ReadToUser_def fifo_spec_read_def Let_def ucast_eq_iff_unat cnt
        fifo_read_loop_abs [OF wf k, folded t'_def] fifo_update_apply flip: k_def)
qed

section \<open>Signals\<close>

lemma fifo_sig_upd [simp]:
  "has_sig (upd_sig s 0 ZX_FIFO_READABLE) ZX_FIFO_READABLE"
  "\<not> has_sig (upd_sig s ZX_FIFO_READABLE 0) ZX_FIFO_READABLE"
  "has_sig (upd_sig s 0 ZX_FIFO_WRITABLE) ZX_FIFO_WRITABLE"
  "\<not> has_sig (upd_sig s ZX_FIFO_WRITABLE 0) ZX_FIFO_WRITABLE"
  "has_sig (upd_sig s ZX_FIFO_WRITABLE ZX_FIFO_PEER_CLOSED) ZX_FIFO_PEER_CLOSED"
  "\<not> has_sig (upd_sig s ZX_FIFO_WRITABLE ZX_FIFO_PEER_CLOSED) ZX_FIFO_WRITABLE"
  "has_sig (upd_sig s 0 ZX_FIFO_READABLE) ZX_FIFO_WRITABLE = has_sig s ZX_FIFO_WRITABLE"
  "has_sig (upd_sig s ZX_FIFO_READABLE 0) ZX_FIFO_WRITABLE = has_sig s ZX_FIFO_WRITABLE"
  "has_sig (upd_sig s 0 ZX_FIFO_WRITABLE) ZX_FIFO_READABLE = has_sig s ZX_FIFO_READABLE"
  "has_sig (upd_sig s ZX_FIFO_WRITABLE 0) ZX_FIFO_READABLE = has_sig s ZX_FIFO_READABLE"
  "has_sig (upd_sig s ZX_FIFO_WRITABLE ZX_FIFO_PEER_CLOSED) ZX_FIFO_READABLE = has_sig s ZX_FIFO_READABLE"
  by (simp_all add: has_sig_upd_set has_sig_upd_clear has_sig_upd_other sig_defs)

lemma fifo_update_sides [simp]:
  "fifo_peer (fifo_update x c t p y) = fifo_peer (p y)"
  "obj_signals (fifo_update x c t p y) = (if y = x then upd_sig (obj_signals (p x)) c t else obj_signals (p y))"
  "fifo_abs (fifo_update x c t p y) = fifo_abs (p y)"
  "fifo_wf (fifo_update x c t p y) = fifo_wf (p y)"
  "elem_count (fifo_update x c t p y) = elem_count (p y)"
  "elem_size (fifo_update x c t p y) = elem_size (p y)"
  "fifo_head (fifo_update x c t p y) = fifo_head (p y)"
  "fifo_tail (fifo_update x c t p y) = fifo_tail (p y)"
  by (simp_all add: fifo_update_def)

interpretation fifo_peers: peered_object fifo_has_peer fifo_reset_peer fifo_update
    fifo_on_zero_handles_locked fifo_OnPeerZeroHandlesLocked "\<lambda>x p. obj_signals (p x)"
proof unfold_locales
  fix x and s :: fifo_pair
  show "has_sig (obj_signals (fifo_OnPeerZeroHandlesLocked x s x)) ZX_OBJECT_PEER_CLOSED"
    "\<not> has_sig (obj_signals (fifo_OnPeerZeroHandlesLocked x s x)) ZX_OBJECT_WRITABLE"
    by (simp_all add: fifo_OnPeerZeroHandlesLocked_def flip: ZX_FIFO_PEER_CLOSED_def ZX_FIFO_WRITABLE_def)
qed (simp_all add: fifo_has_peer_def fifo_reset_peer_def fifo_on_zero_handles_locked_def
       fifo_OnPeerZeroHandlesLocked_def)

text \<open>
  Readable exactly when the ring holds an element; writable, while connected, exactly when
  the peer's ring has room; both peer pointers agree.
\<close>

definition fifo_inv :: "fifo_pair \<Rightarrow> bool" where
  "fifo_inv p \<longleftrightarrow>
     fifo_peer (p Side0) = fifo_peer (p Side1) \<and>
     (\<forall>x. fifo_wf (p x) \<and>
        (has_sig (obj_signals (p x)) ZX_FIFO_READABLE \<longleftrightarrow> fifo_abs (p x) \<noteq> []) \<and>
        (fifo_peer (p x) \<longrightarrow>
           (has_sig (obj_signals (p x)) ZX_FIFO_WRITABLE \<longleftrightarrow>
              length (fifo_abs (p (peer_of x))) < unat (elem_count (p (peer_of x))))))"

lemma fifo_inv_linked: "fifo_inv p \<Longrightarrow> fifo_peer (p (peer_of x)) = fifo_peer (p x)"
  by (cases x) (auto simp: fifo_inv_def)

lemma fifo_inv_at:
  "fifo_inv p \<longleftrightarrow>
     fifo_peer (p (peer_of x)) = fifo_peer (p x) \<and> fifo_wf (p x) \<and> fifo_wf (p (peer_of x)) \<and>
     (has_sig (obj_signals (p x)) ZX_FIFO_READABLE \<longleftrightarrow> fifo_abs (p x) \<noteq> []) \<and>
     (has_sig (obj_signals (p (peer_of x))) ZX_FIFO_READABLE \<longleftrightarrow> fifo_abs (p (peer_of x)) \<noteq> []) \<and>
     (fifo_peer (p x) \<longrightarrow>
        (has_sig (obj_signals (p x)) ZX_FIFO_WRITABLE \<longleftrightarrow>
           length (fifo_abs (p (peer_of x))) < unat (elem_count (p (peer_of x)))) \<and>
        (has_sig (obj_signals (p (peer_of x))) ZX_FIFO_WRITABLE \<longleftrightarrow>
           length (fifo_abs (p x)) < unat (elem_count (p x))))"
proof -
  have "fifo_peer (p Side0) = fifo_peer (p Side1) \<longleftrightarrow> fifo_peer (p (peer_of x)) = fifo_peer (p x)"
    by (cases x) auto
  then show ?thesis
    unfolding fifo_inv_def by (subst all_sides [of _ x]) auto
qed


lemma fifo_update_if:
  "(if b then fifo_update x c t p else p) = fifo_update x (if b then c else 0) (if b then t else 0) p"
  by (auto simp: fifo_update_def UpdateStateLocked_noop upd_sig_none)

lemma fifo_write_frame:
  "fifo_peer (snd (fifo_WriteSelfLocked x esize ptr num p) y) = fifo_peer (p y)"
  "elem_count (snd (fifo_WriteSelfLocked x esize ptr num p) y) = elem_count (p y)"
  "elem_size (snd (fifo_WriteSelfLocked x esize ptr num p) y) = elem_size (p y)"
  "fifo_wf (snd (fifo_WriteSelfLocked x esize ptr num p) (peer_of x)) = fifo_wf (p (peer_of x))"
  by (simp_all add: fifo_WriteSelfLocked_def Let_def fifo_update_if split: prod.split bool.split)

lemma fifo_read_frame:
  "fifo_peer (snd (fifo_ReadToUser x esize ptr num p) y) = fifo_peer (p y)"
  "elem_count (snd (fifo_ReadToUser x esize ptr num p) y) = elem_count (p y)"
  "elem_size (snd (fifo_ReadToUser x esize ptr num p) y) = elem_size (p y)"
  "fifo_wf (snd (fifo_ReadToUser x esize ptr num p) (peer_of x)) = fifo_wf (p (peer_of x))"
  by (simp_all add: fifo_ReadToUser_def Let_def fifo_update_if split: prod.split option.split)

lemma fifo_abs_empty: "fifo_abs f = [] \<longleftrightarrow> fifo_head f = fifo_tail f"
  by (metis length_0_conv length_fifo_abs unat_eq_0 right_minus_eq)

text \<open>What a write does to the two signals that track the ring.\<close>

lemma fifo_write_signals:
  assumes wf: "fifo_wf (p x)" and q: "snd (fifo_WriteSelfLocked x esize ptr num p) = q"
  shows "has_sig (obj_signals (q x)) ZX_FIFO_WRITABLE = has_sig (obj_signals (p x)) ZX_FIFO_WRITABLE \<and>
    has_sig (obj_signals (q (peer_of x))) ZX_FIFO_READABLE =
      has_sig (obj_signals (p (peer_of x))) ZX_FIFO_READABLE \<and>
    (has_sig (obj_signals (q x)) ZX_FIFO_READABLE \<longleftrightarrow>
       has_sig (obj_signals (p x)) ZX_FIFO_READABLE \<or> fifo_abs (p x) = [] \<and> fifo_abs (q x) \<noteq> []) \<and>
    (has_sig (obj_signals (q (peer_of x))) ZX_FIFO_WRITABLE \<longleftrightarrow>
       has_sig (obj_signals (p (peer_of x))) ZX_FIFO_WRITABLE \<and>
       \<not> (length (fifo_abs (p x)) < unat (elem_count (p x)) \<and>
          length (fifo_abs (q x)) = unat (elem_count (p x))))"
proof -
  let ?f = "p x"
  let ?len = "unat (fifo_head ?f - fifo_tail ?f)" and ?cap = "unat (elem_count ?f)"
  show ?thesis
  proof (cases "esize \<noteq> ucast (elem_size ?f) \<or> num = 0 \<or> ?len = ?cap")
    case True
    then show ?thesis using fifo_write_rejects [of p x, OF wf True] q by auto
  next
    case False
    then have room: "?len < ?cap" using wf by (simp add: fifo_wf_def)
    have num0: "unat num \<noteq> 0" using False by (simp add: unat_eq_0)
    define k where "k = min (unat num) (?cap - ?len)"
    have k: "k \<noteq> 0" "?len + k \<le> ?cap" using room num0 by (auto simp: k_def)
    have cnt: "(if unat num > ?cap - ?len then ?cap - ?len else unat num) = k"
      by (simp add: k_def)
    obtain ok head' data' where
        eq: "fifo_write_loop (elem_count ?f) (elem_size ?f) (fifo_mask ?f) ptr k (fifo_head ?f) (fifo_data ?f) 0 =
          (ok, head', data')"
      and len: "ok \<Longrightarrow> unat (head' - fifo_tail ?f) = ?len + k"
      using fifo_write_loop_abs [OF wf k(2), of ptr] by blast
    have full: "elem_count ?f = head' - fifo_tail ?f \<longleftrightarrow> ?len + k = ?cap" if ok
      using len [OF that] by (metis word_unat_eq_iff)
    have hd: "fifo_head ?f = fifo_tail ?f \<longleftrightarrow> ?len = 0" by (simp add: unat_eq_0)
    have hd': "ok \<Longrightarrow> head' \<noteq> fifo_tail ?f" using len k(1) by auto
    have was_empty: "?cap - ?len = ?cap \<longleftrightarrow> ?len = 0" using room by linarith
    have "q = (if ok then fifo_update (peer_of x) (if ?len + k = ?cap then ZX_FIFO_WRITABLE else 0) 0
        (fifo_update x 0 (if ?len = 0 then ZX_FIFO_READABLE else 0)
          (p(x := ?f\<lparr>fifo_head := head', fifo_data := data'\<rparr>)))
      else p(x := ?f\<lparr>fifo_data := data'\<rparr>))"
      unfolding q [symmetric] using False room full
      by (simp add: fifo_WriteSelfLocked_def Let_def fifo_avail [OF wf] cnt eq was_empty fifo_update_if)
    then show ?thesis
      using hd hd' len room k(1) by (cases ok) (auto simp: fifo_abs_empty)
  qed
qed

lemma fifo_read_signals:
  assumes wf: "fifo_wf (p x)" and q: "snd (fifo_ReadToUser x esize ptr num p) = q"
  shows "has_sig (obj_signals (q x)) ZX_FIFO_WRITABLE = has_sig (obj_signals (p x)) ZX_FIFO_WRITABLE \<and>
    has_sig (obj_signals (q (peer_of x))) ZX_FIFO_READABLE =
      has_sig (obj_signals (p (peer_of x))) ZX_FIFO_READABLE \<and>
    (has_sig (obj_signals (q x)) ZX_FIFO_READABLE \<longleftrightarrow>
       has_sig (obj_signals (p x)) ZX_FIFO_READABLE \<and> \<not> (fifo_abs (p x) \<noteq> [] \<and> fifo_abs (q x) = [])) \<and>
    (has_sig (obj_signals (q (peer_of x))) ZX_FIFO_WRITABLE \<longleftrightarrow>
       has_sig (obj_signals (p (peer_of x))) ZX_FIFO_WRITABLE \<or>
       fifo_peer (p x) \<and> length (fifo_abs (p x)) = unat (elem_count (p x)) \<and>
         length (fifo_abs (q x)) < unat (elem_count (p x)))"
proof -
  let ?f = "p x"
  let ?len = "unat (fifo_head ?f - fifo_tail ?f)" and ?cap = "unat (elem_count ?f)"
  have le: "?len \<le> ?cap" using wf by (simp add: fifo_wf_def)
  define k where "k = min (unat num) ?len"
  have k: "k \<le> ?len" by (simp add: k_def)
  have cnt: "(if unat num > ?len then ?len else unat num) = k" by (simp add: k_def)
  have hd: "fifo_head ?f = fifo_tail ?f \<longleftrightarrow> ?len = 0" by (simp add: unat_eq_0)
  have num0: "k = 0 \<longleftrightarrow> num = 0 \<or> ?len = 0"
    unfolding k_def unat_eq_0 [of num, symmetric] by linarith
  define t' where "t' = fifo_tail ?f + of_nat k"
  have len: "unat (fifo_head ?f - t') = ?len - k"
    unfolding t'_def by (rule unat_diff_sub_of_nat [OF k])
  have hd': "fifo_head ?f = t' \<longleftrightarrow> ?len - k = 0"
    using len by (metis unat_eq_0 right_minus_eq)
  have "q = (if esize = ucast (elem_size ?f) \<and> k \<noteq> 0 \<and> user_range_ok ptr 0 (k * unat (elem_size ?f))
      then fifo_update x (if ?len = k then ZX_FIFO_READABLE else 0) 0
        (fifo_update (peer_of x) 0 (if ?len = ?cap \<and> fifo_peer ?f then ZX_FIFO_WRITABLE else 0)
          (p(x := ?f\<lparr>fifo_tail := t'\<rparr>)))
      else p)"
    unfolding q [symmetric] using hd hd' num0 k
    by (simp add: fifo_ReadToUser_def Let_def cnt fifo_read_loop_abs [OF wf k, folded t'_def] fifo_update_if)
  then show ?thesis
    using hd hd' len le k by (auto simp: fifo_abs_empty)
qed

lemma fifo_write_inv:
  assumes inv: "fifo_inv p"
  shows "fifo_inv (snd (fifo_WriteFromUser x esize ptr num p))"
proof (cases "fifo_peer (p x)")
  case False
  then show ?thesis using inv by (simp add: fifo_WriteFromUser_def)
next
  case True
  define y where "y = peer_of x"
  define q where "q = snd (fifo_WriteSelfLocked y esize ptr num p)"
  have wf: "fifo_wf (p y)" and peer: "fifo_peer (p y)"
    using True inv by (simp_all add: fifo_inv_def fifo_inv_linked y_def)
  note spec = fifo_write_spec [of p y, OF wf, of esize ptr num, folded q_def]
  note sigs = fifo_write_signals [of p y, OF wf q_def [symmetric]]
  note frame = fifo_write_frame [of y esize ptr num p, folded q_def]
  have abs: "fifo_abs (q y) = snd (fifo_spec_write (unat (elem_count (p y))) (unat (elem_size (p y)))
      (unat esize) ptr (unat num) (fifo_abs (p y)))"
    using arg_cong [OF spec [THEN conjunct1], of snd] by (simp only: snd_conv)
  have "length (fifo_abs (p y)) \<le> unat (elem_count (p y))"
    using wf unfolding fifo_wf_def length_fifo_abs by blast
  then have "length (fifo_abs (p y)) \<le> length (fifo_abs (q y))"
      "length (fifo_abs (q y)) \<le> unat (elem_count (p y))"
    unfolding abs by (auto simp: fifo_spec_write_def Let_def simp del: length_fifo_abs)
  then have "fifo_inv q"
    using inv peer spec [THEN conjunct2] unfolding fifo_inv_at [of _ y]
    by (auto simp: sigs frame simp del: length_fifo_abs)
  then show ?thesis
    using True by (simp add: fifo_WriteFromUser_def q_def y_def)
qed

lemma fifo_read_inv:
  assumes inv: "fifo_inv p"
  shows "fifo_inv (snd (fifo_ReadToUser x esize ptr num p))"
proof -
  define q where "q = snd (fifo_ReadToUser x esize ptr num p)"
  have wf: "fifo_wf (p x)" using inv by (simp add: fifo_inv_def)
  note spec = fifo_read_spec [of p x, OF wf, of esize ptr num, folded q_def]
  note sigs = fifo_read_signals [of p x, OF wf q_def [symmetric]]
  note frame = fifo_read_frame [of x esize ptr num p, folded q_def]
  have abs: "fifo_abs (q x) = snd (fifo_spec_read (fifo_peer (p x)) (unat (elem_size (p x)))
      (unat esize) ptr (unat num) (fifo_abs (p x)))"
    using arg_cong [OF spec [THEN conjunct1], of snd] by (simp only: snd_conv)
  have "length (fifo_abs (p x)) \<le> unat (elem_count (p x))"
    using wf unfolding fifo_wf_def length_fifo_abs by blast
  moreover have "length (fifo_abs (q x)) \<le> length (fifo_abs (p x))"
    unfolding abs by (auto simp: fifo_spec_read_def Let_def simp del: length_fifo_abs)
  ultimately have "fifo_inv q"
    using inv spec [THEN conjunct2] unfolding fifo_inv_at [of _ x]
    by (auto simp: sigs frame simp del: length_fifo_abs)
  then show ?thesis by (simp add: q_def)
qed

section \<open>Creation\<close>

definition fifo_valid_args :: "nat \<Rightarrow> nat \<Rightarrow> bool" where
  "fifo_valid_args num esize \<longleftrightarrow> (\<exists>k. num = 2 ^ k) \<and> 0 < esize \<and> num * esize \<le> 4096"

lemma fifo_args_check:
  fixes num esize :: "64 word"
  shows "\<not> (num = 0 \<or> esize = 0 \<or> num AND (num - 1) \<noteq> 0 \<or> num > fifo_kMaxSizeBytes \<or>
            esize > fifo_kMaxSizeBytes \<or> num * esize > fifo_kMaxSizeBytes) \<longleftrightarrow>
         fifo_valid_args (unat num) (unat esize)"
  (is "\<not> ?bad \<longleftrightarrow> _")
proof
  assume ok: "\<not> ?bad"
  then have "num \<le> 4096" "esize \<le> 4096" "num * esize \<le> 4096"
    by (auto simp: const_defs not_less)
  then have "unat num * unat esize \<le> 4096"
    using unat_mult_small [of num esize] by (simp add: word_le_nat_alt)
  moreover have "unat esize \<noteq> 0" using ok by (simp add: unat_eq_0)
  ultimately show "fifo_valid_args (unat num) (unat esize)"
    using ok pow2_of_and_pred_word [of num] by (auto simp: fifo_valid_args_def)
next
  assume v: "fifo_valid_args (unat num) (unat esize)"
  then obtain k where k: "unat num = 2 ^ k" and e: "0 < unat esize" and le: "unat num * unat esize \<le> 4096"
    by (auto simp: fifo_valid_args_def)
  have n4: "unat num \<le> 4096" using le e by (metis le_trans mult_le_mono2 mult.right_neutral Suc_leI One_nat_def)
  have e4: "unat esize \<le> 4096" using le k by (metis le_trans mult_le_mono1 mult_1 one_le_numeral one_le_power)
  have w: "num \<le> 4096" "esize \<le> 4096" using n4 e4 by (simp_all add: word_le_nat_alt)
  then have m: "num * esize \<le> 4096"
    using le unat_mult_small [OF w] by (simp add: word_le_nat_alt)
  have k13: "k < 13" using n4 k nat_pow2_le_4096 by simp
  then have "num = 2 ^ k" using k by (simp add: word_unat_eq_iff)
  then have "num AND (num - 1) = take_bit k (2 ^ k)"
    by (simp only: take_bit_eq_mask mask_eq_exp_minus_1)
  then have "num AND (num - 1) = 0" by (simp add: take_bit_eq_mod)
  moreover have "num \<noteq> 0" "esize \<noteq> 0" using k e by (auto simp: unat_eq_0)
  ultimately show "\<not> ?bad" using w m by (auto simp: const_defs not_less)
qed

lemma new_fifo_wf:
  fixes num esize :: "64 word"
  assumes "fifo_valid_args (unat num) (unat esize)" "num \<le> 4096" "esize \<le> 4096"
  shows "fifo_wf (new_fifo koid (ucast num) (ucast esize) data)"
proof -
  obtain k where k: "unat num = 2 ^ k" using assms(1) by (auto simp: fifo_valid_args_def)
  have "k < 13" using k assms(2) nat_pow2_le_4096 by (simp add: word_le_nat_alt)
  moreover have "(ucast num :: 32 word) = 2 ^ k"
    using k unat_ucast32_small [OF assms(2)] calculation by (simp add: word_unat_eq_iff)
  ultimately show ?thesis
    using assms k unat_ucast32_small [OF assms(2)] unat_ucast32_small [OF assms(3)]
    by (auto simp: fifo_wf_def new_fifo_def fifo_valid_args_def)
qed

lemma new_fifo_simps [simp]:
  "fifo_peer (new_fifo koid num esize data)"
  "elem_count (new_fifo koid num esize data) = num"
  "elem_size (new_fifo koid num esize data) = esize"
  "obj_signals (new_fifo koid num esize data) = ZX_FIFO_WRITABLE"
  "fifo_abs (new_fifo koid num esize data) = []"
  by (simp_all add: new_fifo_def fifo_abs_empty)

lemma fifo_signal_consts [simp]:
  "has_sig ZX_FIFO_WRITABLE ZX_FIFO_WRITABLE" "\<not> has_sig ZX_FIFO_WRITABLE ZX_FIFO_READABLE"
  by (simp_all add: has_sig_def sig_defs)

lemma fifo_create_inv:
  assumes "FifoDispatcher_Create alloc_ok k0 k1 d0 d1 num esize = Inr p"
  shows "fifo_inv p \<and> (\<forall>x. fifo_peer (p x) \<and> fifo_abs (p x) = [])"
proof -
  have bad: "\<not> (num = 0 \<or> esize = 0 \<or> num AND (num - 1) \<noteq> 0 \<or> num > fifo_kMaxSizeBytes \<or>
            esize > fifo_kMaxSizeBytes \<or> num * esize > fifo_kMaxSizeBytes)"
    using assms by (auto simp: FifoDispatcher_Create_def split: if_splits)
  then have v: "fifo_valid_args (unat num) (unat esize)" by (simp only: fifo_args_check)
  have le: "num \<le> 4096" "esize \<le> 4096" using bad by (auto simp: const_defs not_less)
  have pos: "0 < unat (ucast num :: 32 word)"
    using bad unat_ucast32_small [OF le(1)] by (simp add: unat_gt_0)
  have p: "p x = new_fifo (if x = Side0 then k0 else k1) (ucast num) (ucast esize) (if x = Side0 then d0 else d1)" for x
    using assms by (cases x) (auto simp: FifoDispatcher_Create_def split: if_splits)
  show ?thesis
    unfolding fifo_inv_def p using new_fifo_wf [OF v le] pos by (simp del: length_fifo_abs)
qed

section \<open>Every reachable pair\<close>

inductive fifo_step :: "fifo_pair \<Rightarrow> fifo_pair \<Rightarrow> bool" where
  user_write: "fifo_step p (snd (fifo_WriteFromUser x esize ptr num p))"
| user_read: "fifo_step p (snd (fifo_ReadToUser x esize ptr num p))"
| zero_handles: "fifo_step p (fifo_close x p)"
| signal_self: "fifo_step p (snd (user_signal_self fifo_update 0 x c t p))"
| signal_peer: "fifo_step p (snd (user_signal_peer fifo_has_peer fifo_update 0 x c t p))"

inductive fifo_reachable :: "fifo_pair \<Rightarrow> bool" where
  create: "FifoDispatcher_Create alloc_ok k0 k1 d0 d1 num esize = Inr p \<Longrightarrow> fifo_reachable p"
| step: "fifo_reachable p \<Longrightarrow> fifo_step p q \<Longrightarrow> fifo_reachable q"

lemma fifo_user_masks: "ZX_FIFO_READABLE AND (ZX_USER_SIGNAL_ALL OR 0) = 0" "ZX_FIFO_WRITABLE AND (ZX_USER_SIGNAL_ALL OR 0) = 0"
  by (simp_all add: sig_defs)

lemma fifo_user_signal_frame:
  "fifo_peer (snd (user_signal_self fifo_update e x c t p) y) = fifo_peer (p y)"
  "fifo_wf (snd (user_signal_self fifo_update e x c t p) y) = fifo_wf (p y)"
  "fifo_abs (snd (user_signal_self fifo_update e x c t p) y) = fifo_abs (p y)"
  "elem_count (snd (user_signal_self fifo_update e x c t p) y) = elem_count (p y)"
  "fifo_peer (snd (user_signal_peer fifo_has_peer fifo_update e x c t p) y) = fifo_peer (p y)"
  "fifo_wf (snd (user_signal_peer fifo_has_peer fifo_update e x c t p) y) = fifo_wf (p y)"
  "fifo_abs (snd (user_signal_peer fifo_has_peer fifo_update e x c t p) y) = fifo_abs (p y)"
  "elem_count (snd (user_signal_peer fifo_has_peer fifo_update e x c t p) y) = elem_count (p y)"
  by (simp_all add: user_signal_self_def user_signal_peer_def Let_def)

lemma fifo_signal_inv:
  assumes "fifo_inv p"
  shows "fifo_inv (snd (user_signal_self fifo_update 0 x c t p))"
    and "fifo_inv (snd (user_signal_peer fifo_has_peer fifo_update 0 x c t p))"
  using assms unfolding fifo_inv_def
  by (simp_all add: fifo_user_signal_frame fifo_peers.user_signal_self_kernel_bits [OF fifo_user_masks(1)]
     fifo_peers.user_signal_self_kernel_bits [OF fifo_user_masks(2)]
     fifo_peers.user_signal_peer_kernel_bits [OF fifo_user_masks(1)]
     fifo_peers.user_signal_peer_kernel_bits [OF fifo_user_masks(2)] del: length_fifo_abs)

lemma fifo_close_side:
  "fifo_close x p y =
     (if y = x then (p x)\<lparr>fifo_peer := False\<rparr>
      else if fifo_peer (p x) then UpdateStateLocked ZX_FIFO_WRITABLE ZX_FIFO_PEER_CLOSED ((p y)\<lparr>fifo_peer := False\<rparr>)
      else p y)"
  using side_cases_peer [of y x]
  by (auto simp: on_zero_handles_def Let_def fifo_has_peer_def fifo_reset_peer_def fifo_on_zero_handles_locked_def
      fifo_OnPeerZeroHandlesLocked_def fifo_update_def)

lemma fifo_peer_reset [simp]:
  "fifo_abs (f\<lparr>fifo_peer := b\<rparr>) = fifo_abs f" "fifo_wf (f\<lparr>fifo_peer := b\<rparr>) = fifo_wf f"
  by (simp_all add: fifo_abs_def fifo_wf_def)

lemma fifo_close_inv:
  assumes "fifo_inv p"
  shows "fifo_inv (fifo_close x p)"
  using assms fifo_inv_linked [OF assms, of x]
  unfolding fifo_inv_at [of _ x] fifo_close_side by (simp del: length_fifo_abs)

lemma fifo_step_inv: "fifo_step p q \<Longrightarrow> fifo_inv p \<Longrightarrow> fifo_inv q"
  by (induction rule: fifo_step.induct)
     (simp_all add: fifo_write_inv fifo_read_inv fifo_close_inv fifo_signal_inv)

lemma fifo_reachable_inv: "fifo_reachable p \<Longrightarrow> fifo_inv p"
  by (induction rule: fifo_reachable.induct) (auto dest: fifo_create_inv fifo_step_inv)

section \<open>The byte stream\<close>

text \<open>
  A run of calls by both holders, with the bytes that went into and came out of each
  side's ring. Every call is made with some user buffer; a call that fails moves nothing.
\<close>

datatype fifo_call =
    FWrite side "64 word" user_ptr "64 word"
  | FRead side "64 word" user_ptr "64 word"
  | FClose side

record fifo_io =
  io_pair :: fifo_pair
  io_in :: "side \<Rightarrow> byte list"
  io_out :: "side \<Rightarrow> byte list"

fun fifo_call_step :: "fifo_call \<Rightarrow> fifo_io \<Rightarrow> fifo_io" where
  "fifo_call_step (FWrite x esize ptr num) s =
     (case fifo_WriteFromUser x esize ptr num (io_pair s) of
        (Inl e, p) \<Rightarrow> s\<lparr>io_pair := p\<rparr>
      | (Inr n, p) \<Rightarrow>
          s\<lparr>io_pair := p,
            io_in := (io_in s)(peer_of x := io_in s (peer_of x) @ user_bytes ptr (n * unat esize))\<rparr>)"
| "fifo_call_step (FRead x esize ptr num) s =
     (case fifo_ReadToUser x esize ptr num (io_pair s) of
        (Inl e, p) \<Rightarrow> s\<lparr>io_pair := p\<rparr>
      | (Inr (n, out), p) \<Rightarrow>
          s\<lparr>io_pair := p, io_out := (io_out s)(x := io_out s x @ out)\<rparr>)"
| "fifo_call_step (FClose x) s = s\<lparr>io_pair := fifo_close x (io_pair s)\<rparr>"

definition fifo_io_inv :: "fifo_io \<Rightarrow> bool" where
  "fifo_io_inv s \<longleftrightarrow> fifo_inv (io_pair s) \<and>
     (\<forall>x. io_in s x = io_out s x @ concat (fifo_abs (io_pair s x)))"

lemma concat_user_slots:
  "concat (map (\<lambda>j. map (ub_byte ptr) [j * es..<j * es + es]) [0..<k]) = user_bytes ptr (k * es)"
  using map_slots_contiguous [of "ub_byte ptr" 0 es k] by (simp add: fifo_slot_def user_bytes_def)

lemma fifo_write_result:
  assumes "fifo_WriteFromUser x esize ptr num p = (r, q)" "fifo_wf (p (peer_of x))"
  shows "fifo_abs (q x) = fifo_abs (p x) \<and>
    concat (fifo_abs (q (peer_of x))) = concat (fifo_abs (p (peer_of x))) @
      (case r of Inl _ \<Rightarrow> [] | Inr n \<Rightarrow> user_bytes ptr (n * unat esize))"
proof (cases "fifo_peer (p x)")
  case False
  then show ?thesis using assms by (auto simp: fifo_WriteFromUser_def)
next
  case True
  then have eq: "fifo_WriteSelfLocked (peer_of x) esize ptr num p = (r, q)"
    using assms(1) by (simp add: fifo_WriteFromUser_def)
  show ?thesis
    using fifo_write_spec [of p "peer_of x", OF assms(2), of esize ptr num]
    unfolding eq by (auto simp: fifo_spec_write_def Let_def concat_user_slots split: if_splits)
qed

lemma fifo_read_result:
  assumes "fifo_ReadToUser x esize ptr num p = (r, q)" "fifo_wf (p x)"
  shows "fifo_abs (q (peer_of x)) = fifo_abs (p (peer_of x)) \<and>
    concat (fifo_abs (p x)) = (case r of Inl _ \<Rightarrow> [] | Inr (n, out) \<Rightarrow> out) @ concat (fifo_abs (q x))"
  using fifo_read_spec [of p x, OF assms(2), of esize ptr num]
  unfolding assms(1)
  by (auto simp: fifo_spec_read_def Let_def simp flip: concat_append split: if_splits)

lemma fifo_call_step_inv:
  assumes "fifo_io_inv s"
  shows "fifo_io_inv (fifo_call_step c s)"
proof (cases c)
  case (FWrite x esize ptr num)
  obtain r q where eq: "fifo_WriteFromUser x esize ptr num (io_pair s) = (r, q)" by fastforce
  have "fifo_inv q" using fifo_write_inv [of "io_pair s" x esize ptr num] assms eq by (simp add: fifo_io_inv_def)
  then show ?thesis
    using assms fifo_write_result [OF eq] FWrite eq all_sides [of _ x]
    by (auto simp: fifo_io_inv_def fifo_inv_def split: sum.splits)
next
  case (FRead x esize ptr num)
  obtain r q where eq: "fifo_ReadToUser x esize ptr num (io_pair s) = (r, q)" by fastforce
  have "fifo_inv q" using fifo_read_inv [of "io_pair s" x esize ptr num] assms eq by (simp add: fifo_io_inv_def)
  then show ?thesis
    using assms fifo_read_result [OF eq] FRead eq 
    by (auto simp: fifo_io_inv_def fifo_inv_def all_sides [of _ x] split: sum.splits)
next
  case (FClose x)
  then show ?thesis
    using assms fifo_close_inv [of "io_pair s" x] by (simp add: fifo_io_inv_def fifo_close_side)
qed

section \<open>Properties\<close>

text \<open>
  C7: bytes come out of a fifo in the order they went in, none lost, invented or
  repeated. From creation on, whatever calls the two holders make, the bytes written to a
  side are the bytes read from it followed by the elements its ring still holds.
\<close>

theorem fifo_stream:
  assumes "FifoDispatcher_Create alloc_ok k0 k1 d0 d1 num esize = Inr p"
  shows "let s = fold fifo_call_step calls \<lparr>io_pair = p, io_in = (\<lambda>_. []), io_out = (\<lambda>_. [])\<rparr>
         in io_in s x = io_out s x @ concat (fifo_abs (io_pair s x))"
proof -
  have "fifo_io_inv (fold fifo_call_step cs s)" if "fifo_io_inv s" for cs s
    using that by (induction cs arbitrary: s) (auto intro: fifo_call_step_inv)
  moreover have "fifo_io_inv \<lparr>io_pair = p, io_in = (\<lambda>_. []), io_out = (\<lambda>_. [])\<rparr>"
    using fifo_create_inv [OF assms] by (simp add: fifo_io_inv_def)
  ultimately show ?thesis
    by (simp only: fifo_io_inv_def Let_def) blast
qed

text \<open>A two-slot fifo of one-byte elements, for the examples.\<close>

definition fifo_example :: fifo_pair where
  "fifo_example = case_side (new_fifo 1024 2 1 (\<lambda>_. 0)) (new_fifo 1025 2 1 (\<lambda>_. 0))"

lemma fifo_example_created:
  "FifoDispatcher_Create [True, True] 1024 1025 (\<lambda>_. 0) (\<lambda>_. 0) 2 1 = Inr fifo_example"
  by (simp add: FifoDispatcher_Create_def fifo_example_def const_defs fun_eq_iff)

definition user_example :: user_ptr where
  "user_example = \<lparr>ub_byte = (\<lambda>i. of_nat (i + 65)), ub_ok = (\<lambda>i. i < 10)\<rparr>"

lemma fifo_example_write:
  "fst (fifo_WriteFromUser Side0 1 user_example 5 fifo_example) = Inr 2"
  by (simp add: fifo_WriteFromUser_def fifo_WriteSelfLocked_def fifo_example_def new_fifo_def Let_def
      fifo_write_loop.simps copy_array_from_user_def user_range_ok_def user_example_def upt_rec)

theorem fifo_stream_witness:
  "let s = fold fifo_call_step [FWrite Side0 1 user_example 5, FRead Side1 1 user_example 1]
             \<lparr>io_pair = fifo_example, io_in = (\<lambda>_. []), io_out = (\<lambda>_. [])\<rparr>
   in io_in s Side1 = [65, 66] \<and> io_out s Side1 = [65] \<and>
      io_in s Side1 = io_out s Side1 @ concat (fifo_abs (io_pair s Side1))"
  using fifo_stream [OF fifo_example_created, of "[FWrite Side0 1 user_example 5, FRead Side1 1 user_example 1]" Side1]
  by (simp add: fifo_WriteFromUser_def fifo_WriteSelfLocked_def fifo_ReadToUser_def
      fifo_example_def new_fifo_def Let_def user_bytes_def fifo_update_def blit_def UpdateStateLocked_def sig_defs upd_sig_def
      fifo_write_loop.simps fifo_read_loop.simps copy_array_from_user_def user_range_ok_def user_example_def upt_rec)

text \<open>
  C20: the signals of a fifo tell the truth in every reachable state. A side is readable
  exactly when its ring holds an element; while connected it is writable exactly when the
  peer's ring has room; no ring ever holds more than its capacity, and the two peer
  pointers agree.
\<close>

theorem fifo_signals_exact:
  assumes "fifo_reachable p"
  shows "(has_sig (obj_signals (p x)) ZX_FIFO_READABLE \<longleftrightarrow> fifo_abs (p x) \<noteq> []) \<and>
         (fifo_peer (p x) \<longrightarrow>
            (has_sig (obj_signals (p x)) ZX_FIFO_WRITABLE \<longleftrightarrow>
               length (fifo_abs (p (peer_of x))) < unat (elem_count (p (peer_of x))))) \<and>
         length (fifo_abs (p x)) \<le> unat (elem_count (p x)) \<and>
         fifo_peer (p (peer_of x)) = fifo_peer (p x)"
proof -
  have inv: "fifo_inv p" by (rule fifo_reachable_inv [OF assms])
  then have "fifo_wf (p x)" by (simp add: fifo_inv_def)
  then have "length (fifo_abs (p x)) \<le> unat (elem_count (p x))"
    unfolding fifo_wf_def length_fifo_abs by blast
  with inv fifo_inv_linked [OF inv, of x] show ?thesis
    unfolding fifo_inv_def by blast
qed

definition fifo_example_full :: fifo_pair where
  "fifo_example_full = snd (fifo_WriteFromUser Side0 1 user_example 5 fifo_example)"

lemma fifo_example_reachable: "fifo_reachable fifo_example" "fifo_reachable fifo_example_full"
  using fifo_reachable.create [OF fifo_example_created] fifo_reachable.step fifo_step.user_write
  by (auto simp: fifo_example_full_def)

lemma fifo_example_full_state:
  "fifo_head (fifo_example_full Side1) = 2" "fifo_tail (fifo_example_full Side1) = 0"
  "fifo_peer (fifo_example_full x)" "elem_count (fifo_example_full x) = 2" "elem_size (fifo_example_full x) = 1"
  by (cases x; simp add: fifo_example_full_def fifo_WriteFromUser_def fifo_WriteSelfLocked_def fifo_example_def
      new_fifo_def Let_def fifo_update_def UpdateStateLocked_def fifo_write_loop.simps copy_array_from_user_def
      user_range_ok_def user_example_def upt_rec)+

theorem fifo_signals_exact_witness:
  "fifo_reachable fifo_example_full \<and>
   has_sig (obj_signals (fifo_example_full Side1)) ZX_FIFO_READABLE \<and>
   \<not> has_sig (obj_signals (fifo_example_full Side0)) ZX_FIFO_WRITABLE"
  using fifo_signals_exact [OF fifo_example_reachable(2), of Side1]
    fifo_signals_exact [OF fifo_example_reachable(2), of Side0] fifo_example_reachable(2)
  by (simp add: fifo_example_full_state fifo_abs_empty)

text \<open>
  C21: writing to a fifo refines appending to a bounded queue of elements. A write on a
  reachable pair either fails (peer gone, wrong element size or zero count, queue full, bad user
  buffer) and changes no queue, or appends the first \<open>min num free\<close> elements of the
  buffer to the peer's queue and reports that number; the writer's own queue is never
  touched. The ring indices wrap and the user copy may be split in two, but neither is
  visible.
\<close>

theorem fifo_write_refines:
  assumes "fifo_reachable p"
  shows "let (r, q) = fifo_WriteFromUser x esize ptr num p; y = peer_of x
         in fifo_abs (q x) = fifo_abs (p x) \<and>
            (if fifo_peer (p x)
             then (r, fifo_abs (q y)) =
                    fifo_spec_write (unat (elem_count (p y))) (unat (elem_size (p y))) (unat esize) ptr
                      (unat num) (fifo_abs (p y))
             else (r, q) = (Inl ZX_ERR_PEER_CLOSED, p))"
proof -
  have "fifo_wf (p (peer_of x))"
    using fifo_reachable_inv [OF assms] by (simp add: fifo_inv_def)
  from fifo_write_spec [of p "peer_of x", OF this, of esize ptr num] show ?thesis
    by (auto simp: fifo_WriteFromUser_def split: prod.splits)
qed

theorem fifo_write_refines_witness:
  "fifo_reachable fifo_example \<and>
   (let (r, q) = fifo_WriteFromUser Side0 1 user_example 5 fifo_example
    in r = Inr 2 \<and> fifo_abs (q Side1) = [[65], [66]])"
proof -
  have e: "fifo_abs (fifo_example Side1) = []" "fifo_peer (fifo_example x)"
      "unat (elem_count (fifo_example x)) = 2" "unat (elem_size (fifo_example x)) = 1" for x
    by (cases x; simp add: fifo_example_def)+
  show ?thesis
    using fifo_write_refines [OF fifo_example_reachable(1), of Side0 1 user_example 5] fifo_example_reachable(1)
    by (auto simp: e fifo_spec_write_def user_range_ok_def user_example_def upt_rec Let_def
        simp del: length_fifo_abs split: prod.splits)
qed

text \<open>
  C22: reading from a fifo refines taking from the front of its queue. A read on a
  reachable pair fails without changing either queue (wrong element size or zero count, empty queue
  with or without a peer, bad user buffer), or delivers the oldest
  \<open>min num (length q)\<close> elements, in order, and removes exactly those.
\<close>

theorem fifo_read_refines:
  assumes "fifo_reachable p"
  shows "let (r, q) = fifo_ReadToUser x esize ptr num p
         in fifo_abs (q (peer_of x)) = fifo_abs (p (peer_of x)) \<and>
            (r, fifo_abs (q x)) =
              fifo_spec_read (fifo_peer (p x)) (unat (elem_size (p x))) (unat esize) ptr (unat num) (fifo_abs (p x))"
proof -
  have "fifo_wf (p x)"
    using fifo_reachable_inv [OF assms] by (simp add: fifo_inv_def)
  from fifo_read_spec [of p x, OF this, of esize ptr num] show ?thesis
    by (auto split: prod.splits)
qed

lemma fifo_example_full_abs: "fifo_abs (fifo_example_full Side1) = [[65], [66]]"
  by (simp add: fifo_abs_def ring_elems_def fifo_slot_def fifo_example_full_def fifo_WriteFromUser_def
      fifo_WriteSelfLocked_def fifo_example_def new_fifo_def Let_def fifo_update_def UpdateStateLocked_def
      blit_def fifo_write_loop.simps copy_array_from_user_def user_range_ok_def user_example_def upt_rec)

theorem fifo_read_refines_witness:
  "fifo_reachable fifo_example_full \<and>
   (let (r, q) = fifo_ReadToUser Side1 1 user_example 1 fifo_example_full
    in r = Inr (1, [65]) \<and> fifo_abs (q Side1) = [[66]])"
  using fifo_read_refines [OF fifo_example_reachable(2), of Side1 1 user_example 1] fifo_example_reachable(2)
  by (auto simp: fifo_example_full_state fifo_example_full_abs fifo_spec_read_def Let_def user_range_ok_def
      user_example_def upt_rec split: prod.splits)

text \<open>
  creation accepts exactly the documented sizes. \<^verbatim>\<open>Create\<close> succeeds (memory
  permitting) if and only if the count is a power of two, the element size is positive
  and their product is at most 4096; the product is computed modulo \<open>2 ^ 64\<close> but the
  earlier bounds on the factors make that exact. It then yields two connected, empty,
  writable endpoints.
\<close>

theorem fifo_create_exact:
  "FifoDispatcher_Create alloc_ok k0 k1 d0 d1 num esize =
     (if \<not> fifo_valid_args (unat num) (unat esize) then Inl ZX_ERR_OUT_OF_RANGE
      else if \<not> list_all id alloc_ok then Inl ZX_ERR_NO_MEMORY
      else Inr (case_side (new_fifo k0 (ucast num) (ucast esize) d0) (new_fifo k1 (ucast num) (ucast esize) d1)))"
  unfolding FifoDispatcher_Create_def fifo_args_check [symmetric] by simp

text \<open>
  closing one end. Closing a side of a connected reachable pair disconnects both, shows the
  survivor the peer-closed signal and withdraws writable; from then on its writes and
  peer signals fail with \<^verbatim>\<open>ZX_ERR_PEER_CLOSED\<close>, while the elements already in its
  ring stay readable.
\<close>

theorem fifo_close_effect:
  assumes "fifo_reachable p" "fifo_peer (p x)"
  shows "let q = fifo_close x p; y = peer_of x
         in \<not> fifo_peer (q x) \<and> \<not> fifo_peer (q y) \<and>
            has_sig (obj_signals (q y)) ZX_FIFO_PEER_CLOSED \<and>
            \<not> has_sig (obj_signals (q y)) ZX_FIFO_WRITABLE \<and>
            fifo_WriteFromUser y esize ptr num q = (Inl ZX_ERR_PEER_CLOSED, q) \<and>
            user_signal_peer fifo_has_peer fifo_update 0 y 0 0 q = (ZX_ERR_PEER_CLOSED, q) \<and>
            fifo_abs (q y) = fifo_abs (p y)"
proof -
  have linked: "fifo_peers.linked p"
    using fifo_reachable_inv [OF assms(1)] by (simp add: fifo_peers.linked_def fifo_has_peer_def fifo_inv_def)
  have "\<not> fifo_peer (fifo_close x p y)" for y
    using fifo_peers.close_disconnects [OF linked, of y x] by (simp add: fifo_has_peer_def)
  moreover have "has_sig (obj_signals (fifo_close x p (peer_of x))) ZX_FIFO_PEER_CLOSED"
      "\<not> has_sig (obj_signals (fifo_close x p (peer_of x))) ZX_FIFO_WRITABLE"
    using fifo_peers.close_signals [of x p] assms(2)
    by (simp_all add: fifo_has_peer_def ZX_FIFO_PEER_CLOSED_def ZX_FIFO_WRITABLE_def)
  ultimately show ?thesis
    using fifo_peers.signal_peer_after_close [OF linked, of 0 0 0 "peer_of x" x] assms(2)
    by (simp add: Let_def fifo_WriteFromUser_def fifo_close_side [of x p "peer_of x"])
qed

theorem fifo_close_effect_witness:
  "fifo_reachable fifo_example_full \<and> fifo_peer (fifo_example_full Side0) \<and>
   has_sig (obj_signals (fifo_close Side0 fifo_example_full Side1)) ZX_FIFO_PEER_CLOSED \<and>
   fst (fifo_WriteFromUser Side1 1 user_example 1 (fifo_close Side0 fifo_example_full)) =
     Inl ZX_ERR_PEER_CLOSED"
  using fifo_close_effect [OF fifo_example_reachable(2), of Side0 1 user_example 1] fifo_example_reachable(2)
  by (simp add: fifo_example_full_state Let_def)

end
