(* ===== verification/MBuf.thy ===== *)
theory MBuf
  imports Kernel_Prelude
begin

text \<open>
  The buffer chain behind sockets (\<^verbatim>\<open>kernel/object/mbuf.cpp\<close>): a singly linked list
  of fixed-size buffers (\<open>mc_tail\<close>, oldest first), a pointer to the newest one
  (\<open>mc_head\<close>), a free list, and the number of bytes stored.

  A buffer is identified by its address \<open>mb_id\<close>; \<^verbatim>\<open>head_\<close> is such an address. The
  heap allocator hands out a new address on every call and may fail: the argument
  \<open>alloc\<close> says for every call (numbered by \<open>mc_next\<close>) whether it succeeds. Offsets and
  lengths are natural numbers: the invariant \<open>chain_wf\<close> bounds every offset and length by
  \<open>mbuf_kPayloadSize\<close> and the total by \<open>mbuf_kSizeMax\<close>, so none of the 32-bit fields wraps
  and no subtraction goes below zero.
\<close>

section \<open>State\<close>

definition mbuf_kHeaderSize :: nat where
  [const_defs]: "mbuf_kHeaderSize = 8 + 4 * 4"

definition mbuf_kMallocSize :: nat where
  [const_defs]: "mbuf_kMallocSize = 2048 - 16"

definition mbuf_kPayloadSize :: nat where
  [const_defs]: "mbuf_kPayloadSize = mbuf_kMallocSize - mbuf_kHeaderSize"

definition mbuf_kSizeMax :: nat where
  [const_defs]: "mbuf_kSizeMax = 128 * mbuf_kPayloadSize"

record mbuf =
  mb_id :: nat
  mb_off :: nat
  mb_len :: nat
  mb_pkt_len :: nat
  mb_data :: "nat \<Rightarrow> byte"

record mbuf_chain =
  mc_freelist :: "mbuf list"
  mc_tail :: "mbuf list"
  mc_head :: "nat option"
  mc_size :: nat
  mc_next :: nat

definition new_mbuf :: "nat \<Rightarrow> mbuf" where
  "new_mbuf i = \<lparr>mb_id = i, mb_off = 0, mb_len = 0, mb_pkt_len = 0, mb_data = (\<lambda>_. 0)\<rparr>"

definition empty_chain :: mbuf_chain where
  "empty_chain = \<lparr>mc_freelist = [], mc_tail = [], mc_head = None, mc_size = 0, mc_next = 0\<rparr>"

definition mbuf_rem :: "mbuf \<Rightarrow> nat" where
  "mbuf_rem m = mbuf_kPayloadSize - (mb_off m + mb_len m)"

definition mbuf_is_full :: "mbuf_chain \<Rightarrow> bool" where
  "mbuf_is_full c \<longleftrightarrow> mc_size c \<ge> mbuf_kSizeMax"

definition mbuf_is_empty :: "mbuf_chain \<Rightarrow> bool" where
  "mbuf_is_empty c \<longleftrightarrow> mc_size c = 0"

definition mbuf_size :: "bool \<Rightarrow> mbuf_chain \<Rightarrow> nat" where
  "mbuf_size datagram c =
     (if datagram \<and> mc_size c \<noteq> 0 then mb_pkt_len (hd (mc_tail c)) else mc_size c)"

definition mbuf_max_size :: nat where
  "mbuf_max_size = mbuf_kSizeMax"

section \<open>Allocation\<close>

definition AllocMBuf :: "(nat \<Rightarrow> bool) \<Rightarrow> mbuf_chain \<Rightarrow> mbuf option \<times> mbuf_chain" where
  "AllocMBuf alloc c =
     (case mc_freelist c of
        [] \<Rightarrow> (if alloc (mc_next c) then Some (new_mbuf (mc_next c)) else None,
               c\<lparr>mc_next := Suc (mc_next c)\<rparr>)
      | m # ms \<Rightarrow> (Some m, c\<lparr>mc_freelist := ms\<rparr>))"

definition FreeMBuf :: "mbuf \<Rightarrow> mbuf_chain \<Rightarrow> mbuf_chain" where
  "FreeMBuf m c = c\<lparr>mc_freelist := m\<lparr>mb_off := 0, mb_len := 0\<rparr> # mc_freelist c\<rparr>"

text \<open>\<^verbatim>\<open>while (!bufs.is_empty()) FreeMBuf(bufs.pop_front())\<close>.\<close>

definition free_bufs :: "mbuf list \<Rightarrow> mbuf_chain \<Rightarrow> mbuf_chain" where
  "free_bufs bufs c = fold FreeMBuf bufs c"

section \<open>Reading\<close>

text \<open>Popping the front buffer and putting it on the free list.\<close>

definition drop_front :: "mbuf \<Rightarrow> mbuf list \<Rightarrow> mbuf_chain \<Rightarrow> mbuf_chain" where
  "drop_front m ms c =
     FreeMBuf m (c\<lparr>mc_tail := ms, mc_head := (if mc_head c = Some (mb_id m) then None else mc_head c)\<rparr>)"

text \<open>
  The loop of \<^verbatim>\<open>ReadHelper\<close> on a mutable chain. The iterator is always at the front
  of the list: a round that does not pop the front leaves bytes in it, so it has copied
  all that was asked for. The first component of the result is False when a copy to the
  user faulted (the early return).
\<close>

function mbuf_read_loop ::
    "user_ptr \<Rightarrow> nat \<Rightarrow> bool \<Rightarrow> nat \<Rightarrow> byte list \<Rightarrow> mbuf_chain \<Rightarrow> bool \<times> nat \<times> byte list \<times> mbuf_chain" where
  "mbuf_read_loop dst len datagram pos out c =
     (if pos < len then
        (case mc_tail c of
           [] \<Rightarrow> (True, pos, out, c)
         | m # ms \<Rightarrow>
             let copy_len = min (mb_len m) (len - pos) in
             if \<not> user_range_ok dst pos copy_len then (False, pos, out, c)
             else
               let out' = out @ map (mb_data m) [mb_off m..<mb_off m + copy_len];
                   m' = m\<lparr>mb_off := mb_off m + copy_len, mb_len := mb_len m - copy_len\<rparr>;
                   c' = c\<lparr>mc_tail := m' # ms, mc_size := mc_size c - copy_len\<rparr>
               in if mb_len m' = 0 \<or> datagram
                  then mbuf_read_loop dst len datagram (pos + copy_len) out'
                         (drop_front m' ms (c'\<lparr>mc_size := mc_size c' - mb_len m'\<rparr>))
                  else mbuf_read_loop dst len datagram (pos + copy_len) out' c')
      else (True, pos, out, c))"
  by pat_completeness auto
termination
  by (relation "measure (\<lambda>(dst, len, datagram, pos, out, c). length (mc_tail c) + (len - pos))")
     (auto simp: drop_front_def FreeMBuf_def)

declare mbuf_read_loop.simps [simp del]

text \<open>Draining the leftover buffers of a datagram.\<close>

function mbuf_drain :: "mbuf_chain \<Rightarrow> mbuf_chain" where
  "mbuf_drain c =
     (case mc_tail c of
        [] \<Rightarrow> c
      | m # ms \<Rightarrow>
          if mb_pkt_len m = 0
          then mbuf_drain (drop_front m ms (c\<lparr>mc_size := mc_size c - mb_len m\<rparr>))
          else c)"
  by pat_completeness auto
termination
  by (relation "measure (\<lambda>c. length (mc_tail c))") (auto simp: drop_front_def FreeMBuf_def)

declare mbuf_drain.simps [simp del]

text \<open>The clamp at the top of \<^verbatim>\<open>ReadHelper\<close>, shared by reading and peeking.\<close>

definition read_clamp :: "nat \<Rightarrow> bool \<Rightarrow> mbuf_chain \<Rightarrow> nat" where
  "read_clamp len datagram c =
     (if datagram \<and> len > mb_pkt_len (hd (mc_tail c)) then mb_pkt_len (hd (mc_tail c)) else len)"

definition mbuf_Read ::
    "user_ptr \<Rightarrow> nat \<Rightarrow> bool \<Rightarrow> mbuf_chain \<Rightarrow> nat \<times> byte list \<times> mbuf_chain" where
  "mbuf_Read dst len datagram c =
     (if mc_size c = 0 then (0, [], c)
      else case mbuf_read_loop dst (read_clamp len datagram c) datagram 0 [] c of
             (ok, pos, out, c') \<Rightarrow> (pos, out, if ok \<and> datagram then mbuf_drain c' else c'))"

text \<open>The loop on a const chain only moves the iterator.\<close>

fun mbuf_peek_loop ::
    "user_ptr \<Rightarrow> nat \<Rightarrow> nat \<Rightarrow> byte list \<Rightarrow> mbuf list \<Rightarrow> nat \<times> byte list" where
  "mbuf_peek_loop dst len pos out [] = (pos, out)"
| "mbuf_peek_loop dst len pos out (m # ms) =
     (if pos < len then
        let copy_len = min (mb_len m) (len - pos) in
        if \<not> user_range_ok dst pos copy_len then (pos, out)
        else mbuf_peek_loop dst len (pos + copy_len)
               (out @ map (mb_data m) [mb_off m..<mb_off m + copy_len]) ms
      else (pos, out))"

definition mbuf_Peek :: "user_ptr \<Rightarrow> nat \<Rightarrow> bool \<Rightarrow> mbuf_chain \<Rightarrow> nat \<times> byte list" where
  "mbuf_Peek dst len datagram c =
     (if mc_size c = 0 then (0, [])
      else mbuf_peek_loop dst (read_clamp len datagram c) 0 [] (mc_tail c))"

section \<open>Writing\<close>

text \<open>
  \<^verbatim>\<open>tail_.insert_after(tail_.make_iterator( *head_), next)\<close>. The head is always in the
  list (\<open>chain_wf\<close>).
\<close>

fun insert_after :: "nat \<Rightarrow> mbuf \<Rightarrow> mbuf list \<Rightarrow> mbuf list" where
  "insert_after i new [] = []"
| "insert_after i new (m # ms) = (if mb_id m = i then m # new # ms else m # insert_after i new ms)"

fun alloc_bufs ::
    "(nat \<Rightarrow> bool) \<Rightarrow> nat \<Rightarrow> mbuf list \<Rightarrow> mbuf_chain \<Rightarrow> mbuf list option \<times> mbuf_chain" where
  "alloc_bufs alloc 0 bufs c = (Some bufs, c)"
| "alloc_bufs alloc (Suc need) bufs c =
     (case AllocMBuf alloc c of
        (None, c') \<Rightarrow> (None, free_bufs bufs c')
      | (Some b, c') \<Rightarrow> alloc_bufs alloc need (b # bufs) c')"

text \<open>Copying the datagram into its buffers; the flag is False when a copy faulted.\<close>

fun fill_bufs :: "user_ptr \<Rightarrow> nat \<Rightarrow> nat \<Rightarrow> mbuf list \<Rightarrow> bool \<times> mbuf list" where
  "fill_bufs src len pos [] = (True, [])"
| "fill_bufs src len pos (b # bs) =
     (let copy_len = min mbuf_kPayloadSize (len - pos) in
      case copy_array_from_user src pos copy_len of
        None \<Rightarrow> (False, b # bs)
      | Some bytes \<Rightarrow>
          (case fill_bufs src len (pos + copy_len) bs of
             (ok, bs') \<Rightarrow> (ok, b\<lparr>mb_data := blit (mb_data b) 0 bytes, mb_len := mb_len b + copy_len\<rparr> # bs')))"

definition append_buf :: "mbuf \<Rightarrow> mbuf_chain \<Rightarrow> mbuf_chain" where
  "append_buf next c =
     c\<lparr>mc_tail := (case mc_head c of
                     None \<Rightarrow> next # mc_tail c
                   | Some h \<Rightarrow> insert_after h next (mc_tail c)),
       mc_head := Some (mb_id next)\<rparr>"

definition set_pkt_len :: "nat \<Rightarrow> mbuf list \<Rightarrow> mbuf list" where
  "set_pkt_len len bufs = (case bufs of [] \<Rightarrow> [] | b # bs \<Rightarrow> b\<lparr>mb_pkt_len := len mod 2 ^ 32\<rparr> # bs)"

definition WriteDatagram ::
    "(nat \<Rightarrow> bool) \<Rightarrow> user_ptr \<Rightarrow> nat \<Rightarrow> mbuf_chain \<Rightarrow> (zx_status_t + nat) \<times> mbuf_chain" where
  "WriteDatagram alloc src len c =
     (if len = 0 then (Inl ZX_ERR_INVALID_ARGS, c)
      else if len > mbuf_kSizeMax then (Inl ZX_ERR_OUT_OF_RANGE, c)
      else if len + mc_size c > mbuf_kSizeMax then (Inl ZX_ERR_SHOULD_WAIT, c)
      else case alloc_bufs alloc (1 + (len - 1) div mbuf_kPayloadSize) [] c of
             (None, c1) \<Rightarrow> (Inl ZX_ERR_SHOULD_WAIT, c1)
           | (Some bufs, c1) \<Rightarrow>
               (case fill_bufs src len 0 bufs of
                  (False, bufs') \<Rightarrow> (Inl ZX_ERR_INVALID_ARGS, free_bufs bufs' c1)
                | (True, bufs') \<Rightarrow>
                    let c2 = fold append_buf (set_pkt_len len bufs') c1
                    in (Inr len, c2\<lparr>mc_size := mc_size c2 + len\<rparr>)))"

text \<open>Looking up and updating the buffer \<^verbatim>\<open>head_\<close> points to.\<close>

definition upd_mbuf :: "nat \<Rightarrow> (mbuf \<Rightarrow> mbuf) \<Rightarrow> mbuf_chain \<Rightarrow> mbuf_chain" where
  "upd_mbuf i f c = c\<lparr>mc_tail := map (\<lambda>m. if mb_id m = i then f m else m) (mc_tail c)\<rparr>"

definition head_buf :: "mbuf_chain \<Rightarrow> mbuf option" where
  "head_buf c = (case mc_head c of None \<Rightarrow> None | Some h \<Rightarrow> find (\<lambda>m. mb_id m = h) (mc_tail c))"

text \<open>
  The loop of \<^verbatim>\<open>WriteStream\<close>. \<open>copy_len\<close> can only be zero when the chain is at its
  maximum size, because a fresh or recycled buffer has room (\<open>chain_wf\<close>); the source
  tests it in that case only.
\<close>

function mbuf_write_loop ::
    "(nat \<Rightarrow> bool) \<Rightarrow> user_ptr \<Rightarrow> nat \<Rightarrow> nat \<Rightarrow> mbuf_chain \<Rightarrow> nat \<times> mbuf_chain" where
  "mbuf_write_loop alloc src len pos c =
     (if pos < len then
        (case head_buf c of
           None \<Rightarrow> (pos, c)
         | Some h0 \<Rightarrow>
             (case (if mbuf_rem h0 = 0
                    then (case AllocMBuf alloc c of
                            (None, c') \<Rightarrow> (None, c')
                          | (Some next, c') \<Rightarrow> (Some next, append_buf next c'))
                    else (Some h0, c)) of
                (None, c1) \<Rightarrow> (pos, c1)
              | (Some h, c1) \<Rightarrow>
                  let want = min (mbuf_rem h) (len - pos);
                      copy_len = (if mc_size c1 + want > mbuf_kSizeMax
                                  then mbuf_kSizeMax - mc_size c1 else want)
                  in if copy_len = 0 then (pos, c1)
                     else case copy_array_from_user src pos copy_len of
                            None \<Rightarrow> (pos, c1)
                          | Some bytes \<Rightarrow>
                              mbuf_write_loop alloc src len (pos + copy_len)
                                ((upd_mbuf (mb_id h)
                                    (\<lambda>m. m\<lparr>mb_data := blit (mb_data m) (mb_off m + mb_len m) bytes,
                                           mb_len := mb_len m + copy_len\<rparr>) c1)
                                 \<lparr>mc_size := mc_size c1 + copy_len\<rparr>)))
      else (pos, c))"
  by pat_completeness auto
termination
  by (relation "measure (\<lambda>(alloc, src, len, pos, c). len - pos)") auto

declare mbuf_write_loop.simps [simp del]

definition WriteStream ::
    "(nat \<Rightarrow> bool) \<Rightarrow> user_ptr \<Rightarrow> nat \<Rightarrow> mbuf_chain \<Rightarrow> (zx_status_t + nat) \<times> mbuf_chain" where
  "WriteStream alloc src len c =
     (case (case mc_head c of
              Some h \<Rightarrow> (True, c)
            | None \<Rightarrow>
                (case AllocMBuf alloc c of
                   (None, c') \<Rightarrow> (False, c')
                 | (Some b, c') \<Rightarrow> (True, c'\<lparr>mc_head := Some (mb_id b), mc_tail := b # mc_tail c'\<rparr>))) of
        (False, c1) \<Rightarrow> (Inl ZX_ERR_SHOULD_WAIT, c1)
      | (True, c1) \<Rightarrow>
          (case mbuf_write_loop alloc src len 0 c1 of
             (pos, c2) \<Rightarrow> (if pos = 0 then Inl ZX_ERR_SHOULD_WAIT else Inr pos, c2)))"

section \<open>Well-formed chains\<close>

definition mb_bytes :: "mbuf \<Rightarrow> byte list" where
  "mb_bytes m = map (mb_data m) [mb_off m..<mb_off m + mb_len m]"

definition bufs_bytes :: "mbuf list \<Rightarrow> byte list" where
  "bufs_bytes ms = concat (map mb_bytes ms)"

definition chain_bytes :: "mbuf_chain \<Rightarrow> byte list" where
  "chain_bytes c = bufs_bytes (mc_tail c)"

definition bufs_len :: "mbuf list \<Rightarrow> nat" where
  "bufs_len ms = sum_list (map mb_len ms)"

text \<open>
  \<open>chain_ok bufs c\<close>: the shape of a chain while \<open>bufs\<close> are detached from it (allocated
  and not yet linked). Buffers stay inside their payload, the ones on the free list are
  reset, every address is used once, and the head is the last buffer of the list.
\<close>

definition chain_ok :: "mbuf list \<Rightarrow> mbuf_chain \<Rightarrow> bool" where
  "chain_ok bufs c \<longleftrightarrow>
     (\<forall>m \<in> set (mc_tail c). mb_off m + mb_len m \<le> mbuf_kPayloadSize) \<and>
     (\<forall>m \<in> set (mc_freelist c). mb_off m = 0 \<and> mb_len m = 0) \<and>
     distinct (map mb_id (bufs @ mc_tail c @ mc_freelist c)) \<and>
     (\<forall>i \<in> set (map mb_id (bufs @ mc_tail c @ mc_freelist c)). i < mc_next c) \<and>
     mc_head c = (if mc_tail c = [] then None else Some (mb_id (last (mc_tail c))))"

definition chain_wf :: "mbuf_chain \<Rightarrow> bool" where
  "chain_wf c \<longleftrightarrow> chain_ok [] c \<and> mc_size c = bufs_len (mc_tail c) \<and> mc_size c \<le> mbuf_kSizeMax"

lemma length_mb_bytes [simp]: "length (mb_bytes m) = mb_len m"
  by (simp add: mb_bytes_def)

lemma bufs_simps [simp]:
  "bufs_bytes [] = []" "bufs_bytes (m # ms) = mb_bytes m @ bufs_bytes ms"
  "bufs_bytes (ms @ ns) = bufs_bytes ms @ bufs_bytes ns"
  "bufs_len [] = 0" "bufs_len (m # ms) = mb_len m + bufs_len ms"
  "bufs_len (ms @ ns) = bufs_len ms + bufs_len ns"
  by (simp_all add: bufs_bytes_def bufs_len_def)

lemma length_bufs_bytes [simp]: "length (bufs_bytes ms) = bufs_len ms"
  by (induction ms) auto

lemma length_chain_bytes: "chain_wf c \<Longrightarrow> length (chain_bytes c) = mc_size c"
  by (simp add: chain_wf_def chain_bytes_def)

lemma empty_chain_wf: "chain_wf empty_chain"
  by (simp add: chain_wf_def chain_ok_def empty_chain_def)

lemma chain_ok_cong:
  "mc_tail c' = mc_tail c \<Longrightarrow> mc_freelist c' = mc_freelist c \<Longrightarrow> mc_head c' = mc_head c \<Longrightarrow>
   mc_next c' = mc_next c \<Longrightarrow> chain_ok bufs c' = chain_ok bufs c"
  by (simp add: chain_ok_def)

lemma chain_ok_size [simp]: "chain_ok bufs (c\<lparr>mc_size := n\<rparr>) = chain_ok bufs c"
  by (rule chain_ok_cong) simp_all

subsection \<open>Allocation\<close>

lemma AllocMBuf_frame [simp]:
  assumes "AllocMBuf alloc c = (r, c')"
  shows "mc_tail c' = mc_tail c" "mc_head c' = mc_head c" "mc_size c' = mc_size c"
  using assms by (auto simp: AllocMBuf_def split: list.splits if_splits)

lemma AllocMBuf_ok:
  assumes "chain_ok bufs c" "AllocMBuf alloc c = (r, c')"
  shows "(case r of None \<Rightarrow> chain_ok bufs c'
          | Some b \<Rightarrow> chain_ok (b # bufs) c' \<and> mb_off b = 0 \<and> mb_len b = 0)"
proof (cases "mc_freelist c")
  case Nil
  have lt: "\<forall>i \<in> set (map mb_id (bufs @ mc_tail c)). i < mc_next c"
    using assms(1) Nil by (simp add: chain_ok_def)
  then have "mc_next c \<notin> set (map mb_id (bufs @ mc_tail c))" by blast
  moreover have "\<forall>i \<in> set (map mb_id (bufs @ mc_tail c)). i < Suc (mc_next c)"
    using lt by (simp add: less_Suc_eq)
  moreover have "c' = c\<lparr>mc_next := Suc (mc_next c)\<rparr>" "r = (if alloc (mc_next c) then Some (new_mbuf (mc_next c)) else None)"
    using assms(2) Nil by (auto simp: AllocMBuf_def)
  ultimately show ?thesis
    using assms(1) Nil by (simp add: chain_ok_def new_mbuf_def)
next
  case (Cons m ms)
  then show ?thesis
    using assms by (auto simp: chain_ok_def AllocMBuf_def)
qed

lemma FreeMBuf_ok:
  assumes "chain_ok (m # bufs) c"
  shows "chain_ok bufs (FreeMBuf m c)"
  using assms by (auto simp: chain_ok_def FreeMBuf_def)

lemma FreeMBuf_frame [simp]:
  "mc_tail (FreeMBuf m c) = mc_tail c" "mc_head (FreeMBuf m c) = mc_head c" "mc_size (FreeMBuf m c) = mc_size c"
  by (simp_all add: FreeMBuf_def)

lemma free_bufs_frame [simp]:
  "mc_tail (free_bufs bufs c) = mc_tail c" "mc_head (free_bufs bufs c) = mc_head c"
  "mc_size (free_bufs bufs c) = mc_size c"
  by (induction bufs arbitrary: c) (simp_all add: free_bufs_def)

lemma free_bufs_ok:
  assumes "chain_ok (bufs @ rest) c"
  shows "chain_ok rest (free_bufs bufs c)"
  using assms by (induction bufs arbitrary: c) (auto simp: free_bufs_def dest: FreeMBuf_ok)

lemma chain_ok_same_ids:
  assumes "chain_ok bufs c" "map mb_id bufs' = map mb_id bufs"
  shows "chain_ok bufs' c"
  using assms(1) unfolding chain_ok_def map_append assms(2) .

lemma alloc_bufs_ok:
  assumes "chain_ok bufs c" "\<forall>b \<in> set bufs. mb_off b = 0 \<and> mb_len b = 0"
    "alloc_bufs alloc need bufs c = (r, c')"
  shows "mc_tail c' = mc_tail c \<and> mc_head c' = mc_head c \<and> mc_size c' = mc_size c \<and>
    (case r of None \<Rightarrow> chain_ok [] c'
     | Some bs \<Rightarrow> chain_ok bs c' \<and> (\<forall>b \<in> set bs. mb_off b = 0 \<and> mb_len b = 0) \<and>
                  length bs = need + length bufs)"
  using assms
proof (induction need arbitrary: bufs c)
  case 0
  then show ?case by auto
next
  case (Suc need)
  obtain a c1 where a: "AllocMBuf alloc c = (a, c1)" by fastforce
  note f = AllocMBuf_frame [OF a] AllocMBuf_ok [OF Suc.prems(1) a]
  show ?case
  proof (cases a)
    case None
    then show ?thesis
      using Suc.prems a f free_bufs_ok [of bufs "[]" c1] by auto
  next
    case (Some b)
    then show ?thesis
      using Suc.prems a f Suc.IH [of "b # bufs" c1] by (auto split: option.splits)
  qed
qed

subsection \<open>The list\<close>

lemma last_id_neq: "mb_id m \<notin> mb_id ` set ms \<Longrightarrow> mb_id (last ms) = mb_id m \<Longrightarrow> ms = []"
  by (metis imageI last_in_set)

lemma insert_after_last:
  assumes "ms \<noteq> []" "distinct (map mb_id ms)"
  shows "insert_after (mb_id (last ms)) new ms = ms @ [new]"
  using assms
proof (induction ms)
  case (Cons m ms)
  show ?case
  proof (cases "ms = []")
    case False
    then have "mb_id m \<noteq> mb_id (last ms)"
      using Cons.prems(2) last_id_neq [of m ms] by auto
    then show ?thesis using Cons False by simp
  qed simp
qed simp

lemma append_buf_tail:
  assumes "chain_ok bufs c"
  shows "mc_tail (append_buf b c) = mc_tail c @ [b]"
  using assms insert_after_last [of "mc_tail c" b]
  by (cases "mc_tail c = []") (auto simp: append_buf_def chain_ok_def)

lemma append_buf_ok:
  assumes "chain_ok (b # bufs) c" "mb_off b + mb_len b \<le> mbuf_kPayloadSize"
  shows "chain_ok bufs (append_buf b c)"
  using assms append_buf_tail [OF assms(1), of b]
  by (auto simp: chain_ok_def append_buf_def)

lemma append_buf_size [simp]: "mc_size (append_buf b c) = mc_size c"
  by (simp add: append_buf_def)

lemma append_bufs_ok:
  assumes "chain_ok (bs @ rest) c" "\<forall>b \<in> set bs. mb_off b + mb_len b \<le> mbuf_kPayloadSize"
  shows "chain_ok rest (fold append_buf bs c) \<and> mc_tail (fold append_buf bs c) = mc_tail c @ bs \<and>
         mc_size (fold append_buf bs c) = mc_size c"
  using assms
proof (induction bs arbitrary: c)
  case (Cons b bs)
  then show ?case
    using append_buf_ok [of b "bs @ rest" c] append_buf_tail [of "b # bs @ rest" c b] by auto
qed simp

lemma drop_front_ok:
  assumes "chain_ok [] c" "mc_tail c = m # ms" "mb_id m' = mb_id m"
  shows "chain_ok [] (drop_front m' ms c)"
  using assms by (auto simp: chain_ok_def drop_front_def FreeMBuf_def dest: last_id_neq)

lemma drop_front_frame [simp]:
  "mc_tail (drop_front m ms c) = ms" "mc_size (drop_front m ms c) = mc_size c"
  by (simp_all add: drop_front_def)

subsection \<open>Stream reads\<close>

lemma mb_bytes_take:
  "k \<le> mb_len m \<Longrightarrow> map (mb_data m) [mb_off m..<mb_off m + k] = take k (mb_bytes m)"
  by (simp add: mb_bytes_def take_map)

lemma mb_bytes_drop:
  "k \<le> mb_len m \<Longrightarrow> mb_bytes (m\<lparr>mb_off := mb_off m + k, mb_len := mb_len m - k\<rparr>) = drop k (mb_bytes m)"
  by (simp add: mb_bytes_def drop_map)

definition mbuf_eat :: "nat \<Rightarrow> mbuf \<Rightarrow> mbuf" where
  "mbuf_eat k m = m\<lparr>mb_off := mb_off m + k, mb_len := mb_len m - k\<rparr>"

lemma mbuf_eat_simps [simp]:
  "mb_id (mbuf_eat k m) = mb_id m" "mb_len (mbuf_eat k m) = mb_len m - k"
  "mb_off (mbuf_eat k m) = mb_off m + k" "mb_pkt_len (mbuf_eat k m) = mb_pkt_len m"
  "k \<le> mb_len m \<Longrightarrow> mb_bytes (mbuf_eat k m) = drop k (mb_bytes m)"
  by (simp_all add: mbuf_eat_def mb_bytes_drop)

text \<open>One round of the read loop, with its two outcomes named.\<close>

lemma mbuf_read_loop_round:
  assumes "pos < len" "mc_tail c = m # ms"
  defines "k \<equiv> min (mb_len m) (len - pos)"
  shows "mbuf_read_loop dst len dg pos out c =
    (if \<not> user_range_ok dst pos k then (False, pos, out, c)
     else if mb_len m = k \<or> dg
     then mbuf_read_loop dst len dg (pos + k) (out @ take k (mb_bytes m))
            (drop_front (mbuf_eat k m) ms (c\<lparr>mc_tail := mbuf_eat k m # ms, mc_size := mc_size c - k - (mb_len m - k)\<rparr>))
     else mbuf_read_loop dst len dg (pos + k) (out @ take k (mb_bytes m))
            (c\<lparr>mc_tail := mbuf_eat k m # ms, mc_size := mc_size c - k\<rparr>))"
  using assms(1,2) mb_bytes_take [of k m]
  by (subst mbuf_read_loop.simps) (auto simp: k_def Let_def mbuf_eat_def)

lemma mbuf_read_loop_done:
  "\<not> (pos < len \<and> mc_tail c \<noteq> []) \<Longrightarrow> mbuf_read_loop dst len dg pos out c = (True, pos, out, c)"
  by (subst mbuf_read_loop.simps) (auto split: list.splits)

lemma chain_wf_eat:
  assumes "chain_wf c" "mc_tail c = m # ms" "k \<le> mb_len m"
  shows "chain_wf (c\<lparr>mc_tail := mbuf_eat k m # ms, mc_size := mc_size c - k\<rparr>)"
  using assms by (auto simp: chain_wf_def chain_ok_def)

lemma chain_wf_drop_front:
  assumes "chain_wf c" "mc_tail c = m # ms" "mb_id m' = mb_id m" "n = mc_size c - mb_len m"
  shows "chain_wf (drop_front m' ms (c\<lparr>mc_tail := m' # ms, mc_size := n\<rparr>))"
  using assms by (auto simp: chain_wf_def chain_ok_def drop_front_def FreeMBuf_def dest: last_id_neq)

lemma mbuf_read_loop_stream:
  assumes "chain_wf c" "pos \<le> len" "mbuf_read_loop dst len False pos out c = (ok, pos', out', c')"
  shows "chain_wf c' \<and>
    (\<exists>bs. out' = out @ bs \<and> pos' = pos + length bs \<and> pos' \<le> len \<and> chain_bytes c = bs @ chain_bytes c' \<and>
          (ok \<longrightarrow> bs = take (len - pos) (chain_bytes c)) \<and>
          (user_range_ok dst pos (min (len - pos) (length (chain_bytes c))) \<longrightarrow> ok))"
  using assms
proof (induction "length (mc_tail c) + (len - pos)" arbitrary: c pos out rule: less_induct)
  case less
  show ?case
  proof (cases "pos < len \<and> mc_tail c \<noteq> []")
    case False
    then show ?thesis
      using less.prems mbuf_read_loop_done [OF False, of dst False out]
      by (auto simp: chain_bytes_def)
  next
    case True
    then obtain m ms where t: "mc_tail c = m # ms" by (cases "mc_tail c") auto
    define k where "k = min (mb_len m) (len - pos)"
    have k: "k \<le> mb_len m" "pos + k \<le> len" using True by (auto simp: k_def)
    note round = mbuf_read_loop_round [of pos len c m ms dst False out, folded k_def]
    show ?thesis
    proof (cases "user_range_ok dst pos k")
      case False
      have "k \<le> min (len - pos) (length (chain_bytes c))"
        by (simp add: k_def chain_bytes_def t)
      then have "\<not> user_range_ok dst pos (min (len - pos) (length (chain_bytes c)))"
        using False user_range_ok_split [of k "min (len - pos) (length (chain_bytes c))" dst pos] by simp
      then show ?thesis using False less.prems round True t by auto
    next
      case ok: True
      show ?thesis
      proof (cases "mb_len m = k")
        case whole: True
        let ?c = "drop_front (mbuf_eat k m) ms (c\<lparr>mc_tail := mbuf_eat k m # ms, mc_size := mc_size c - k - (mb_len m - k)\<rparr>)"
        have wf: "chain_wf ?c"
          using less.prems(1) t by (intro chain_wf_drop_front) (auto simp: whole)
        have loop: "mbuf_read_loop dst len False (pos + k) (out @ mb_bytes m) ?c = (ok, pos', out', c')"
          using less.prems(3) round True t ok whole by auto
        have lt: "length (mc_tail ?c) + (len - (pos + k)) < length (mc_tail c) + (len - pos)"
          by (simp add: t)
        have bytes: "chain_bytes ?c = bufs_bytes ms" by (simp add: chain_bytes_def)
        obtain bs where bs: "chain_wf c'" "out' = (out @ mb_bytes m) @ bs"
            "pos' = pos + k + length bs" "pos' \<le> len" "bufs_bytes ms = bs @ chain_bytes c'"
            "ok \<longrightarrow> bs = take (len - (pos + k)) (bufs_bytes ms)"
          and user: "user_range_ok dst (pos + k) (min (len - (pos + k)) (bufs_len ms)) \<longrightarrow> ok"
          using less.hyps [OF lt wf k(2) loop] unfolding bytes length_bufs_bytes by blast
        have c: "chain_bytes c = mb_bytes m @ bufs_bytes ms" by (simp add: chain_bytes_def t)
        have "min (len - pos) (length (chain_bytes c)) = k + min (len - (pos + k)) (bufs_len ms)"
          using k whole by (simp add: c)
        then have "user_range_ok dst pos (min (len - pos) (length (chain_bytes c))) \<longrightarrow> ok"
          using user user_range_ok_split [of k "k + min (len - (pos + k)) (bufs_len ms)" dst pos] by simp
        moreover have "take (len - pos) (chain_bytes c) = mb_bytes m @ take (len - (pos + k)) (bufs_bytes ms)"
          using k whole by (simp add: c)
        moreover have "out' = out @ (mb_bytes m @ bs)" "pos' = pos + length (mb_bytes m @ bs)"
            "chain_bytes c = (mb_bytes m @ bs) @ chain_bytes c'"
          using bs(2,3) whole by (simp_all add: c bs(5))
        ultimately show ?thesis
          using bs(1,4,6) by metis
      next
        case part: False
        then have full: "pos + k = len" using k by (auto simp: k_def)
        let ?c = "c\<lparr>mc_tail := mbuf_eat k m # ms, mc_size := mc_size c - k\<rparr>"
        have "mbuf_read_loop dst len False (pos + k) (out @ take k (mb_bytes m)) ?c = (True, pos + k, out @ take k (mb_bytes m), ?c)"
          using full by (intro mbuf_read_loop_done) simp
        then show ?thesis
          using less.prems round True t ok part full k chain_wf_eat [OF less.prems(1) t k(1)]
          by (auto simp: chain_bytes_def simp flip: append_assoc)
      qed
    qed
  qed
qed

subsection \<open>Stream writes\<close>

lemma head_buf_last:
  assumes "chain_ok [] c" "mc_tail c = ms @ [h]"
  shows "head_buf c = Some h"
proof -
  have "find (\<lambda>m. mb_id m = mb_id h) (ms @ [h]) = Some h"
    if "mb_id h \<notin> mb_id ` set ms" using that by (induction ms) auto
  then show ?thesis
    using assms by (auto simp: chain_ok_def head_buf_def)
qed

definition mbuf_fill :: "byte list \<Rightarrow> mbuf \<Rightarrow> mbuf" where
  "mbuf_fill bytes m = m\<lparr>mb_data := blit (mb_data m) (mb_off m + mb_len m) bytes, mb_len := mb_len m + length bytes\<rparr>"

lemma mbuf_fill_simps [simp]:
  "mb_id (mbuf_fill bs m) = mb_id m" "mb_off (mbuf_fill bs m) = mb_off m"
  "mb_len (mbuf_fill bs m) = mb_len m + length bs" "mb_pkt_len (mbuf_fill bs m) = mb_pkt_len m"
  by (simp_all add: mbuf_fill_def)

lemma mb_bytes_fill [simp]: "mb_bytes (mbuf_fill bs m) = mb_bytes m @ bs"
  by (rule nth_equalityI) (auto simp: mb_bytes_def mbuf_fill_def blit_def nth_append)

lemma upd_mbuf_last:
  assumes "chain_ok [] c" "mc_tail c = ms @ [h]"
  shows "mc_tail (upd_mbuf (mb_id h) f c) = ms @ [f h]"
proof -
  have "mb_id h \<notin> mb_id ` set ms"
    using assms by (auto simp: chain_ok_def)
  then have "map (\<lambda>m. if mb_id m = mb_id h then f m else m) ms = ms"
    by (intro map_idI) (metis image_eqI)
  then show ?thesis
    using assms(2) by (simp add: upd_mbuf_def)
qed

lemma stream_extend:
  assumes wf: "chain_wf c" and t: "mc_tail c = ms @ [h]"
    and k: "length bytes \<le> mbuf_rem h" "mc_size c + length bytes \<le> mbuf_kSizeMax"
    and c': "c' = (upd_mbuf (mb_id h) (mbuf_fill bytes) c)\<lparr>mc_size := mc_size c + length bytes\<rparr>"
  shows "chain_wf c' \<and> mc_tail c' = ms @ [mbuf_fill bytes h] \<and> chain_bytes c' = chain_bytes c @ bytes \<and>
         mc_size c' = mc_size c + length bytes"
proof -
  have ok: "chain_ok [] c" using wf by (simp add: chain_wf_def)
  have t': "mc_tail c' = ms @ [mbuf_fill bytes h]"
    using upd_mbuf_last [OF ok t] by (simp add: c')
  have "mb_off h + mb_len h \<le> mbuf_kPayloadSize" using ok t by (auto simp: chain_ok_def)
  then have "mb_off h + (mb_len h + length bytes) \<le> mbuf_kPayloadSize"
    using k(1) by (auto simp: mbuf_rem_def)
  then have "chain_ok [] c'"
    using ok t t' by (auto simp: chain_ok_def c' upd_mbuf_def)
  then show ?thesis
    using wf t t' k(2) by (auto simp: chain_wf_def chain_bytes_def c')
qed

text \<open>Making room: a full head is followed by a fresh buffer.\<close>

lemma stream_append:
  assumes wf: "chain_wf c" and a: "AllocMBuf alloc c = (Some b, c1)"
  shows "chain_wf (append_buf b c1) \<and> mc_tail (append_buf b c1) = mc_tail c @ [b] \<and>
         chain_bytes (append_buf b c1) = chain_bytes c \<and> mc_size (append_buf b c1) = mc_size c \<and>
         mbuf_rem b = mbuf_kPayloadSize \<and> mb_len b = 0"
proof -
  have ok: "chain_ok [b] c1" "mb_off b = 0" "mb_len b = 0"
    using AllocMBuf_ok [OF _ a] wf by (auto simp: chain_wf_def)
  have "chain_ok [] (append_buf b c1)" using append_buf_ok [OF ok(1)] ok by simp
  then show ?thesis
    using wf ok append_buf_tail [OF ok(1), of b] AllocMBuf_frame [OF a]
    by (auto simp: chain_wf_def chain_bytes_def mbuf_rem_def mb_bytes_def)
qed

lemma stream_alloc_failed:
  assumes wf: "chain_wf c" and a: "AllocMBuf alloc c = (None, c1)"
  shows "chain_wf c1 \<and> chain_bytes c1 = chain_bytes c \<and> mc_tail c1 = mc_tail c \<and> mc_size c1 = mc_size c"
  using AllocMBuf_ok [OF _ a] AllocMBuf_frame [OF a] wf by (auto simp: chain_wf_def chain_bytes_def)

lemma alloc_all_succeeds: "(\<And>n. alloc n) \<Longrightarrow> \<exists>b c1. AllocMBuf alloc c = (Some b, c1)"
  by (auto simp: AllocMBuf_def split: list.splits)

definition write_room :: "nat \<Rightarrow> nat \<Rightarrow> mbuf_chain \<Rightarrow> nat" where
  "write_room len pos c = min (len - pos) (mbuf_kSizeMax - mc_size c)"

definition write_len :: "nat \<Rightarrow> nat \<Rightarrow> mbuf \<Rightarrow> mbuf_chain \<Rightarrow> nat" where
  "write_len len pos h c = min (mbuf_rem h) (write_room len pos c)"

lemma clamp_to_limit:
  fixes r d s M :: nat
  shows "s \<le> M \<Longrightarrow> (if s + min r d > M then M - s else min r d) = min r (min d (M - s))"
  by (auto simp: min_def)

lemma write_len_eq:
  assumes "mc_size c \<le> mbuf_kSizeMax"
  shows "(if mc_size c + min (mbuf_rem h) (len - pos) > mbuf_kSizeMax
          then mbuf_kSizeMax - mc_size c else min (mbuf_rem h) (len - pos)) = write_len len pos h c"
  unfolding write_len_def write_room_def by (rule clamp_to_limit [OF assms])

text \<open>The part of a round after the head has room.\<close>

definition write_round :: "(nat \<Rightarrow> bool) \<Rightarrow> user_ptr \<Rightarrow> nat \<Rightarrow> nat \<Rightarrow> mbuf \<Rightarrow> mbuf_chain \<Rightarrow> nat \<times> mbuf_chain" where
  "write_round alloc src len pos h c =
     (let want = min (mbuf_rem h) (len - pos);
          k = (if mc_size c + want > mbuf_kSizeMax then mbuf_kSizeMax - mc_size c else want)
      in if k = 0 then (pos, c)
         else case copy_array_from_user src pos k of
                None \<Rightarrow> (pos, c)
              | Some bytes \<Rightarrow>
                  mbuf_write_loop alloc src len (pos + k)
                    ((upd_mbuf (mb_id h)
                        (\<lambda>m. m\<lparr>mb_data := blit (mb_data m) (mb_off m + mb_len m) bytes, mb_len := mb_len m + k\<rparr>) c)
                     \<lparr>mc_size := mc_size c + k\<rparr>))"

lemma mbuf_write_loop_round:
  assumes "chain_wf c" "mc_tail c = ms @ [h]" "pos < len"
  shows "mbuf_write_loop alloc src len pos c =
    (if mbuf_rem h = 0
     then case AllocMBuf alloc c of
            (None, c1) \<Rightarrow> (pos, c1)
          | (Some b, c1) \<Rightarrow> write_round alloc src len pos b (append_buf b c1)
     else write_round alloc src len pos h c)"
proof -
  have hb: "head_buf c = Some h" using assms by (intro head_buf_last) (auto simp: chain_wf_def)
  obtain a c1 where a: "AllocMBuf alloc c = (a, c1)" by fastforce
  show ?thesis
    using assms(3)
    by (subst mbuf_write_loop.simps)
       (cases a; cases "mbuf_rem h = 0"; simp only: hb a write_round_def option.case prod.case if_True if_False simp_thms)
qed

lemma copy_array_from_user_eq:
  "copy_array_from_user p off n = (if user_range_ok p off n then Some (map (ub_byte p) [off..<off + n]) else None)"
  by (simp add: copy_array_from_user_def)

lemma write_round_eq:
  assumes "mc_size c \<le> mbuf_kSizeMax" and k_def: "k = write_len len pos h c"
  shows "write_round alloc src len pos h c =
    (if k = 0 \<or> \<not> user_range_ok src pos k then (pos, c)
     else mbuf_write_loop alloc src len (pos + k)
            ((upd_mbuf (mb_id h) (mbuf_fill (map (ub_byte src) [pos..<pos + k])) c)\<lparr>mc_size := mc_size c + k\<rparr>))"
  unfolding write_round_def Let_def write_len_eq [OF assms(1)] k_def [symmetric] copy_array_from_user_eq
  by (simp add: mbuf_fill_def [abs_def])

definition write_goal :: "(nat \<Rightarrow> bool) \<Rightarrow> user_ptr \<Rightarrow> nat \<Rightarrow> nat \<Rightarrow> mbuf_chain \<Rightarrow> nat \<Rightarrow> mbuf_chain \<Rightarrow> bool" where
  "write_goal alloc src len pos c pos' c' \<longleftrightarrow>
     chain_wf c' \<and> mc_tail c' \<noteq> [] \<and> pos \<le> pos' \<and> pos' - pos \<le> write_room len pos c \<and>
     chain_bytes c' = chain_bytes c @ map (ub_byte src) [pos..<pos'] \<and>
     ((\<forall>n. alloc n) \<and> user_range_ok src pos (write_room len pos c) \<longrightarrow> pos' = pos + write_room len pos c)"

lemma write_goal_stop:
  assumes "chain_wf c'" "mc_tail c' \<noteq> []" "chain_bytes c' = chain_bytes c"
    "(\<forall>n. alloc n) \<and> user_range_ok src pos (write_room len pos c) \<longrightarrow> write_room len pos c = 0"
  shows "write_goal alloc src len pos c pos c'"
  using assms by (auto simp: write_goal_def)

lemma write_goal_step:
  assumes k: "k \<le> write_room len pos c" and sz: "mc_size c1 = mc_size c + k"
    and b: "chain_bytes c1 = chain_bytes c @ map (ub_byte src) [pos..<pos + k]"
    and g: "write_goal alloc src len (pos + k) c1 pos' c'"
  shows "write_goal alloc src len pos c pos' c'"
proof -
  have room: "write_room len (pos + k) c1 = write_room len pos c - k"
    using k sz unfolding write_room_def by linarith
  have le: "pos + k \<le> pos'" "pos' - (pos + k) \<le> write_room len pos c - k"
    using g unfolding write_goal_def room by blast+
  have "map (ub_byte src) [pos..<pos'] = map (ub_byte src) [pos..<pos + k] @ map (ub_byte src) [pos + k..<pos']"
    using map_upt_append [of "ub_byte src" pos k "pos' - (pos + k)"] le(1) by simp
  then have "chain_bytes c' = chain_bytes c @ map (ub_byte src) [pos..<pos']"
    using g b unfolding write_goal_def by simp
  moreover have "pos' = pos + write_room len pos c"
    if "\<forall>n. alloc n" "user_range_ok src pos (write_room len pos c)"
  proof -
    have "user_range_ok src (pos + k) (write_room len pos c - k)"
      using that(2) user_range_ok_split [OF k, of src pos] by blast
    then have "pos' = pos + k + (write_room len pos c - k)"
      using g that(1) unfolding write_goal_def room by blast
    then show ?thesis using k by simp
  qed
  moreover have "pos \<le> pos'" "pos' - pos \<le> write_room len pos c"
    using le k by linarith+
  ultimately show ?thesis
    using g unfolding write_goal_def by blast
qed

lemma mbuf_write_loop_spec:
  assumes "chain_wf c" "mc_tail c \<noteq> []" "mbuf_write_loop alloc src len pos c = (pos', c')"
  shows "write_goal alloc src len pos c pos' c'"
  using assms
proof (induction "len - pos" arbitrary: c pos rule: less_induct)
  case less
  have round_goal: "write_goal alloc src len pos c pos' c'"
    if r: "write_round alloc src len pos h c1 = (pos', c')" and wf: "chain_wf c1" and t: "mc_tail c1 = ms @ [h]"
      and rem: "mbuf_rem h \<noteq> 0" and same: "chain_bytes c1 = chain_bytes c" "mc_size c1 = mc_size c" and p: "pos < len"
    for h c1 ms
  proof -
    define k where "k = write_len len pos h c1"
    have sz: "mc_size c1 \<le> mbuf_kSizeMax" using wf by (simp add: chain_wf_def)
    have room: "write_room len pos c1 = write_room len pos c" using same by (simp add: write_room_def)
    have k: "k \<le> write_room len pos c" "k = 0 \<longleftrightarrow> write_room len pos c = 0"
      using rem by (auto simp: k_def write_len_def room)
    show ?thesis
    proof (cases "k = 0 \<or> \<not> user_range_ok src pos k")
      case True
      then have "(pos', c') = (pos, c1)" using r write_round_eq [OF sz k_def, of alloc src] by simp
      then show ?thesis
        using True wf t same k user_range_ok_split [OF k(1), of src pos] by (auto intro: write_goal_stop)
    next
      case False
      let ?c2 = "(upd_mbuf (mb_id h) (mbuf_fill (map (ub_byte src) [pos..<pos + k])) c1)\<lparr>mc_size := mc_size c1 + k\<rparr>"
      have "k \<le> mbuf_rem h" "mc_size c1 + k \<le> mbuf_kSizeMax" "k \<le> len - pos"
        using sz by (auto simp: k_def write_len_def write_room_def)
      then have e: "chain_wf ?c2" "mc_tail ?c2 \<noteq> []" "mc_size ?c2 = mc_size c + k"
          "chain_bytes ?c2 = chain_bytes c @ map (ub_byte src) [pos..<pos + k]"
        using stream_extend [OF wf t, of "map (ub_byte src) [pos..<pos + k]" ?c2] same by auto
      have "mbuf_write_loop alloc src len (pos + k) ?c2 = (pos', c')"
        using r False write_round_eq [OF sz k_def, of alloc src] by simp
      moreover have "len - (pos + k) < len - pos" using False p by auto
      ultimately have "write_goal alloc src len (pos + k) ?c2 pos' c'"
        using less.hyps e(1,2) by blast
      from write_goal_step [OF k(1) e(3,4) this] show ?thesis .
    qed
  qed
  obtain ms h where t: "mc_tail c = ms @ [h]" using less.prems(2) by (meson rev_exhaust)
  show ?case
  proof (cases "pos < len")
    case False
    then have "(pos', c') = (pos, c)"
      using less.prems(3) by (subst (asm) mbuf_write_loop.simps) simp
    then show ?thesis using False less.prems by (auto intro!: write_goal_stop simp: write_room_def)
  next
    case True
    note round = mbuf_write_loop_round [OF less.prems(1) t True, of alloc src]
    obtain a c1 where a: "AllocMBuf alloc c = (a, c1)" by fastforce
    show ?thesis
    proof (cases "mbuf_rem h = 0")
      case False
      then show ?thesis using round less.prems(1,3) t True by (intro round_goal) auto
    next
      case full: True
      show ?thesis
      proof (cases a)
        case None
        then show ?thesis
          using round less.prems full a stream_alloc_failed [OF less.prems(1), of alloc c1]
            alloc_all_succeeds [of alloc c] by (auto intro!: write_goal_stop)
      next
        case (Some b)
        note app = stream_append [OF less.prems(1) a [unfolded Some]]
        show ?thesis
          using round less.prems full a Some app True
          by (intro round_goal [of b "append_buf b c1" "mc_tail c"]) (auto simp: const_defs)
      qed
    qed
  qed
qed

lemma WriteStream_spec:
  assumes wf: "chain_wf c" and w: "WriteStream alloc src len c = (r, c')"
  shows "chain_wf c' \<and>
    (case r of
       Inl e \<Rightarrow> e = ZX_ERR_SHOULD_WAIT \<and> chain_bytes c' = chain_bytes c
     | Inr n \<Rightarrow> 0 < n \<and> n \<le> write_room len 0 c \<and> chain_bytes c' = chain_bytes c @ user_bytes src n) \<and>
    ((\<forall>n. alloc n) \<and> user_range_ok src 0 (write_room len 0 c) \<and> 0 < write_room len 0 c \<longrightarrow>
       r = Inr (write_room len 0 c))"
proof -
  have loop: ?thesis if c1: "chain_wf c1" "mc_tail c1 \<noteq> []" and same: "chain_bytes c1 = chain_bytes c" "mc_size c1 = mc_size c"
      and res: "(r, c') = (case mbuf_write_loop alloc src len 0 c1 of
                    (pos, c2) \<Rightarrow> (if pos = 0 then Inl ZX_ERR_SHOULD_WAIT else Inr pos, c2))" for c1
  proof -
    obtain pos where l: "mbuf_write_loop alloc src len 0 c1 = (pos, c')" and r: "r = (if pos = 0 then Inl ZX_ERR_SHOULD_WAIT else Inr pos)"
      using res by (auto split: prod.splits)
    have "write_room len 0 c1 = write_room len 0 c" using same by (simp add: write_room_def)
    with mbuf_write_loop_spec [OF c1 l] same show ?thesis
      by (auto simp: r write_goal_def user_bytes_def)
  qed
  show ?thesis
  proof (cases "mc_head c")
    case (Some h)
    then have "mc_tail c \<noteq> []" using wf by (auto simp: chain_wf_def chain_ok_def)
    then show ?thesis using wf w Some by (intro loop [of c]) (simp_all add: WriteStream_def)
  next
    case None
    then have t: "mc_tail c = []" using wf by (auto simp: chain_wf_def chain_ok_def split: if_splits)
    obtain a c1 where a: "AllocMBuf alloc c = (a, c1)" by fastforce
    show ?thesis
    proof (cases a)
      case None
      then show ?thesis
        using w a stream_alloc_failed [OF wf, of alloc c1] alloc_all_succeeds [of alloc c] \<open>mc_head c = None\<close>
        by (auto simp: WriteStream_def)
    next
      case (Some b)
      have "c1\<lparr>mc_head := Some (mb_id b), mc_tail := b # mc_tail c1\<rparr> = append_buf b c1"
        using t AllocMBuf_frame [OF a] \<open>mc_head c = None\<close> by (simp add: append_buf_def)
      then show ?thesis
        using stream_append [OF wf a [unfolded Some]] w a Some \<open>mc_head c = None\<close>
        by (intro loop [of "append_buf b c1"]) (simp_all add: WriteStream_def)
    qed
  qed
qed

lemma mbuf_Read_stream:
  assumes wf: "chain_wf c" and r: "mbuf_Read dst len False c = (pos, out, c')"
  shows "chain_wf c' \<and> chain_bytes c = out @ chain_bytes c' \<and> pos = length out \<and> pos \<le> len \<and>
    (user_range_ok dst 0 (min len (mc_size c)) \<longrightarrow> out = take len (chain_bytes c))"
proof (cases "mc_size c = 0")
  case True
  then have "chain_bytes c = []" using length_chain_bytes [OF wf] by simp
  then show ?thesis using True wf r by (auto simp: mbuf_Read_def)
next
  case False
  obtain ok where l: "mbuf_read_loop dst len False 0 [] c = (ok, pos, out, c')"
    using r False by (auto simp: mbuf_Read_def read_clamp_def split: prod.splits)
  have "chain_wf c'" "pos = length out" "pos \<le> len" "chain_bytes c = out @ chain_bytes c'"
      "ok \<longrightarrow> out = take len (chain_bytes c)" "user_range_ok dst 0 (min len (mc_size c)) \<longrightarrow> ok"
    using mbuf_read_loop_stream [OF wf le0 l] unfolding append_Nil add_0 minus_nat.diff_0 length_chain_bytes [OF wf]
    by blast+
  then show ?thesis by blast
qed

subsection \<open>Peeking\<close>

lemma peek_is_read_loop:
  assumes "mbuf_read_loop dst len dg pos out c = (ok, pos', out', c')"
  shows "mbuf_peek_loop dst len pos out (mc_tail c) = (pos', out')"
  using assms
proof (induction "length (mc_tail c) + (len - pos)" arbitrary: c pos out rule: less_induct)
  case less
  show ?case
  proof (cases "pos < len \<and> mc_tail c \<noteq> []")
    case False
    then show ?thesis
      using less.prems mbuf_read_loop_done [OF False, of dst dg out]
      by (cases "mc_tail c") auto
  next
    case True
    then obtain m ms where t: "mc_tail c = m # ms" by (cases "mc_tail c") auto
    define k where "k = min (mb_len m) (len - pos)"
    have k: "k \<le> mb_len m" "pos + k \<le> len" using True by (auto simp: k_def)
    note round = mbuf_read_loop_round [of pos len c m ms dst dg out, folded k_def]
    have peek: "mbuf_peek_loop dst len pos out (mc_tail c) =
        (if user_range_ok dst pos k then mbuf_peek_loop dst len (pos + k) (out @ take k (mb_bytes m)) ms else (pos, out))"
      using True t mb_bytes_take [OF k(1)] by (simp add: k_def [symmetric])
    show ?thesis
    proof (cases "user_range_ok dst pos k \<and> (mb_len m = k \<or> dg)")
      case pop: True
      then show ?thesis
        using less.hyps [of "drop_front (mbuf_eat k m) ms (c\<lparr>mc_tail := mbuf_eat k m # ms, mc_size := mc_size c - k - (mb_len m - k)\<rparr>)" "pos + k"]
          less.prems round True t peek by simp
    next
      case False
      have stop: "mbuf_peek_loop dst len len o2 ms = (len, o2)" for o2 by (cases ms) auto
      have "user_range_ok dst pos k \<Longrightarrow> pos + k = len" using False k by (auto simp: k_def)
      then show ?thesis
        using False less.prems round True t peek stop
          mbuf_read_loop_done [of len len "c\<lparr>mc_tail := mbuf_eat k m # ms, mc_size := mc_size c - k\<rparr>" dst dg]
        by (auto split: if_splits)
    qed
  qed
qed

subsection \<open>Datagrams\<close>

text \<open>
  A datagram occupies consecutive buffers: the first carries the total length, the others
  carry a zero \<^verbatim>\<open>pkt_len_\<close>.
\<close>

definition dgram_ok :: "mbuf list \<Rightarrow> bool" where
  "dgram_ok g \<longleftrightarrow> g \<noteq> [] \<and> 0 < bufs_len g \<and> mb_pkt_len (hd g) = bufs_len g \<and> (\<forall>m \<in> set (tl g). mb_pkt_len m = 0)"

definition chain_dgrams :: "mbuf_chain \<Rightarrow> mbuf list list \<Rightarrow> bool" where
  "chain_dgrams c gs \<longleftrightarrow> mc_tail c = concat gs \<and> (\<forall>g \<in> set gs. dgram_ok g)"

lemma mbuf_read_loop_dgram:
  assumes "chain_wf c" "mc_tail c = g @ rest" "pos \<le> len" "len - pos \<le> bufs_len g"
    "user_range_ok dst pos (len - pos)"
  shows "\<exists>k c'. mbuf_read_loop dst len True pos out c = (True, len, out @ take (len - pos) (bufs_bytes g), c') \<and>
           chain_wf c' \<and> k \<le> length g \<and> mc_tail c' = drop k g @ rest \<and> (pos < len \<longrightarrow> 0 < k)"
  using assms
proof (induction g arbitrary: c pos out)
  case Nil
  then show ?case using mbuf_read_loop_done [of pos len c dst True out] by auto
next
  case (Cons m g)
  show ?case
  proof (cases "pos < len")
    case False
    then show ?thesis
      using Cons.prems mbuf_read_loop_done [of pos len c dst True out] by (intro exI [of _ 0]) auto
  next
    case True
    define k where "k = min (mb_len m) (len - pos)"
    let ?c = "drop_front (mbuf_eat k m) (g @ rest)
      (c\<lparr>mc_tail := mbuf_eat k m # g @ rest, mc_size := mc_size c - k - (mb_len m - k)\<rparr>)"
    have k: "k \<le> mb_len m" "k \<le> len - pos" by (auto simp: k_def)
    have t: "mc_tail c = m # g @ rest" using Cons.prems(2) by simp
    have u: "user_range_ok dst pos k" "user_range_ok dst (pos + k) (len - (pos + k))"
      using Cons.prems(5) user_range_ok_split [OF k(2), of dst pos] by (simp_all add: diff_diff_left)
    have wf: "chain_wf ?c"
      using Cons.prems(1) t k by (intro chain_wf_drop_front) auto
    have "len - (pos + k) \<le> bufs_len g" using Cons.prems(4) by (auto simp: k_def)
    moreover have "pos + k \<le> len" using k True by linarith
    ultimately obtain j c' where
        r: "mbuf_read_loop dst len True (pos + k) (out @ take k (mb_bytes m)) ?c =
             (True, len, (out @ take k (mb_bytes m)) @ take (len - (pos + k)) (bufs_bytes g), c')"
      and j: "chain_wf c'" "j \<le> length g" "mc_tail c' = drop j g @ rest"
      using Cons.IH [OF wf _ _ _ u(2), of "out @ take k (mb_bytes m)"] by auto
    have "take (len - pos) (bufs_bytes (m # g)) = take k (mb_bytes m) @ take (len - (pos + k)) (bufs_bytes g)"
      by (auto simp: k_def min_def)
    then have "mbuf_read_loop dst len True pos out c =
        (True, len, out @ take (len - pos) (bufs_bytes (m # g)), c')"
      using mbuf_read_loop_round [OF True t, of dst True out, folded k_def] u(1) r by simp
    then show ?thesis
      using j by (intro exI [of _ "Suc j"] exI [of _ c']) auto
  qed
qed

lemma mbuf_drain_body:
  assumes "chain_wf c" "mc_tail c = g @ rest" "\<forall>m \<in> set g. mb_pkt_len m = 0"
    "rest = [] \<or> mb_pkt_len (hd rest) \<noteq> 0"
  shows "chain_wf (mbuf_drain c) \<and> mc_tail (mbuf_drain c) = rest"
  using assms
proof (induction g arbitrary: c)
  case Nil
  then show ?case by (subst (1 2) mbuf_drain.simps) (auto split: list.splits)
next
  case (Cons m g)
  let ?c = "drop_front m (g @ rest) (c\<lparr>mc_size := mc_size c - mb_len m\<rparr>)"
  have "chain_wf (drop_front m (g @ rest) (c\<lparr>mc_tail := m # g @ rest, mc_size := mc_size c - mb_len m\<rparr>))"
    using Cons.prems by (intro chain_wf_drop_front) auto
  moreover have "c\<lparr>mc_tail := m # g @ rest, mc_size := mc_size c - mb_len m\<rparr> = c\<lparr>mc_size := mc_size c - mb_len m\<rparr>"
    using Cons.prems(2) by (intro mbuf_chain.equality) simp_all
  ultimately have "chain_wf ?c" by simp
  then show ?case
    using Cons.IH [of ?c] Cons.prems by (subst (1 2) mbuf_drain.simps) simp
qed

lemma mbuf_Read_dgram:
  assumes wf: "chain_wf c" and d: "chain_dgrams c (g # gs)" and len: "0 < len"
    and user: "user_range_ok dst 0 (min len (bufs_len g))"
  shows "\<exists>c'. mbuf_Read dst len True c = (min len (bufs_len g), take len (bufs_bytes g), c') \<and>
           chain_wf c' \<and> chain_dgrams c' gs"
proof -
  have g: "dgram_ok g" "mc_tail c = g @ concat gs" "\<forall>h \<in> set gs. dgram_ok h"
    using d by (auto simp: chain_dgrams_def)
  then obtain m ms where m: "g = m # ms" by (cases g) (auto simp: dgram_ok_def)
  have sz: "mc_size c \<noteq> 0" using wf g by (auto simp: chain_wf_def dgram_ok_def)
  define n where "n = min len (bufs_len g)"
  have n: "0 < n" "n \<le> bufs_len g" using g(1) len by (auto simp: n_def dgram_ok_def)
  have clamp: "read_clamp len True c = n"
    using g m by (auto simp: read_clamp_def n_def dgram_ok_def)
  obtain k c1 where r: "mbuf_read_loop dst n True 0 [] c = (True, n, take n (bufs_bytes g), c1)"
      "chain_wf c1" "0 < k" "mc_tail c1 = drop k g @ concat gs"
    using mbuf_read_loop_dgram [OF wf g(2), of 0 n dst "[]"] n user by (auto simp: n_def)
  have rest_ok: "concat gs = [] \<or> mb_pkt_len (hd (concat gs)) \<noteq> 0"
    using g(3) by (cases gs) (auto simp: dgram_ok_def hd_append)
  have "\<forall>m \<in> set (drop k g). mb_pkt_len m = 0"
    using g(1) r(3) m by (cases k) (auto simp: dgram_ok_def dest: in_set_dropD)
  from mbuf_drain_body [OF r(2,4) this rest_ok]
  have "chain_wf (mbuf_drain c1)" "chain_dgrams (mbuf_drain c1) gs"
    using g(3) by (auto simp: chain_dgrams_def)
  moreover have "take n (bufs_bytes g) = take len (bufs_bytes g)"
    by (cases "len \<le> bufs_len g") (auto simp: n_def)
  ultimately show ?thesis
    using sz r(1) clamp n_def by (simp add: mbuf_Read_def)
qed

lemma fill_bufs_ids:
  "map mb_id (snd (fill_bufs src len pos bs)) = map mb_id bs"
  by (induction bs arbitrary: pos) (auto simp: Let_def case_prod_beta split: option.splits)

lemma fill_bufs_pkt: "map mb_pkt_len (snd (fill_bufs src len pos bs)) = map mb_pkt_len bs"
  by (induction bs arbitrary: pos) (auto simp: Let_def case_prod_beta split: option.splits)

lemma fill_bufs_spec:
  assumes "\<forall>b \<in> set bs. mb_off b = 0 \<and> mb_len b = 0" "len - pos \<le> length bs * mbuf_kPayloadSize" "pos \<le> len"
  shows "(fst (fill_bufs src len pos bs) \<longleftrightarrow> user_range_ok src pos (len - pos)) \<and>
    (fst (fill_bufs src len pos bs) \<longrightarrow>
       bufs_bytes (snd (fill_bufs src len pos bs)) = map (ub_byte src) [pos..<len] \<and>
       (\<forall>b \<in> set (snd (fill_bufs src len pos bs)). mb_off b + mb_len b \<le> mbuf_kPayloadSize))"
  using assms
proof (induction bs arbitrary: pos)
  case Nil
  then show ?case by simp
next
  case (Cons b bs)
  define k where "k = min mbuf_kPayloadSize (len - pos)"
  have k: "k \<le> len - pos" "pos + k \<le> len" using Cons.prems(3) by (auto simp: k_def)
  have le: "len - (pos + k) \<le> length bs * mbuf_kPayloadSize"
    using Cons.prems(2) by (auto simp: k_def min_def split: if_splits)
  note split = user_range_ok_split [OF k(1), of src pos]
  have b0: "mb_off b = 0" "mb_len b = 0" using Cons.prems(1) by auto
  show ?case
  proof (cases "user_range_ok src pos k")
    case False
    then show ?thesis using split by (simp add: k_def [symmetric] copy_array_from_user_eq)
  next
    case True
    let ?bytes = "map (ub_byte src) [pos..<pos + k]"
    have fb: "mb_bytes (b\<lparr>mb_data := blit (mb_data b) 0 ?bytes, mb_len := k\<rparr>) = ?bytes"
      using mb_bytes_fill [of ?bytes b] b0 by (simp add: mbuf_fill_def mb_bytes_def)
    have "map (ub_byte src) [pos..<len] = ?bytes @ map (ub_byte src) [pos + k..<len]"
      using map_upt_append [of "ub_byte src" pos k "len - (pos + k)"] k(2) by simp
    then show ?thesis
      using True split Cons.IH [of "pos + k"] Cons.prems(1) le k b0 fb
      by (auto simp: k_def [symmetric] copy_array_from_user_eq diff_diff_left case_prod_beta)
         (simp add: k_def)
  qed
qed

lemma bufs_needed: "0 < len \<Longrightarrow> len \<le> (1 + (len - 1) div mbuf_kPayloadSize) * mbuf_kPayloadSize"
proof -
  assume "0 < len"
  have "len - 1 < mbuf_kPayloadSize + (len - 1) div mbuf_kPayloadSize * mbuf_kPayloadSize"
    by (rule dividend_less_div_times) (simp add: const_defs)
  then show ?thesis using \<open>0 < len\<close> by simp
qed

lemma set_pkt_len_simps:
  "map mb_id (set_pkt_len n bs) = map mb_id bs" "bufs_bytes (set_pkt_len n bs) = bufs_bytes bs"
  "bufs_len (set_pkt_len n bs) = bufs_len bs"
  "\<forall>b \<in> set bs. mb_off b + mb_len b \<le> M \<Longrightarrow> \<forall>b \<in> set (set_pkt_len n bs). mb_off b + mb_len b \<le> M"
  by (cases bs; simp add: set_pkt_len_def mb_bytes_def)+

lemma bufs_len_bytes: "bufs_bytes bs = xs \<Longrightarrow> bufs_len bs = length xs"
  by auto

text \<open>The success path of \<^verbatim>\<open>WriteDatagram\<close>, with the buffers it links in.\<close>

lemma WriteDatagram_cases:
  assumes wf: "chain_wf c" and w: "WriteDatagram alloc src len c = (r, c')"
  shows "chain_wf c' \<and>
    (case r of
       Inl e \<Rightarrow> mc_tail c' = mc_tail c \<and> mc_head c' = mc_head c \<and> mc_size c' = mc_size c
     | Inr n \<Rightarrow> n = len \<and> 0 < len \<and> len + mc_size c \<le> mbuf_kSizeMax \<and> user_range_ok src 0 len \<and>
         (\<exists>bs c1 g. alloc_bufs alloc (1 + (len - 1) div mbuf_kPayloadSize) [] c = (Some bs, c1) \<and>
            length bs = 1 + (len - 1) div mbuf_kPayloadSize \<and>
            map mb_pkt_len g = len # tl (map mb_pkt_len bs) \<and> mc_tail c' = mc_tail c @ g \<and>
            bufs_bytes g = user_bytes src len \<and> mc_size c' = mc_size c + len))"
proof (cases "len = 0 \<or> len > mbuf_kSizeMax \<or> len + mc_size c > mbuf_kSizeMax")
  case True
  then show ?thesis using wf w by (auto simp: WriteDatagram_def split: if_splits)
next
  case False
  let ?need = "1 + (len - 1) div mbuf_kPayloadSize"
  obtain a c1 where a: "alloc_bufs alloc ?need [] c = (a, c1)" by fastforce
  have ok: "chain_ok [] c" and sz: "mc_size c = bufs_len (mc_tail c)" "mc_size c \<le> mbuf_kSizeMax"
    using wf by (auto simp: chain_wf_def)
  note al = alloc_bufs_ok [OF ok _ a, simplified]
  have wf_frame: "chain_wf d" if "chain_ok [] d" "mc_tail d = mc_tail c" "mc_size d = mc_size c" for d
    using that sz by (simp add: chain_wf_def)
  show ?thesis
  proof (cases a)
    case None
    then show ?thesis using w a al False wf_frame [of c1] by (auto simp: WriteDatagram_def)
  next
    case (Some bs)
    define bs' where "bs' = snd (fill_bufs src len 0 bs)"
    have bs: "chain_ok bs c1" "\<forall>b \<in> set bs. mb_off b = 0 \<and> mb_len b = 0" "length bs = ?need"
      using al Some by auto
    have ok': "chain_ok bs' c1"
      using bs(1) fill_bufs_ids [of src len 0 bs] by (auto simp: bs'_def intro: chain_ok_same_ids)
    have fill: "fst (fill_bufs src len 0 bs) \<longleftrightarrow> user_range_ok src 0 len"
        "fst (fill_bufs src len 0 bs) \<Longrightarrow> bufs_bytes bs' = user_bytes src len"
        "fst (fill_bufs src len 0 bs) \<Longrightarrow> \<forall>b \<in> set bs'. mb_off b + mb_len b \<le> mbuf_kPayloadSize"
      using fill_bufs_spec [of bs len 0 src] bs bufs_needed [of len] False
      by (auto simp: bs'_def user_bytes_def)
    show ?thesis
    proof (cases "fst (fill_bufs src len 0 bs)")
      case fault: False
      then have "r = Inl ZX_ERR_INVALID_ARGS" "c' = free_bufs bs' c1"
        using w a Some False by (auto simp: WriteDatagram_def bs'_def split: prod.splits bool.splits)
      then show ?thesis
        using free_bufs_ok [of bs' "[]" c1] ok' al wf_frame [of c'] by auto
    next
      case True
      define g where "g = set_pkt_len len bs'"
      have eq: "fill_bufs src len 0 bs = (True, bs')" using True by (simp add: bs'_def prod_eq_iff)
      have r: "r = Inr len" "c' = (fold append_buf g c1)\<lparr>mc_size := mc_size (fold append_buf g c1) + len\<rparr>"
        using w a Some False eq by (auto simp: WriteDatagram_def Let_def g_def)
      have gok: "chain_ok g c1"
        using ok' set_pkt_len_simps(1) [of len bs'] by (auto simp: g_def intro: chain_ok_same_ids)
      have app: "chain_ok [] (fold append_buf g c1)" "mc_tail (fold append_buf g c1) = mc_tail c1 @ g"
          "mc_size (fold append_buf g c1) = mc_size c1"
        using append_bufs_ok [of g "[]" c1] gok set_pkt_len_simps(4) [OF fill(3) [OF True], of len]
        by (auto simp: g_def)
      have gb: "bufs_bytes g = user_bytes src len"
        using fill(2) [OF True] by (simp add: g_def set_pkt_len_simps)
      then have "bufs_len g = len" by (simp add: bufs_len_bytes user_bytes_def)
      then have "chain_wf c'"
        using r app al sz False by (auto simp: chain_wf_def)
      moreover have "map mb_pkt_len g = len # tl (map mb_pkt_len bs)"
        using fill_bufs_pkt [of src len 0 bs] bs(3) False
        by (cases bs; cases bs') (auto simp: g_def bs'_def set_pkt_len_def const_defs)
      ultimately show ?thesis
        using r app al Some a bs(3) gb fill(1) True False by auto
    qed
  qed
qed

section \<open>Properties\<close>

datatype stream_call =
    SWrite "nat \<Rightarrow> bool" user_ptr nat
  | SRead user_ptr nat

record stream_io =
  sio_chain :: mbuf_chain
  sio_in :: "byte list"
  sio_out :: "byte list"

fun stream_call_step :: "stream_call \<Rightarrow> stream_io \<Rightarrow> stream_io" where
  "stream_call_step (SWrite alloc src len) s =
     (case WriteStream alloc src len (sio_chain s) of
        (Inl e, c) \<Rightarrow> s\<lparr>sio_chain := c\<rparr>
      | (Inr n, c) \<Rightarrow> s\<lparr>sio_chain := c, sio_in := sio_in s @ user_bytes src n\<rparr>)"
| "stream_call_step (SRead dst len) s =
     (case mbuf_Read dst len False (sio_chain s) of
        (n, out, c) \<Rightarrow> s\<lparr>sio_chain := c, sio_out := sio_out s @ out\<rparr>)"

definition stream_inv :: "stream_io \<Rightarrow> bool" where
  "stream_inv s \<longleftrightarrow> chain_wf (sio_chain s) \<and> sio_in s = sio_out s @ chain_bytes (sio_chain s)"

lemma stream_call_step_inv:
  assumes "stream_inv s"
  shows "stream_inv (stream_call_step call s)"
proof (cases call)
  case (SWrite alloc src len)
  obtain r c where w: "WriteStream alloc src len (sio_chain s) = (r, c)" by fastforce
  show ?thesis
    using assms SWrite w WriteStream_spec [OF _ w] by (cases r) (auto simp: stream_inv_def)
next
  case (SRead dst len)
  obtain n out c where r: "mbuf_Read dst len False (sio_chain s) = (n, out, c)" by (metis prod_cases3)
  show ?thesis
    using assms SRead r mbuf_Read_stream [OF _ r] by (auto simp: stream_inv_def)
qed

lemma stream_run_inv:
  "stream_inv (fold stream_call_step calls \<lparr>sio_chain = empty_chain, sio_in = [], sio_out = []\<rparr>)"
proof -
  have "stream_inv (fold stream_call_step cs t)" if "stream_inv t" for cs t
    using that by (induction cs arbitrary: t) (auto intro: stream_call_step_inv)
  moreover have "stream_inv \<lparr>sio_chain = empty_chain, sio_in = [], sio_out = []\<rparr>"
    using empty_chain_wf by (simp add: stream_inv_def chain_bytes_def empty_chain_def)
  ultimately show ?thesis by blast
qed

lemma stream_inv_facts:
  assumes "stream_inv s"
  shows "sio_in s = sio_out s @ chain_bytes (sio_chain s) \<and>
         mc_size (sio_chain s) = length (chain_bytes (sio_chain s)) \<and> mc_size (sio_chain s) \<le> mbuf_kSizeMax"
proof -
  have wf: "chain_wf (sio_chain s)" using assms by (simp add: stream_inv_def)
  then have "mc_size (sio_chain s) \<le> mbuf_kSizeMax" by (simp add: chain_wf_def)
  moreover have "sio_in s = sio_out s @ chain_bytes (sio_chain s)" using assms by (simp add: stream_inv_def)
  ultimately show ?thesis by (simp only: length_chain_bytes [OF wf])
qed

text \<open>
  C28: a buffer chain used as a stream delivers the bytes in order, none lost, invented or
  repeated, for every sequence of reads and writes, whatever allocations fail and
  whatever user buffers fault; it never holds more than \<^verbatim>\<open>kSizeMax\<close> bytes, and
  \<^verbatim>\<open>size_\<close> is the number of bytes it holds.
\<close>

theorem mbuf_stream:
  "let s = fold stream_call_step calls \<lparr>sio_chain = empty_chain, sio_in = [], sio_out = []\<rparr>
   in sio_in s = sio_out s @ chain_bytes (sio_chain s) \<and>
      mc_size (sio_chain s) = length (chain_bytes (sio_chain s)) \<and>
      mc_size (sio_chain s) \<le> mbuf_kSizeMax"
  unfolding Let_def by (intro stream_inv_facts stream_run_inv)

text \<open>
  a stream write fills the chain as far as it can. On a well-formed chain a write that
  reports \<open>n\<close> has appended exactly the first \<open>n\<close> bytes of the buffer, a refused write has
  changed no byte, and when memory and the user buffer are good it takes everything that
  fits: \<open>min len (kSizeMax - size)\<close> bytes.
\<close>

theorem WriteStream_exact:
  assumes "chain_wf c" "WriteStream alloc src len c = (r, c')"
  shows "chain_wf c' \<and>
    chain_bytes c' = chain_bytes c @ (case r of Inl e \<Rightarrow> [] | Inr n \<Rightarrow> user_bytes src n) \<and>
    ((\<forall>n. alloc n) \<and> user_range_ok src 0 (min len (mbuf_kSizeMax - mc_size c)) \<longrightarrow>
       r = (if min len (mbuf_kSizeMax - mc_size c) = 0 then Inl ZX_ERR_SHOULD_WAIT
            else Inr (min len (mbuf_kSizeMax - mc_size c))))"
proof -
  have room: "min len (mbuf_kSizeMax - mc_size c) = write_room len 0 c"
    by (simp add: write_room_def)
  show ?thesis
    unfolding room using WriteStream_spec [OF assms] by (cases r) auto
qed

definition any_ptr :: user_ptr where
  "any_ptr = \<lparr>ub_byte = (\<lambda>i. of_nat (i + 65)), ub_ok = (\<lambda>i. True)\<rparr>"

lemma any_ptr_ok [simp]: "user_range_ok any_ptr off n"
  by (simp add: any_ptr_def)

theorem WriteStream_exact_witness:
  "chain_wf empty_chain \<and> fst (WriteStream (\<lambda>_. True) any_ptr 3000 empty_chain) = Inr 3000 \<and>
   chain_bytes (snd (WriteStream (\<lambda>_. True) any_ptr 3000 empty_chain)) = user_bytes any_ptr 3000"
proof -
  obtain r c' where w: "WriteStream (\<lambda>_. True) any_ptr 3000 empty_chain = (r, c')" by fastforce
  have "mbuf_kSizeMax - mc_size empty_chain = 257024" "chain_bytes empty_chain = []"
    by (simp_all add: const_defs empty_chain_def chain_bytes_def)
  then show ?thesis
    using WriteStream_exact [OF empty_chain_wf w] empty_chain_wf w by simp
qed

text \<open>
  C32: peeking delivers exactly what a read would deliver, in stream and in datagram mode,
  faulting user buffers included.
\<close>

theorem mbuf_Peek_is_Read:
  "mbuf_Peek dst len datagram c = (let (n, out, c') = mbuf_Read dst len datagram c in (n, out))"
proof (cases "mc_size c = 0")
  case False
  obtain ok n out c' where r: "mbuf_read_loop dst (read_clamp len datagram c) datagram 0 [] c = (ok, n, out, c')"
    by (metis prod_cases4)
  show ?thesis
    using False r peek_is_read_loop [OF r] by (simp add: mbuf_Peek_def mbuf_Read_def)
qed (simp add: mbuf_Peek_def mbuf_Read_def)

text \<open>
  C33: writing a datagram is atomic. On a well-formed chain a refused datagram (empty, too
  large, no room, no memory, bad user buffer) leaves the list, the head and the size as
  they were; an accepted one is stored whole, after everything already there.
\<close>

theorem WriteDatagram_atomic:
  assumes "chain_wf c" "WriteDatagram alloc src len c = (r, c')"
  shows "chain_wf c' \<and>
    (case r of
       Inl e \<Rightarrow> mc_tail c' = mc_tail c \<and> mc_head c' = mc_head c \<and> mc_size c' = mc_size c
     | Inr n \<Rightarrow> n = len \<and> chain_bytes c' = chain_bytes c @ user_bytes src len \<and> mc_size c' = mc_size c + len)"
  using WriteDatagram_cases [OF assms] by (auto simp: chain_bytes_def split: sum.splits)

theorem WriteDatagram_atomic_witness:
  "chain_wf empty_chain \<and> WriteDatagram (\<lambda>_. False) any_ptr 5 empty_chain =
     (Inl ZX_ERR_SHOULD_WAIT, snd (WriteDatagram (\<lambda>_. False) any_ptr 5 empty_chain)) \<and>
   mc_tail (snd (WriteDatagram (\<lambda>_. False) any_ptr 5 empty_chain)) = []"
proof -
  have w: "WriteDatagram (\<lambda>_. False) any_ptr 5 empty_chain =
     (Inl ZX_ERR_SHOULD_WAIT, snd (WriteDatagram (\<lambda>_. False) any_ptr 5 empty_chain))"
    by (simp add: WriteDatagram_def empty_chain_def AllocMBuf_def const_defs)
  then show ?thesis
    using WriteDatagram_atomic [OF empty_chain_wf w] empty_chain_wf by (simp add: empty_chain_def)
qed

lemma alloc_bufs_clean:
  assumes "\<forall>m \<in> set (mc_freelist c). mb_pkt_len m = 0" "\<forall>b \<in> set bufs. mb_pkt_len b = 0"
    "alloc_bufs alloc need bufs c = (Some bs, c1)"
  shows "\<forall>b \<in> set bs. mb_pkt_len b = 0"
  using assms
proof (induction need arbitrary: bufs c)
  case (Suc need)
  obtain a c2 where a: "AllocMBuf alloc c = (a, c2)" by fastforce
  from a Suc.prems(3) obtain b where b: "a = Some b" "alloc_bufs alloc need (b # bufs) c2 = (Some bs, c1)"
    by (cases a) auto
  have "\<forall>m \<in> set (mc_freelist c2). mb_pkt_len m = 0" "\<forall>m \<in> set (b # bufs). mb_pkt_len m = 0"
    using a b(1) Suc.prems(1,2) by (auto simp: AllocMBuf_def new_mbuf_def split: list.splits if_splits)
  from Suc.IH [OF this b(2)] show ?case .
qed simp

text \<open>
  datagram boundaries. If the chain holds the datagrams \<open>gs\<close>, a successful write
  adds its bytes as one more datagram at the end, provided it fits in one buffer or no
  recycled buffer carries an old packet length.
\<close>

theorem datagram_append:
  assumes "chain_wf c" "chain_dgrams c gs" "WriteDatagram alloc src len c = (Inr n, c')"
    and clean: "len \<le> mbuf_kPayloadSize \<or> (\<forall>m \<in> set (mc_freelist c). mb_pkt_len m = 0)"
  shows "\<exists>g. chain_dgrams c' (gs @ [g]) \<and> bufs_bytes g = user_bytes src len"
proof -
  obtain bs c1 g where al: "alloc_bufs alloc (1 + (len - 1) div mbuf_kPayloadSize) [] c = (Some bs, c1)"
    and len: "length bs = 1 + (len - 1) div mbuf_kPayloadSize" "0 < len"
    and g: "map mb_pkt_len g = len # tl (map mb_pkt_len bs)" "mc_tail c' = mc_tail c @ g"
      "bufs_bytes g = user_bytes src len"
    using WriteDatagram_cases [OF assms(1,3)] unfolding sum.case by (elim conjE exE) (rule that)
  have "\<forall>b \<in> set (tl bs). mb_pkt_len b = 0"
  proof (cases "len \<le> mbuf_kPayloadSize")
    case True
    then have "(len - 1) div mbuf_kPayloadSize = 0" using len(2) by auto
    then show ?thesis using len(1) by (cases bs) auto
  next
    case False
    then show ?thesis using clean alloc_bufs_clean [OF _ _ al] by (cases bs) auto
  qed
  moreover have "mb_pkt_len ` set (tl g) = mb_pkt_len ` set (tl bs)"
    using g(1) by (metis list.sel(3) list.set_map map_tl)
  ultimately have "\<forall>m \<in> set (tl g). mb_pkt_len m = 0" by (metis image_iff)
  moreover have "bufs_len g = len" using g(3) by (simp add: bufs_len_bytes user_bytes_def)
  ultimately have "dgram_ok g"
    using g(1) len(2) by (cases g) (auto simp: dgram_ok_def)
  then show ?thesis
    using assms(2) g(2,3) by (intro exI [of _ g]) (auto simp: chain_dgrams_def)
qed

definition one_datagram :: mbuf_chain where
  "one_datagram = snd (WriteDatagram (\<lambda>_. True) any_ptr 5 empty_chain)"

lemma one_datagram_written: "WriteDatagram (\<lambda>_. True) any_ptr 5 empty_chain = (Inr 5, one_datagram)"
  by (simp add: one_datagram_def WriteDatagram_def empty_chain_def AllocMBuf_def const_defs
      copy_array_from_user_eq Let_def)

lemma empty_chain_dgrams: "chain_dgrams empty_chain []"
  by (simp add: chain_dgrams_def empty_chain_def)

theorem datagram_append_witness:
  "chain_wf empty_chain \<and> chain_dgrams empty_chain [] \<and>
   WriteDatagram (\<lambda>_. True) any_ptr 5 empty_chain = (Inr 5, one_datagram) \<and>
   (\<exists>g. chain_dgrams one_datagram [g] \<and> bufs_bytes g = [65, 66, 67, 68, 69])"
  using datagram_append [OF empty_chain_wf empty_chain_dgrams one_datagram_written]
    empty_chain_wf empty_chain_dgrams one_datagram_written
  by (simp add: empty_chain_def user_bytes_def any_ptr_def upt_rec)



definition example_buf :: mbuf where
  "example_buf = \<lparr>mb_id = 0, mb_off = 0, mb_len = 3, mb_pkt_len = 3, mb_data = (\<lambda>i. of_nat i)\<rparr>"

definition example_dgrams :: mbuf_chain where
  "example_dgrams = \<lparr>mc_freelist = [], mc_tail = [example_buf, example_buf\<lparr>mb_id := 1\<rparr>],
     mc_head = Some 1, mc_size = 6, mc_next = 2\<rparr>"


definition stale_chain :: mbuf_chain where
  "stale_chain =
     snd (WriteDatagram (\<lambda>_. True) any_ptr 3000
       (snd (snd (mbuf_Read any_ptr 1 True
         (snd (WriteDatagram (\<lambda>_. True) any_ptr 1 empty_chain))))))"

lemma alloc_bufs_2: "alloc_bufs alloc 2 bufs c = alloc_bufs alloc (Suc (Suc 0)) bufs c"
  by (simp add: numeral_2_eq_2)

text \<open>
  a truncated read can leave bytes of its datagram behind. \<^verbatim>\<open>FreeMBuf\<close> does not
  reset \<^verbatim>\<open>pkt_len_\<close>, so a recycled buffer that becomes the second buffer of a large
  datagram still carries a packet length. Here a one-byte datagram is written and read,
  then one of 3000 bytes is written, and 100 bytes of it are read: 992 of the bytes that
  \<^verbatim>\<open>mbuf.h\<close> says are discarded remain, and the next read returns one of them as a
  datagram of its own.
\<close>

theorem truncated_read_leaves_bytes:
  "let (n, out, c) = mbuf_Read any_ptr 100 True stale_chain;
       (n', out', c') = mbuf_Read any_ptr 100 True c
   in n = 100 \<and> mc_size c = 992 \<and> n' = 1"
  by (simp add: stale_chain_def WriteDatagram_def empty_chain_def AllocMBuf_def const_defs copy_array_from_user_eq
      new_mbuf_def Let_def set_pkt_len_def append_buf_def mbuf_Read_def read_clamp_def mbuf_read_loop.simps
      drop_front_def FreeMBuf_def mbuf_drain.simps alloc_bufs_2 del: upt_rec_numeral)

end
