(* ===== verification/Socket.thy ===== *)
theory Socket
  imports Dispatcher MBuf
begin

text \<open>
  Sockets (\<^verbatim>\<open>kernel/object/socket_dispatcher.cpp\<close>): two endpoints, each with the
  buffer chain the other side writes into, an optional one-slot control message, an
  optional one-slot queue of shared handles, and thresholds. The operations of a side
  act on the pair, because the two sides share one lock.

  A handle put on the accept queue is identified by a number; \<open>Share\<close> returns the handle
  it closes when it fails.
\<close>

section \<open>Constants and state\<close>

definition ZX_SOCKET_READABLE :: zx_signals_t where
  [sig_bits]: "ZX_SOCKET_READABLE = ZX_OBJECT_READABLE"

definition ZX_SOCKET_WRITABLE :: zx_signals_t where
  [sig_bits]: "ZX_SOCKET_WRITABLE = ZX_OBJECT_WRITABLE"

definition ZX_SOCKET_PEER_CLOSED :: zx_signals_t where
  [sig_bits]: "ZX_SOCKET_PEER_CLOSED = ZX_OBJECT_PEER_CLOSED"

definition ZX_SOCKET_PEER_WRITE_DISABLED :: zx_signals_t where
  [sig_bits]: "ZX_SOCKET_PEER_WRITE_DISABLED = sig_bit 4"

definition ZX_SOCKET_WRITE_DISABLED :: zx_signals_t where
  [sig_bits]: "ZX_SOCKET_WRITE_DISABLED = sig_bit 5"

definition ZX_SOCKET_CONTROL_READABLE :: zx_signals_t where
  [sig_bits]: "ZX_SOCKET_CONTROL_READABLE = sig_bit 6"

definition ZX_SOCKET_CONTROL_WRITABLE :: zx_signals_t where
  [sig_bits]: "ZX_SOCKET_CONTROL_WRITABLE = sig_bit 7"

definition ZX_SOCKET_ACCEPT :: zx_signals_t where
  [sig_bits]: "ZX_SOCKET_ACCEPT = sig_bit 8"

definition ZX_SOCKET_SHARE :: zx_signals_t where
  [sig_bits]: "ZX_SOCKET_SHARE = sig_bit 9"

definition ZX_SOCKET_READ_THRESHOLD :: zx_signals_t where
  [sig_bits]: "ZX_SOCKET_READ_THRESHOLD = sig_bit 10"

definition ZX_SOCKET_WRITE_THRESHOLD :: zx_signals_t where
  [sig_bits]: "ZX_SOCKET_WRITE_THRESHOLD = sig_bit 11"

definition ZX_SOCKET_SHUTDOWN_WRITE :: "32 word" where
  [const_defs]: "ZX_SOCKET_SHUTDOWN_WRITE = 1"

definition ZX_SOCKET_SHUTDOWN_READ :: "32 word" where
  [const_defs]: "ZX_SOCKET_SHUTDOWN_READ = 2"

definition ZX_SOCKET_DATAGRAM :: "32 word" where
  [const_defs]: "ZX_SOCKET_DATAGRAM = 1"

definition ZX_SOCKET_HAS_CONTROL :: "32 word" where
  [const_defs]: "ZX_SOCKET_HAS_CONTROL = 2"

definition ZX_SOCKET_HAS_ACCEPT :: "32 word" where
  [const_defs]: "ZX_SOCKET_HAS_ACCEPT = 4"

definition ZX_SOCKET_CREATE_MASK :: "32 word" where
  [const_defs]: "ZX_SOCKET_CREATE_MASK = ZX_SOCKET_DATAGRAM OR ZX_SOCKET_HAS_CONTROL OR ZX_SOCKET_HAS_ACCEPT"

definition ControlMsg_kSize :: nat where
  [const_defs]: "ControlMsg_kSize = 1024"

type_synonym handle_id = nat

record socket = dispatcher +
  sock_peer :: bool
  sock_peer_koid :: zx_koid_t
  sock_flags :: "32 word"
  sock_data :: mbuf_chain
  control_msg :: "nat \<Rightarrow> byte"
  control_msg_len :: nat
  accept_queue :: "handle_id option"
  read_threshold :: nat
  write_threshold :: nat
  read_disabled :: bool

type_synonym socket_pair = "side \<Rightarrow> socket"

datatype socket_plane = kData | kControl
datatype socket_read_type = kConsume | kPeek

record zx_info_socket =
  info_options :: "32 word"
  rx_buf_max :: nat
  rx_buf_size :: nat
  rx_buf_available :: nat
  tx_buf_max :: nat
  tx_buf_size :: nat

section \<open>Operations\<close>

definition new_socket :: "zx_koid_t \<Rightarrow> zx_koid_t \<Rightarrow> zx_signals_t \<Rightarrow> 32 word \<Rightarrow> (nat \<Rightarrow> byte) \<Rightarrow> socket" where
  "new_socket koid peer_koid starting_signals flags msg =
     \<lparr>obj_koid = koid, obj_handle_count = 0, obj_signals = starting_signals, state_changes = [],
      sock_peer = True, sock_peer_koid = peer_koid, sock_flags = flags, sock_data = empty_chain,
      control_msg = msg, control_msg_len = 0, accept_queue = None,
      read_threshold = 0, write_threshold = 0, read_disabled = False\<rparr>"

text \<open>
  \<^verbatim>\<open>SocketDispatcher::Create\<close>. \<open>alloc_ok\<close> lists the outcomes of the allocations it makes
  (two control buffers when asked for, the holder, two endpoints); \<open>msg0\<close> and \<open>msg1\<close> are the
  uninitialised control buffers.
\<close>

definition SocketDispatcher_Create ::
    "bool list \<Rightarrow> zx_koid_t \<Rightarrow> zx_koid_t \<Rightarrow> (nat \<Rightarrow> byte) \<Rightarrow> (nat \<Rightarrow> byte) \<Rightarrow> 32 word
       \<Rightarrow> zx_status_t + socket_pair" where
  "SocketDispatcher_Create alloc_ok koid0 koid1 msg0 msg1 flags =
     (if flags AND NOT ZX_SOCKET_CREATE_MASK \<noteq> 0 then Inl ZX_ERR_INVALID_ARGS
      else if \<not> list_all id alloc_ok then Inl ZX_ERR_NO_MEMORY
      else
        let starting_signals =
              ZX_SOCKET_WRITABLE OR
              (if has_sig flags ZX_SOCKET_HAS_ACCEPT then ZX_SOCKET_SHARE else 0) OR
              (if has_sig flags ZX_SOCKET_HAS_CONTROL then ZX_SOCKET_CONTROL_WRITABLE else 0)
        in Inr (\<lambda>x. case x of
                  Side0 \<Rightarrow> new_socket koid0 koid1 starting_signals flags msg0
                | Side1 \<Rightarrow> new_socket koid1 koid0 starting_signals flags msg1))"

definition sock_update :: "side \<Rightarrow> zx_signals_t \<Rightarrow> zx_signals_t \<Rightarrow> socket_pair \<Rightarrow> socket_pair" where
  "sock_update x c t p = p(x := UpdateStateLocked c t (p x))"

definition sock_on_zero_handles_locked :: "side \<Rightarrow> socket_pair \<Rightarrow> socket_pair" where
  "sock_on_zero_handles_locked x p = p"

definition sock_OnPeerZeroHandlesLocked :: "side \<Rightarrow> socket_pair \<Rightarrow> socket_pair" where
  "sock_OnPeerZeroHandlesLocked x p = sock_update x ZX_SOCKET_WRITABLE ZX_SOCKET_PEER_CLOSED p"

definition sock_has_peer :: "side \<Rightarrow> socket_pair \<Rightarrow> bool" where
  "sock_has_peer x p = sock_peer (p x)"

definition sock_reset_peer :: "side \<Rightarrow> socket_pair \<Rightarrow> socket_pair" where
  "sock_reset_peer x p = p(x := (p x)\<lparr>sock_peer := False\<rparr>)"

abbreviation sock_close :: "side \<Rightarrow> socket_pair \<Rightarrow> socket_pair" where
  "sock_close \<equiv> on_zero_handles sock_has_peer sock_reset_peer sock_on_zero_handles_locked
                   sock_OnPeerZeroHandlesLocked"

subsection \<open>Shutting down\<close>

definition sock_ShutdownOtherLocked :: "side \<Rightarrow> 32 word \<Rightarrow> socket_pair \<Rightarrow> zx_status_t \<times> socket_pair" where
  "sock_ShutdownOtherLocked x how p =
     (let shutdown_read = has_sig how ZX_SOCKET_SHUTDOWN_READ;
          shutdown_write = has_sig how ZX_SOCKET_SHUTDOWN_WRITE;
          clear_mask = (if shutdown_read then ZX_SOCKET_WRITABLE else 0);
          set_mask = (if shutdown_read then ZX_SOCKET_WRITE_DISABLED else 0) OR
                     (if shutdown_write then ZX_SOCKET_PEER_WRITE_DISABLED else 0);
          p1 = p(x := (p x)\<lparr>read_disabled := read_disabled (p x) \<or> shutdown_write\<rparr>)
      in (ZX_OK, sock_update x clear_mask set_mask p1))"

definition sock_Shutdown :: "side \<Rightarrow> 32 word \<Rightarrow> socket_pair \<Rightarrow> zx_status_t \<times> socket_pair" where
  "sock_Shutdown x how p =
     (let shutdown_read = has_sig how ZX_SOCKET_SHUTDOWN_READ;
          shutdown_write = has_sig how ZX_SOCKET_SHUTDOWN_WRITE;
          want_signals = (if shutdown_read then ZX_SOCKET_PEER_WRITE_DISABLED else 0) OR
                         (if shutdown_write then ZX_SOCKET_WRITE_DISABLED else 0);
          have_signals = obj_signals (p x) AND (ZX_SOCKET_PEER_WRITE_DISABLED OR ZX_SOCKET_WRITE_DISABLED)
      in if want_signals = have_signals then (ZX_OK, p)
         else
           let clear_mask = (if shutdown_write then ZX_SOCKET_WRITABLE else 0);
               set_mask = (if shutdown_read then ZX_SOCKET_PEER_WRITE_DISABLED else 0) OR
                          (if shutdown_write then ZX_SOCKET_WRITE_DISABLED else 0);
               p1 = p(x := (p x)\<lparr>read_disabled := read_disabled (p x) \<or> shutdown_read\<rparr>);
               p2 = sock_update x clear_mask set_mask p1
           in if sock_peer (p x) then sock_ShutdownOtherLocked (peer_of x) how p2 else (ZX_OK, p2))"

subsection \<open>Writing\<close>

text \<open>Runs on the receiving side \<open>x\<close>; \<open>alloc\<close> is the buffer allocator of its chain.\<close>

definition sock_WriteSelfLocked ::
    "(nat \<Rightarrow> bool) \<Rightarrow> side \<Rightarrow> user_ptr \<Rightarrow> nat \<Rightarrow> socket_pair \<Rightarrow> (zx_status_t + nat) \<times> socket_pair" where
  "sock_WriteSelfLocked alloc x src len p =
     (let s = p x in
      if mbuf_is_full (sock_data s) then (Inl ZX_ERR_SHOULD_WAIT, p)
      else
        let was_empty = mbuf_is_empty (sock_data s)
        in case (if has_sig (sock_flags s) ZX_SOCKET_DATAGRAM
                 then WriteDatagram alloc src len (sock_data s)
                 else WriteStream alloc src len (sock_data s)) of
             (Inl status, d) \<Rightarrow> (Inl status, p(x := s\<lparr>sock_data := d\<rparr>))
           | (Inr st, d) \<Rightarrow>
               let p1 = p(x := s\<lparr>sock_data := d\<rparr>);
                   set = (if st > 0 \<and> was_empty then ZX_SOCKET_READABLE else 0) OR
                         (if st > 0 \<and> read_threshold s > 0 \<and> mbuf_size False d \<ge> read_threshold s
                          then ZX_SOCKET_READ_THRESHOLD else 0);
                   p2 = (if set \<noteq> 0 then sock_update x 0 set p1 else p1);
                   peer_write_threshold = write_threshold (p (peer_of x));
                   clear = (if st > 0 \<and> sock_peer s \<and> peer_write_threshold > 0 \<and>
                               mbuf_max_size - mbuf_size False d < peer_write_threshold
                            then ZX_SOCKET_WRITE_THRESHOLD else 0) OR
                           (if sock_peer s \<and> mbuf_is_full d then ZX_SOCKET_WRITABLE else 0);
                   p3 = (if clear \<noteq> 0 then sock_update (peer_of x) clear 0 p2 else p2)
               in (Inr st, p3))"

definition sock_WriteData ::
    "(nat \<Rightarrow> bool) \<Rightarrow> side \<Rightarrow> user_ptr \<Rightarrow> nat \<Rightarrow> socket_pair \<Rightarrow> (zx_status_t + nat) \<times> socket_pair" where
  "sock_WriteData alloc x src len p =
     (if \<not> sock_peer (p x) then (Inl ZX_ERR_PEER_CLOSED, p)
      else if has_sig (obj_signals (p x)) ZX_SOCKET_WRITE_DISABLED then (Inl ZX_ERR_BAD_STATE, p)
      else if len = 0 then (Inr 0, p)
      else if len \<noteq> len mod 2 ^ 32 then (Inl ZX_ERR_INVALID_ARGS, p)
      else sock_WriteSelfLocked alloc (peer_of x) src len p)"

definition sock_WriteControlSelfLocked :: "side \<Rightarrow> user_ptr \<Rightarrow> nat \<Rightarrow> socket_pair \<Rightarrow> zx_status_t \<times> socket_pair" where
  "sock_WriteControlSelfLocked x src len p =
     (let s = p x in
      if control_msg_len s \<noteq> 0 then (ZX_ERR_SHOULD_WAIT, p)
      else case copy_array_from_user src 0 len of
             None \<Rightarrow> (ZX_ERR_INVALID_ARGS, p)
           | Some bytes \<Rightarrow>
               let p1 = sock_update x 0 ZX_SOCKET_CONTROL_READABLE
                          (p(x := s\<lparr>control_msg := blit (control_msg s) 0 bytes, control_msg_len := len\<rparr>))
               in (ZX_OK, if sock_peer s then sock_update (peer_of x) ZX_SOCKET_CONTROL_WRITABLE 0 p1 else p1))"

definition sock_WriteControl :: "side \<Rightarrow> user_ptr \<Rightarrow> nat \<Rightarrow> socket_pair \<Rightarrow> zx_status_t \<times> socket_pair" where
  "sock_WriteControl x src len p =
     (if \<not> has_sig (sock_flags (p x)) ZX_SOCKET_HAS_CONTROL then (ZX_ERR_BAD_STATE, p)
      else if len = 0 then (ZX_ERR_INVALID_ARGS, p)
      else if len > ControlMsg_kSize then (ZX_ERR_OUT_OF_RANGE, p)
      else if \<not> sock_peer (p x) then (ZX_ERR_PEER_CLOSED, p)
      else sock_WriteControlSelfLocked (peer_of x) src len p)"

definition sock_Write ::
    "(nat \<Rightarrow> bool) \<Rightarrow> side \<Rightarrow> socket_plane \<Rightarrow> user_ptr \<Rightarrow> nat \<Rightarrow> socket_pair \<Rightarrow> (zx_status_t + nat) \<times> socket_pair" where
  "sock_Write alloc x plane src len p =
     (case plane of
        kData \<Rightarrow> sock_WriteData alloc x src len p
      | kControl \<Rightarrow>
          (case sock_WriteControl x src len p of
             (status, p') \<Rightarrow> (if status = ZX_OK then Inr len else Inl status, p')))"

subsection \<open>Reading\<close>

definition sock_ReadData ::
    "side \<Rightarrow> socket_read_type \<Rightarrow> user_ptr \<Rightarrow> nat \<Rightarrow> socket_pair \<Rightarrow> (zx_status_t + nat \<times> byte list) \<times> socket_pair" where
  "sock_ReadData x type dst len p =
     (let s = p x; dg = has_sig (sock_flags s) ZX_SOCKET_DATAGRAM in
      if len \<noteq> len mod 2 ^ 32 then (Inl ZX_ERR_INVALID_ARGS, p)
      else if mbuf_is_empty (sock_data s)
      then (Inl (if \<not> sock_peer s then ZX_ERR_PEER_CLOSED
                 else if read_disabled s then ZX_ERR_BAD_STATE else ZX_ERR_SHOULD_WAIT), p)
      else case type of
             kPeek \<Rightarrow> (Inr (mbuf_Peek dst len dg (sock_data s)), p)
           | kConsume \<Rightarrow>
               let was_full = mbuf_is_full (sock_data s)
               in case mbuf_Read dst len dg (sock_data s) of
                    (st, out, d) \<Rightarrow>
                      let p1 = p(x := s\<lparr>sock_data := d\<rparr>);
                          clear = (if read_threshold s > 0 \<and> mbuf_size False d < read_threshold s
                                   then ZX_SOCKET_READ_THRESHOLD else 0) OR
                                  (if mbuf_is_empty d then ZX_SOCKET_READABLE else 0);
                          p2 = (if clear \<noteq> 0 then sock_update x clear 0 p1 else p1);
                          peer_write_threshold = write_threshold (p (peer_of x));
                          set = (if peer_write_threshold > 0 \<and>
                                    mbuf_max_size - mbuf_size False d \<ge> peer_write_threshold
                                 then ZX_SOCKET_WRITE_THRESHOLD else 0) OR
                                (if was_full \<and> st > 0 then ZX_SOCKET_WRITABLE else 0);
                          p3 = (if sock_peer s \<and> set \<noteq> 0 then sock_update (peer_of x) 0 set p2 else p2)
                      in (Inr (st, out), p3))"

definition sock_ReadControl ::
    "side \<Rightarrow> socket_read_type \<Rightarrow> user_ptr \<Rightarrow> nat \<Rightarrow> socket_pair \<Rightarrow> (zx_status_t + nat \<times> byte list) \<times> socket_pair" where
  "sock_ReadControl x type dst len p =
     (let s = p x in
      if \<not> has_sig (sock_flags s) ZX_SOCKET_HAS_CONTROL then (Inl ZX_ERR_BAD_STATE, p)
      else if control_msg_len s = 0 then (Inl ZX_ERR_SHOULD_WAIT, p)
      else
        let copy_len = min (control_msg_len s) len
        in if \<not> user_range_ok dst 0 copy_len then (Inl ZX_ERR_INVALID_ARGS, p)
           else
             let p1 = (case type of
                         kPeek \<Rightarrow> p
                       | kConsume \<Rightarrow>
                           let p2 = sock_update x ZX_SOCKET_CONTROL_READABLE 0 (p(x := s\<lparr>control_msg_len := 0\<rparr>))
                           in if sock_peer s then sock_update (peer_of x) 0 ZX_SOCKET_CONTROL_WRITABLE p2 else p2)
             in (Inr (copy_len, map (control_msg s) [0..<copy_len]), p1))"

definition sock_Read ::
    "side \<Rightarrow> socket_plane \<Rightarrow> socket_read_type \<Rightarrow> user_ptr \<Rightarrow> nat \<Rightarrow> socket_pair
       \<Rightarrow> (zx_status_t + nat \<times> byte list) \<times> socket_pair" where
  "sock_Read x plane type dst len p =
     (case plane of kData \<Rightarrow> sock_ReadData x type dst len p | kControl \<Rightarrow> sock_ReadControl x type dst len p)"

subsection \<open>Sharing\<close>

text \<open>Objects are compared by identity, which the kernel object id gives.\<close>

definition sock_CheckShareable :: "side \<Rightarrow> socket \<Rightarrow> socket_pair \<Rightarrow> zx_status_t" where
  "sock_CheckShareable x to_send p =
     (if has_sig (sock_flags to_send) ZX_SOCKET_HAS_ACCEPT \<or>
         obj_koid to_send = obj_koid (p x) \<or>
         sock_peer (p x) \<and> obj_koid to_send = obj_koid (p (peer_of x))
      then ZX_ERR_BAD_STATE else ZX_OK)"

definition sock_ShareSelfLocked ::
    "side \<Rightarrow> handle_id \<Rightarrow> socket_pair \<Rightarrow> zx_status_t \<times> handle_id option \<times> socket_pair" where
  "sock_ShareSelfLocked x h p =
     (let s = p x in
      if accept_queue s \<noteq> None then (ZX_ERR_SHOULD_WAIT, Some h, p)
      else
        let p1 = sock_update x 0 ZX_SOCKET_ACCEPT (p(x := s\<lparr>accept_queue := Some h\<rparr>))
        in (ZX_OK, None, if sock_peer s then sock_update (peer_of x) ZX_SOCKET_SHARE 0 p1 else p1))"

definition sock_Share :: "side \<Rightarrow> handle_id \<Rightarrow> socket_pair \<Rightarrow> zx_status_t \<times> handle_id option \<times> socket_pair" where
  "sock_Share x h p =
     (if \<not> has_sig (sock_flags (p x)) ZX_SOCKET_HAS_ACCEPT then (ZX_ERR_NOT_SUPPORTED, Some h, p)
      else if \<not> sock_peer (p x) then (ZX_ERR_PEER_CLOSED, Some h, p)
      else sock_ShareSelfLocked (peer_of x) h p)"

definition sock_Accept :: "side \<Rightarrow> socket_pair \<Rightarrow> (zx_status_t + handle_id) \<times> socket_pair" where
  "sock_Accept x p =
     (let s = p x in
      if \<not> has_sig (sock_flags s) ZX_SOCKET_HAS_ACCEPT then (Inl ZX_ERR_NOT_SUPPORTED, p)
      else case accept_queue s of
             None \<Rightarrow> (Inl ZX_ERR_SHOULD_WAIT, p)
           | Some h \<Rightarrow>
               let p1 = sock_update x ZX_SOCKET_ACCEPT 0 (p(x := s\<lparr>accept_queue := None\<rparr>))
               in (Inr h, if sock_peer s then sock_update (peer_of x) 0 ZX_SOCKET_SHARE p1 else p1))"

subsection \<open>Information and thresholds\<close>

definition sock_GetInfo :: "side \<Rightarrow> socket_pair \<Rightarrow> zx_info_socket" where
  "sock_GetInfo x p =
     (let s = p x; peer = p (peer_of x) in
      \<lparr>info_options = sock_flags s,
       rx_buf_max = mbuf_max_size,
       rx_buf_size = mbuf_size False (sock_data s),
       rx_buf_available = mbuf_size (has_sig (sock_flags s) ZX_SOCKET_DATAGRAM) (sock_data s),
       tx_buf_max = (if sock_peer s then mbuf_max_size else 0),
       tx_buf_size = (if sock_peer s then mbuf_size False (sock_data peer) else 0)\<rparr>)"

definition sock_GetReadThreshold :: "side \<Rightarrow> socket_pair \<Rightarrow> nat" where
  "sock_GetReadThreshold x p = read_threshold (p x)"

definition sock_GetWriteThreshold :: "side \<Rightarrow> socket_pair \<Rightarrow> nat" where
  "sock_GetWriteThreshold x p = write_threshold (p x)"

definition sock_SetReadThreshold :: "side \<Rightarrow> nat \<Rightarrow> socket_pair \<Rightarrow> zx_status_t \<times> socket_pair" where
  "sock_SetReadThreshold x v p =
     (if v > mbuf_max_size then (ZX_ERR_INVALID_ARGS, p)
      else
        let p1 = p(x := (p x)\<lparr>read_threshold := v\<rparr>)
        in (ZX_OK,
            if v = 0 then sock_update x ZX_SOCKET_READ_THRESHOLD 0 p1
            else if mbuf_size False (sock_data (p x)) \<ge> v
            then sock_update x 0 ZX_SOCKET_READ_THRESHOLD p1
            else sock_update x ZX_SOCKET_READ_THRESHOLD 0 p1))"

definition sock_SetWriteThreshold :: "side \<Rightarrow> nat \<Rightarrow> socket_pair \<Rightarrow> zx_status_t \<times> socket_pair" where
  "sock_SetWriteThreshold x v p =
     (if \<not> sock_peer (p x) then (ZX_ERR_PEER_CLOSED, p)
      else if v > mbuf_max_size then (ZX_ERR_INVALID_ARGS, p)
      else
        let p1 = p(x := (p x)\<lparr>write_threshold := v\<rparr>)
        in (ZX_OK,
            if v = 0 then sock_update x ZX_SOCKET_WRITE_THRESHOLD 0 p1
            else if mbuf_max_size - mbuf_size False (sock_data (p (peer_of x))) \<ge> v
            then sock_update x 0 ZX_SOCKET_WRITE_THRESHOLD p1
            else sock_update x ZX_SOCKET_WRITE_THRESHOLD 0 p1))"

section \<open>Chains under reads\<close>

lemma mbuf_read_loop_wf:
  assumes "chain_wf c" "mbuf_read_loop dst len dg pos out c = (ok, pos', out', c')"
  shows "chain_wf c' \<and> mc_size c' \<le> mc_size c \<and> pos \<le> pos' \<and> (pos' = pos \<longrightarrow> mc_size c' = mc_size c)"
  using assms
proof (induction "length (mc_tail c) + (len - pos)" arbitrary: c pos out rule: less_induct)
  case less
  show ?case
  proof (cases "pos < len \<and> mc_tail c \<noteq> []")
    case False
    then show ?thesis using less.prems mbuf_read_loop_done [OF False, of dst dg out] by auto
  next
    case True
    then obtain m ms where t: "mc_tail c = m # ms" by (cases "mc_tail c") auto
    define k where "k = min (mb_len m) (len - pos)"
    have k: "k \<le> mb_len m" "k = 0 \<longleftrightarrow> mb_len m = 0" using True by (auto simp: k_def)
    have p: "pos < len" using True by simp
    note round = mbuf_read_loop_round [OF p t, of dst dg out, folded k_def]
    let ?pop = "drop_front (mbuf_eat k m) ms
      (c\<lparr>mc_tail := mbuf_eat k m # ms, mc_size := mc_size c - k - (mb_len m - k)\<rparr>)"
    let ?eat = "c\<lparr>mc_tail := mbuf_eat k m # ms, mc_size := mc_size c - k\<rparr>"
    have wf_pop: "chain_wf ?pop" using less.prems(1) t k by (intro chain_wf_drop_front) auto
    have wf_eat: "chain_wf ?eat" using chain_wf_eat [OF less.prems(1) t k(1)] .
    consider (fault) "\<not> user_range_ok dst pos k" | (pop) "user_range_ok dst pos k" "mb_len m = k \<or> dg"
      | (eat) "user_range_ok dst pos k" "\<not> (mb_len m = k \<or> dg)" by blast
    then show ?thesis
    proof cases
      case fault
      then have "c' = c" "pos' = pos" using less.prems(2) unfolding round by simp_all
      then show ?thesis using less.prems(1) by simp
    next
      case pop
      have l: "mbuf_read_loop dst len dg (pos + k) (out @ take k (mb_bytes m)) ?pop = (ok, pos', out', c')"
        using less.prems(2) pop unfolding round by simp
      have "length (mc_tail ?pop) + (len - (pos + k)) < length (mc_tail c) + (len - pos)" by (simp add: t)
      note ih = less.hyps [OF this wf_pop l]
      have sz: "mc_size ?pop = mc_size c - mb_len m" using k(1) by simp
      have "pos' \<noteq> pos" if "k \<noteq> 0" using ih that by linarith
      moreover have "mc_size c' \<le> mc_size c" using ih unfolding sz by linarith
      ultimately show ?thesis using ih k(2) unfolding sz by (cases "k = 0") simp_all
    next
      case eat
      have l: "mbuf_read_loop dst len dg (pos + k) (out @ take k (mb_bytes m)) ?eat = (ok, pos', out', c')"
        using less.prems(2) eat unfolding round by simp
      have "0 < k" "k \<le> len - pos" using k eat by (auto simp: k_def)
      then have "length (mc_tail ?eat) + (len - (pos + k)) < length (mc_tail c) + (len - pos)"
        by (simp add: t)
      note ih = less.hyps [OF this wf_eat l]
      have sz: "mc_size ?eat = mc_size c - k" by simp
      have "mc_size c' \<le> mc_size c" "pos \<le> pos'" "pos' \<noteq> pos" using ih \<open>0 < k\<close> unfolding sz by linarith+
      then show ?thesis using ih by simp
    qed
  qed
qed

lemma mbuf_drain_wf: "chain_wf c \<Longrightarrow> chain_wf (mbuf_drain c) \<and> mc_size (mbuf_drain c) \<le> mc_size c"
proof (induction c rule: mbuf_drain.induct)
  case (1 c)
  show ?case
  proof (cases "mc_tail c \<noteq> [] \<and> mb_pkt_len (hd (mc_tail c)) = 0")
    case True
    then obtain m ms where t: "mc_tail c = m # ms" "mb_pkt_len m = 0" by (cases "mc_tail c") auto
    have "c\<lparr>mc_tail := m # ms, mc_size := mc_size c - mb_len m\<rparr> = c\<lparr>mc_size := mc_size c - mb_len m\<rparr>"
      using t(1) by (intro mbuf_chain.equality) simp_all
    then have "chain_wf (drop_front m ms (c\<lparr>mc_size := mc_size c - mb_len m\<rparr>))"
      using chain_wf_drop_front [OF "1.prems" t(1), of m "mc_size c - mb_len m"] by simp
    from "1.IH" [OF t this] show ?thesis
      using t by (subst (1 2) mbuf_drain.simps) auto
  next
    case False
    then have "mbuf_drain c = c" by (subst mbuf_drain.simps) (auto split: list.splits)
    then show ?thesis using "1.prems" by simp
  qed
qed

lemma mbuf_Read_wf:
  assumes "chain_wf c" "mbuf_Read dst len dg c = (n, out, c')"
  shows "chain_wf c' \<and> mc_size c' \<le> mc_size c"
proof (cases "mc_size c = 0")
  case True
  then show ?thesis using assms by (auto simp: mbuf_Read_def)
next
  case False
  obtain ok n1 o1 c1 where l: "mbuf_read_loop dst (read_clamp len dg c) dg 0 [] c = (ok, n1, o1, c1)"
    by (metis prod_cases4)
  have "c' = (if ok \<and> dg then mbuf_drain c1 else c1)" using assms(2) False l by (simp add: mbuf_Read_def)
  then show ?thesis
    using mbuf_read_loop_wf [OF assms(1) l] mbuf_drain_wf [of c1] by (auto split: if_splits)
qed

lemma mbuf_Read_stream_size:
  assumes "chain_wf c" "mbuf_Read dst len False c = (n, out, c')"
  shows "mc_size c = n + mc_size c'"
  using mbuf_Read_stream [OF assms] length_chain_bytes [OF assms(1)] length_chain_bytes [of c'] by auto

section \<open>The signal invariant\<close>

lemma UpdateStateLocked_socket [simp]:
  "sock_peer (UpdateStateLocked c t s) = sock_peer s"
  "sock_peer_koid (UpdateStateLocked c t s) = sock_peer_koid s"
  "sock_flags (UpdateStateLocked c t s) = sock_flags s"
  "sock_data (UpdateStateLocked c t s) = sock_data s"
  "control_msg (UpdateStateLocked c t s) = control_msg s"
  "control_msg_len (UpdateStateLocked c t s) = control_msg_len s"
  "accept_queue (UpdateStateLocked c t s) = accept_queue s"
  "read_threshold (UpdateStateLocked c t s) = read_threshold s"
  "write_threshold (UpdateStateLocked c t s) = write_threshold s"
  "read_disabled (UpdateStateLocked c t s) = read_disabled s"
  by (simp_all add: UpdateStateLocked_def Let_def)

lemma sock_update_simps [simp]:
  "sock_update x c t p x = UpdateStateLocked c t (p x)"
  "y \<noteq> x \<Longrightarrow> sock_update x c t p y = p y"
  by (simp_all add: sock_update_def)

lemma sock_update_none: "sock_update x 0 0 p = p"
  by (simp add: sock_update_def UpdateStateLocked_noop)

lemma sock_update_if_nonzero:
  "(if c \<noteq> 0 then sock_update x c 0 p else p) = sock_update x c 0 p"
  "(if t \<noteq> 0 then sock_update x 0 t p else p) = sock_update x 0 t p"
  "(if b \<and> t \<noteq> 0 then sock_update x 0 t p else p) = sock_update x 0 (if b then t else 0) p"
  by (auto simp: sock_update_none)

lemma sock_update_if:
  "(if b then sock_update x c t p else p) = sock_update x (if b then c else 0) (if b then t else 0) p"
  by (auto simp: sock_update_none)

text \<open>What a side's own signals say of its own queues.\<close>

definition sock_own :: "socket \<Rightarrow> bool" where
  "sock_own s \<longleftrightarrow>
     chain_wf (sock_data s) \<and>
     (bit (obj_signals s) 0 \<longleftrightarrow> mc_size (sock_data s) \<noteq> 0) \<and>
     (bit (obj_signals s) 4 \<longleftrightarrow> read_disabled s) \<and>
     (bit (obj_signals s) 6 \<longleftrightarrow> control_msg_len s \<noteq> 0) \<and>
     (bit (obj_signals s) 8 \<longleftrightarrow> accept_queue s \<noteq> None) \<and>
     (bit (obj_signals s) 10 \<longleftrightarrow> 0 < read_threshold s \<and> read_threshold s \<le> mc_size (sock_data s)) \<and>
     control_msg_len s \<le> ControlMsg_kSize"

text \<open>What they say of the peer's queues, while there is a peer.\<close>

definition sock_link :: "socket \<Rightarrow> socket \<Rightarrow> bool" where
  "sock_link s t \<longleftrightarrow>
     (bit (obj_signals s) 5 \<longleftrightarrow> read_disabled t) \<and>
     (bit (obj_signals s) 7 \<longleftrightarrow> has_sig (sock_flags s) ZX_SOCKET_HAS_CONTROL \<and> control_msg_len t = 0) \<and>
     (bit (obj_signals s) 9 \<longleftrightarrow> has_sig (sock_flags s) ZX_SOCKET_HAS_ACCEPT \<and> accept_queue t = None) \<and>
     (bit (obj_signals s) 11 \<longleftrightarrow>
        0 < write_threshold s \<and> write_threshold s \<le> mbuf_kSizeMax - mc_size (sock_data t)) \<and>
     (\<not> has_sig (sock_flags s) ZX_SOCKET_DATAGRAM \<and> \<not> bit (obj_signals s) 5 \<longrightarrow>
        (bit (obj_signals s) 1 \<longleftrightarrow> mc_size (sock_data t) < mbuf_kSizeMax))"

definition sock_inv :: "socket_pair \<Rightarrow> bool" where
  "sock_inv p \<longleftrightarrow>
     sock_peer (p Side0) = sock_peer (p Side1) \<and> sock_flags (p Side0) = sock_flags (p Side1) \<and>
     (\<forall>x. sock_own (p x) \<and> (sock_peer (p x) \<longrightarrow> sock_link (p x) (p (peer_of x))))"

lemma sock_inv_at:
  "sock_inv p \<longleftrightarrow>
     sock_peer (p (peer_of x)) = sock_peer (p x) \<and> sock_flags (p (peer_of x)) = sock_flags (p x) \<and>
     sock_own (p x) \<and> sock_own (p (peer_of x)) \<and>
     (sock_peer (p x) \<longrightarrow> sock_link (p x) (p (peer_of x)) \<and> sock_link (p (peer_of x)) (p x))"
proof -
  have "sock_peer (p Side0) = sock_peer (p Side1) \<longleftrightarrow> sock_peer (p (peer_of x)) = sock_peer (p x)"
    "sock_flags (p Side0) = sock_flags (p Side1) \<longleftrightarrow> sock_flags (p (peer_of x)) = sock_flags (p x)"
    by (cases x; auto)+
  then show ?thesis
    unfolding sock_inv_def by (subst all_sides [of _ x]) auto
qed

lemma sock_invE:
  assumes "sock_inv p"
  shows "sock_peer (p (peer_of x)) = sock_peer (p x)" "sock_flags (p (peer_of x)) = sock_flags (p x)"
    "sock_own (p x)" "sock_own (p (peer_of x))"
    "sock_peer (p x) \<Longrightarrow> sock_link (p x) (p (peer_of x))" "sock_peer (p x) \<Longrightarrow> sock_link (p (peer_of x)) (p x)"
  using assms sock_inv_at [of p x] by auto

lemma sock_invI:
  assumes "sock_peer (p (peer_of x)) = sock_peer (p x)" "sock_flags (p (peer_of x)) = sock_flags (p x)"
    "sock_own (p x)" "sock_own (p (peer_of x))"
    "sock_peer (p x) \<Longrightarrow> sock_link (p x) (p (peer_of x))" "sock_peer (p x) \<Longrightarrow> sock_link (p (peer_of x)) (p x)"
  shows "sock_inv p"
  using assms sock_inv_at [of p x] by auto

lemmas sock_bits = sig_bits mbuf_size_def mbuf_max_size_def mbuf_is_full_def mbuf_is_empty_def

subsection \<open>Shutdown, control messages, sharing, thresholds, closing\<close>

lemma sock_ShutdownOther_state:
  "snd (sock_ShutdownOtherLocked x how p) x =
     UpdateStateLocked (if has_sig how ZX_SOCKET_SHUTDOWN_READ then ZX_SOCKET_WRITABLE else 0)
       ((if has_sig how ZX_SOCKET_SHUTDOWN_READ then ZX_SOCKET_WRITE_DISABLED else 0) OR
        (if has_sig how ZX_SOCKET_SHUTDOWN_WRITE then ZX_SOCKET_PEER_WRITE_DISABLED else 0))
       ((p x)\<lparr>read_disabled := read_disabled (p x) \<or> has_sig how ZX_SOCKET_SHUTDOWN_WRITE\<rparr>)"
  "y \<noteq> x \<Longrightarrow> snd (sock_ShutdownOtherLocked x how p) y = p y"
  by (simp_all add: sock_ShutdownOtherLocked_def Let_def)

lemma sock_Shutdown_inv:
  assumes "sock_inv p"
  shows "sock_inv (snd (sock_Shutdown x how p))"
  using assms unfolding sock_inv_at [of _ x]
  by (auto simp: sock_Shutdown_def Let_def sock_ShutdownOther_state sock_own_def sock_link_def sock_bits)

lemma sock_WriteControl_inv:
  assumes "sock_inv p"
  shows "sock_inv (snd (sock_WriteControl x src len p))"
  using assms unfolding sock_inv_at [of _ x]
  by (auto simp: sock_WriteControl_def sock_WriteControlSelfLocked_def Let_def sock_own_def sock_link_def
      sock_bits split: option.split)

lemma sock_ReadControl_inv:
  assumes "sock_inv p"
  shows "sock_inv (snd (sock_ReadControl x ty dst len p))"
  using assms unfolding sock_inv_at [of _ x]
  by (auto simp: sock_ReadControl_def Let_def sock_own_def sock_link_def
      sock_bits split: socket_read_type.split)

lemma sock_Share_inv:
  assumes "sock_inv p"
  shows "sock_inv (snd (snd (sock_Share x h p)))"
  using assms unfolding sock_inv_at [of _ x]
  by (auto simp: sock_Share_def sock_ShareSelfLocked_def Let_def sock_own_def sock_link_def sock_bits)

lemma sock_Accept_inv:
  assumes "sock_inv p"
  shows "sock_inv (snd (sock_Accept x p))"
  using assms unfolding sock_inv_at [of _ x]
  by (auto simp: sock_Accept_def Let_def sock_own_def sock_link_def sock_bits split: option.split)

text \<open>A threshold signal is set or cleared by the outcome of one comparison.\<close>

lemma sock_update_flag:
  "(if b then sock_update x 0 m p else sock_update x m 0 p) =
     sock_update x (if b then 0 else m) (if b then m else 0) p"
  by simp

lemma sock_SetReadThreshold_state:
  "snd (sock_SetReadThreshold x v p) =
     (if v > mbuf_kSizeMax then p
      else let b = (0 < v \<and> v \<le> mc_size (sock_data (p x)))
           in sock_update x (if b then 0 else ZX_SOCKET_READ_THRESHOLD) (if b then ZX_SOCKET_READ_THRESHOLD else 0)
                (p(x := (p x)\<lparr>read_threshold := v\<rparr>)))"
  by (simp add: sock_SetReadThreshold_def Let_def mbuf_size_def mbuf_max_size_def)

lemma sock_SetWriteThreshold_state:
  "snd (sock_SetWriteThreshold x v p) =
     (if \<not> sock_peer (p x) \<or> v > mbuf_kSizeMax then p
      else let b = (0 < v \<and> v \<le> mbuf_kSizeMax - mc_size (sock_data (p (peer_of x))))
           in sock_update x (if b then 0 else ZX_SOCKET_WRITE_THRESHOLD) (if b then ZX_SOCKET_WRITE_THRESHOLD else 0)
                (p(x := (p x)\<lparr>write_threshold := v\<rparr>)))"
  by (simp add: sock_SetWriteThreshold_def Let_def mbuf_size_def mbuf_max_size_def)

lemma bit_if_mask_not: "bit (if b then 0 else m :: 32 word) n \<longleftrightarrow> \<not> b \<and> bit m n"
  by simp

lemma sock_SetReadThreshold_inv:
  assumes "sock_inv p"
  shows "sock_inv (snd (sock_SetReadThreshold x v p))"
proof (cases "v > mbuf_kSizeMax")
  case False
  then have q: "snd (sock_SetReadThreshold x v p) = sock_update x (if b then 0 else ZX_SOCKET_READ_THRESHOLD)
      (if b then ZX_SOCKET_READ_THRESHOLD else 0) (p(x := (p x)\<lparr>read_threshold := v\<rparr>))"
    if "b = (0 < v \<and> v \<le> mc_size (sock_data (p x)))" for b
    by (simp add: sock_SetReadThreshold_state Let_def that)
  show ?thesis unfolding q [OF refl]
    by (rule sock_invI [of _ x]; use sock_invE [OF assms, of x] in
        \<open>cases "0 < v \<and> v \<le> mc_size (sock_data (p x))"; simp add: sock_own_def sock_link_def sock_bits bit_if_mask_not\<close>)
qed (simp add: assms sock_SetReadThreshold_state)

lemma sock_SetWriteThreshold_inv:
  assumes "sock_inv p"
  shows "sock_inv (snd (sock_SetWriteThreshold x v p))"
proof (cases "\<not> sock_peer (p x) \<or> v > mbuf_kSizeMax")
  case False
  then have q: "snd (sock_SetWriteThreshold x v p) = sock_update x (if b then 0 else ZX_SOCKET_WRITE_THRESHOLD)
      (if b then ZX_SOCKET_WRITE_THRESHOLD else 0) (p(x := (p x)\<lparr>write_threshold := v\<rparr>))"
    if "b = (0 < v \<and> v \<le> mbuf_kSizeMax - mc_size (sock_data (p (peer_of x))))" for b
    by (simp add: sock_SetWriteThreshold_state Let_def that)
  show ?thesis unfolding q [OF refl]
    by (rule sock_invI [of _ x]; use sock_invE [OF assms, of x] in
        \<open>cases "0 < v \<and> v \<le> mbuf_kSizeMax - mc_size (sock_data (p (peer_of x)))"; simp add: sock_own_def sock_link_def sock_bits bit_if_mask_not\<close>)
qed (auto simp: assms sock_SetWriteThreshold_state)

subsection \<open>Data\<close>

text \<open>What either kind of chain write does to the sizes.\<close>

lemma chain_write_size:
  assumes wf: "chain_wf c"
    and w: "(if dg then WriteDatagram alloc src len c else WriteStream alloc src len c) = (r, d)"
  shows "chain_wf d \<and> mc_size d = mc_size c + (case r of Inl e \<Rightarrow> 0 | Inr n \<Rightarrow> n) \<and>
         (case r of Inl e \<Rightarrow> True | Inr n \<Rightarrow> 0 < n)"
proof (cases dg)
  case True
  then show ?thesis
    using WriteDatagram_cases [OF wf, of alloc src len r d] w by (cases r) auto
next
  case False
  then have s: "WriteStream alloc src len c = (r, d)" using w by simp
  show ?thesis
    using WriteStream_spec [OF wf s] length_chain_bytes [OF wf] length_chain_bytes [of d]
    by (cases r) (auto simp: user_bytes_def)
qed

lemma sock_WriteSelf_state:
  assumes "\<not> mbuf_is_full (sock_data (p x))"
    and w: "(if has_sig (sock_flags (p x)) ZX_SOCKET_DATAGRAM then WriteDatagram alloc src len (sock_data (p x))
             else WriteStream alloc src len (sock_data (p x))) = (r, d)"
  shows "snd (sock_WriteSelfLocked alloc x src len p) =
    (case r of
       Inl e \<Rightarrow> p(x := (p x)\<lparr>sock_data := d\<rparr>)
     | Inr st \<Rightarrow>
         sock_update (peer_of x)
           ((if st > 0 \<and> sock_peer (p x) \<and> write_threshold (p (peer_of x)) > 0 \<and>
                mbuf_kSizeMax - mc_size d < write_threshold (p (peer_of x))
             then ZX_SOCKET_WRITE_THRESHOLD else 0) OR
            (if sock_peer (p x) \<and> mbuf_kSizeMax \<le> mc_size d then ZX_SOCKET_WRITABLE else 0)) 0
           (sock_update x 0
              ((if st > 0 \<and> mc_size (sock_data (p x)) = 0 then ZX_SOCKET_READABLE else 0) OR
               (if st > 0 \<and> read_threshold (p x) > 0 \<and> read_threshold (p x) \<le> mc_size d
                then ZX_SOCKET_READ_THRESHOLD else 0))
              (p(x := (p x)\<lparr>sock_data := d\<rparr>))))"
  using assms(1)
  by (cases r)
     (simp_all add: sock_WriteSelfLocked_def w Let_def sock_update_if_nonzero mbuf_size_def mbuf_max_size_def
        mbuf_is_full_def mbuf_is_empty_def split del: if_split)

lemma room_shrinks:
  fixes a d t M :: nat
  assumes "a \<le> d"
  shows "(0 < t \<and> t \<le> M - a \<and> (t = 0 \<or> \<not> M - d < t)) \<longleftrightarrow> 0 < t \<and> t \<le> M - d"
proof -
  have "M - d \<le> M - a" using assms by simp
  then show ?thesis by linarith
qed

lemma sock_WriteSelf_inv:
  assumes inv: "sock_inv p" and peer: "sock_peer (p x)" and en: "\<not> read_disabled (p x)"
  shows "sock_inv (snd (sock_WriteSelfLocked alloc x src len p))"
proof (cases "mbuf_is_full (sock_data (p x))")
  case True
  then show ?thesis using inv by (simp add: sock_WriteSelfLocked_def)
next
  case False
  obtain r d where w: "(if has_sig (sock_flags (p x)) ZX_SOCKET_DATAGRAM
      then WriteDatagram alloc src len (sock_data (p x)) else WriteStream alloc src len (sock_data (p x))) = (r, d)"
    by fastforce
  note e = sock_invE [OF inv, of x]
  have wf: "chain_wf (sock_data (p x))" using e(3) by (simp add: sock_own_def)
  note sz = chain_write_size [OF wf w]
  note st = sock_WriteSelf_state [of p x, OF False w]
  show ?thesis
  proof (cases r)
    case (Inl err)
    show ?thesis unfolding st Inl sum.case
      by (rule sock_invI [of _ x]; use e sz Inl in \<open>simp add: sock_own_def sock_link_def\<close>)
  next
    case (Inr n)
    have n: "0 < n" "mc_size d = mc_size (sock_data (p x)) + n" "chain_wf d" "mc_size d \<le> mbuf_kSizeMax"
      using sz Inr by (auto simp: chain_wf_def)
    show ?thesis unfolding st Inr sum.case
    proof (rule sock_invI [of _ x], goal_cases)
      case 3
      have grow: "(0 < t \<and> t \<le> mc_size (sock_data (p x)) \<or> 0 < t \<and> t \<le> mc_size d) \<longleftrightarrow> 0 < t \<and> t \<le> mc_size d" for t
        using n(2) by auto
      have "mc_size d \<noteq> 0" using n by simp
      then show ?case using e(3) n(1,3) by (simp add: sock_own_def sock_bits grow split del: if_split) linarith
    next
      case 4
      show ?case using e(4) by (simp add: sock_own_def sock_bits)
    next
      case 5
      show ?case using e(5) [OF peer] by (simp add: sock_link_def sock_bits split del: if_split)
    next
      case 6
      have shrink: "(0 < t \<and> t \<le> mbuf_kSizeMax - mc_size (sock_data (p x)) \<and> (t = 0 \<or> \<not> mbuf_kSizeMax - mc_size d < t))
          \<longleftrightarrow> 0 < t \<and> t \<le> mbuf_kSizeMax - mc_size d" for t
        using room_shrinks [of "mc_size (sock_data (p x))" "mc_size d" t mbuf_kSizeMax] n(2) by simp
      have "mc_size (sock_data (p x)) < mbuf_kSizeMax" using n by linarith
      then show ?case using e(6) [OF peer] peer n(1) by (simp add: sock_link_def sock_bits shrink not_le split del: if_split)
    qed (use e(1,2) in simp_all)
  qed
qed


lemma sock_WriteData_inv:
  assumes inv: "sock_inv p"
  shows "sock_inv (snd (sock_WriteData alloc x src len p))"
proof (cases "sock_peer (p x) \<and> \<not> has_sig (obj_signals (p x)) ZX_SOCKET_WRITE_DISABLED \<and> len \<noteq> 0 \<and> len = len mod 2 ^ 32")
  case True
  note e = sock_invE [OF inv, of x]
  have "sock_peer (p (peer_of x))" "\<not> read_disabled (p (peer_of x))"
    using True e(1,5) by (auto simp: sock_link_def sock_bits)
  from sock_WriteSelf_inv [OF inv this] show ?thesis using True by (simp add: sock_WriteData_def)
next
  case False
  then show ?thesis using inv by (auto simp: sock_WriteData_def)
qed

lemma sock_Write_inv:
  assumes "sock_inv p"
  shows "sock_inv (snd (sock_Write alloc x plane src len p))"
  using sock_WriteData_inv [OF assms] sock_WriteControl_inv [OF assms, of x src len]
  by (cases plane) (auto simp: sock_Write_def split: prod.split)

lemma sock_ReadData_state:
  assumes "len = len mod 2 ^ 32" "\<not> mbuf_is_empty (sock_data (p x))"
    and r: "mbuf_Read dst len (has_sig (sock_flags (p x)) ZX_SOCKET_DATAGRAM) (sock_data (p x)) = (st, out, d)"
  shows "sock_ReadData x kConsume dst len p = (Inr (st, out),
    sock_update (peer_of x) 0
      (if sock_peer (p x)
       then (if write_threshold (p (peer_of x)) > 0 \<and> write_threshold (p (peer_of x)) \<le> mbuf_kSizeMax - mc_size d
             then ZX_SOCKET_WRITE_THRESHOLD else 0) OR
            (if mbuf_kSizeMax \<le> mc_size (sock_data (p x)) \<and> st > 0 then ZX_SOCKET_WRITABLE else 0)
       else 0)
      (sock_update x
         ((if read_threshold (p x) > 0 \<and> mc_size d < read_threshold (p x) then ZX_SOCKET_READ_THRESHOLD else 0) OR
          (if mc_size d = 0 then ZX_SOCKET_READABLE else 0)) 0
         (p(x := (p x)\<lparr>sock_data := d\<rparr>))))"
  using assms(1,2)
  by (simp add: sock_ReadData_def r Let_def sock_update_if_nonzero mbuf_size_def mbuf_max_size_def
      mbuf_is_full_def mbuf_is_empty_def split del: if_split)

lemma room_grows:
  fixes a d t M :: nat
  assumes "d \<le> a"
  shows "(0 < t \<and> t \<le> M - a \<or> 0 < t \<and> t \<le> M - d) \<longleftrightarrow> 0 < t \<and> t \<le> M - d"
proof -
  have "M - a \<le> M - d" using assms by simp
  then show ?thesis by linarith
qed

lemma threshold_falls:
  fixes a d t :: nat
  assumes "d \<le> a"
  shows "(0 < t \<and> t \<le> a \<and> (t = 0 \<or> \<not> d < t)) \<longleftrightarrow> 0 < t \<and> t \<le> d"
  using assms by linarith

lemma sock_ReadData_inv:
  assumes inv: "sock_inv p"
  shows "sock_inv (snd (sock_ReadData x ty dst len p))"
proof (cases "ty = kConsume \<and> len = len mod 2 ^ 32 \<and> \<not> mbuf_is_empty (sock_data (p x))")
  case False
  then show ?thesis
    using inv by (cases ty) (auto simp: sock_ReadData_def Let_def)
next
  case True
  obtain st out d where
    r: "mbuf_Read dst len (has_sig (sock_flags (p x)) ZX_SOCKET_DATAGRAM) (sock_data (p x)) = (st, out, d)"
    by (metis prod_cases3)
  note e = sock_invE [OF inv, of x]
  have wf: "chain_wf (sock_data (p x))" using e(3) by (simp add: sock_own_def)
  have d: "chain_wf d" "mc_size d \<le> mc_size (sock_data (p x))" using mbuf_Read_wf [OF wf r] by auto
  have full: "mc_size (sock_data (p x)) \<le> mbuf_kSizeMax" using wf by (simp add: chain_wf_def)
  have stream: "mc_size (sock_data (p x)) = st + mc_size d" if "\<not> has_sig (sock_flags (p x)) ZX_SOCKET_DATAGRAM"
    using mbuf_Read_stream_size [OF wf] r that by simp
  have pos: "mc_size (sock_data (p x)) \<noteq> 0" using True by (simp add: mbuf_is_empty_def)
  have q: "snd (sock_ReadData x ty dst len p) = snd (sock_ReadData x kConsume dst len p)" using True by simp
  show ?thesis
    unfolding q sock_ReadData_state [of len p x, OF _ _ r, OF True [THEN conjunct2, THEN conjunct1]
        True [THEN conjunct2, THEN conjunct2]] snd_conv
  proof (rule sock_invI [of _ x], goal_cases)
    case 3
    show ?case using e(3) d(1) pos
      by (simp add: sock_own_def sock_bits threshold_falls [OF d(2)] split del: if_split)
  next
    case 4
    show ?case using e(4) by (simp add: sock_own_def sock_bits split del: if_split)
  next
    case 5
    then show ?case using e(5) by (simp add: sock_link_def sock_bits split del: if_split)
  next
    case 6
    then have peer: "sock_peer (p x)" by simp
    have "mc_size (sock_data (p x)) < mbuf_kSizeMax \<or> mbuf_kSizeMax \<le> mc_size (sock_data (p x)) \<and> 0 < st
        \<longleftrightarrow> mc_size d < mbuf_kSizeMax" if "\<not> has_sig (sock_flags (p (peer_of x))) ZX_SOCKET_DATAGRAM"
      using stream full d(2) that e(2) by auto
    then show ?case using e(6) [OF peer] peer
      by (simp add: sock_link_def sock_bits room_grows [OF d(2)] split del: if_split)
  qed (use e(1,2) in simp_all)
qed

subsection \<open>Creation, closing, user signals\<close>

interpretation sock_peers: peered_object sock_has_peer sock_reset_peer sock_update
    sock_on_zero_handles_locked sock_OnPeerZeroHandlesLocked "\<lambda>x p. obj_signals (p x)"
proof unfold_locales
  fix x and s :: socket_pair
  show "has_sig (obj_signals (sock_OnPeerZeroHandlesLocked x s x)) ZX_OBJECT_PEER_CLOSED"
    "\<not> has_sig (obj_signals (sock_OnPeerZeroHandlesLocked x s x)) ZX_OBJECT_WRITABLE"
    by (simp_all add: sock_OnPeerZeroHandlesLocked_def sig_bits)
qed (simp_all add: sock_has_peer_def sock_reset_peer_def sock_on_zero_handles_locked_def
       sock_OnPeerZeroHandlesLocked_def sock_update_def)

lemma kernel_bit_mask: "n < 24 \<Longrightarrow> sig_bit n AND (ZX_USER_SIGNAL_ALL OR 0) = 0"
  by (rule bit_eqI) (auto simp: bit_and_iff bit_sig_bit user_all_bits)

lemma sock_user_signal_frame:
  "n < 24 \<Longrightarrow> bit (obj_signals (snd (user_signal_self sock_update 0 x c t p) y)) n = bit (obj_signals (p y)) n"
  "n < 24 \<Longrightarrow> bit (obj_signals (snd (user_signal_peer sock_has_peer sock_update 0 x c t p) y)) n = bit (obj_signals (p y)) n"
  by (simp_all add: sock_peers.user_signal_self_kernel_bits [OF kernel_bit_mask]
      sock_peers.user_signal_peer_kernel_bits [OF kernel_bit_mask] flip: has_sig_sig_bit)

text \<open>The invariant depends on nothing but the kernel's bits and the other fields.\<close>

lemma sock_inv_cong:
  assumes "\<And>y n. n < 24 \<Longrightarrow> bit (obj_signals (q y)) n = bit (obj_signals (p y)) n"
    and "\<And>y. socket.sock_peer (q y) = sock_peer (p y) \<and> sock_flags (q y) = sock_flags (p y) \<and>
           sock_data (q y) = sock_data (p y) \<and> control_msg_len (q y) = control_msg_len (p y) \<and>
           accept_queue (q y) = accept_queue (p y) \<and> read_threshold (q y) = read_threshold (p y) \<and>
           write_threshold (q y) = write_threshold (p y) \<and> read_disabled (q y) = read_disabled (p y)"
  shows "sock_inv q = sock_inv p"
  using assms by (simp add: sock_inv_def sock_own_def sock_link_def)

lemma sock_update_fields [simp]:
  "sock_peer (sock_update x c t p y) = sock_peer (p y)" "sock_flags (sock_update x c t p y) = sock_flags (p y)"
  "sock_data (sock_update x c t p y) = sock_data (p y)" "control_msg_len (sock_update x c t p y) = control_msg_len (p y)"
  "accept_queue (sock_update x c t p y) = accept_queue (p y)" "read_threshold (sock_update x c t p y) = read_threshold (p y)"
  "write_threshold (sock_update x c t p y) = write_threshold (p y)" "read_disabled (sock_update x c t p y) = read_disabled (p y)"
  "control_msg (sock_update x c t p y) = control_msg (p y)"
  by (simp_all add: sock_update_def)

lemma sock_signal_inv:
  assumes "sock_inv p"
  shows "sock_inv (snd (user_signal_self sock_update 0 x c t p))"
    and "sock_inv (snd (user_signal_peer sock_has_peer sock_update 0 x c t p))"
proof -
  show "sock_inv (snd (user_signal_self sock_update 0 x c t p))"
    by (rule sock_inv_cong [THEN iffD2, OF _ _ assms])
       (simp add: sock_user_signal_frame(1), simp add: user_signal_self_def Let_def)
  show "sock_inv (snd (user_signal_peer sock_has_peer sock_update 0 x c t p))"
    by (rule sock_inv_cong [THEN iffD2, OF _ _ assms])
       (simp add: sock_user_signal_frame(2), simp add: user_signal_peer_def Let_def)
qed

lemma sock_close_side:
  "sock_close x p y =
     (if y = x then (p x)\<lparr>sock_peer := False\<rparr>
      else if sock_peer (p x)
      then UpdateStateLocked ZX_SOCKET_WRITABLE ZX_SOCKET_PEER_CLOSED ((p y)\<lparr>sock_peer := False\<rparr>)
      else p y)"
  using side_cases_peer [of y x]
  by (auto simp: on_zero_handles_def Let_def sock_has_peer_def sock_reset_peer_def sock_on_zero_handles_locked_def
      sock_OnPeerZeroHandlesLocked_def sock_update_def)

lemma sock_close_inv:
  assumes "sock_inv p"
  shows "sock_inv (sock_close x p)"
  by (rule sock_invI [of _ x]; use sock_invE [OF assms, of x] in
      \<open>simp add: sock_close_side sock_own_def sig_bits\<close>)

lemma sock_create_inv:
  assumes "SocketDispatcher_Create alloc_ok k0 k1 m0 m1 flags = Inr p"
  shows "sock_inv p \<and> (\<forall>x. sock_peer (p x) \<and> sock_flags (p x) = flags \<and> sock_data (p x) = empty_chain)"
proof -
  let ?sig = "ZX_SOCKET_WRITABLE OR (if has_sig flags ZX_SOCKET_HAS_ACCEPT then ZX_SOCKET_SHARE else 0) OR
              (if has_sig flags ZX_SOCKET_HAS_CONTROL then ZX_SOCKET_CONTROL_WRITABLE else 0)"
  have p: "p x = new_socket (if x = Side0 then k0 else k1) (if x = Side0 then k1 else k0) ?sig flags
             (if x = Side0 then m0 else m1)" for x
    using assms by (cases x) (auto simp: SocketDispatcher_Create_def Let_def split: if_splits)
  have e: "chain_wf empty_chain" "mc_size empty_chain = 0" "0 < mbuf_kSizeMax"
    by (simp_all add: empty_chain_wf const_defs) (simp add: empty_chain_def)
  show ?thesis
    unfolding sock_inv_def p using e
    by (simp add: new_socket_def sock_own_def sock_link_def sig_bits split del: if_split)
qed

section \<open>Every reachable pair\<close>

inductive sock_step :: "socket_pair \<Rightarrow> socket_pair \<Rightarrow> bool" where
  sock_write: "sock_step p (snd (sock_Write alloc x plane src len p))"
| sock_read: "sock_step p (snd (sock_Read x plane ty dst len p))"
| sock_shutdown: "sock_step p (snd (sock_Shutdown x how p))"
| sock_share: "sock_step p (snd (snd (sock_Share x h p)))"
| sock_accept: "sock_step p (snd (sock_Accept x p))"
| sock_set_read: "sock_step p (snd (sock_SetReadThreshold x v p))"
| sock_set_write: "sock_step p (snd (sock_SetWriteThreshold x v p))"
| sock_zero_handles: "sock_step p (sock_close x p)"
| sock_signal_self: "sock_step p (snd (user_signal_self sock_update 0 x c t p))"
| sock_signal_peer: "sock_step p (snd (user_signal_peer sock_has_peer sock_update 0 x c t p))"

inductive sock_reachable :: "socket_pair \<Rightarrow> bool" where
  sock_create: "SocketDispatcher_Create alloc_ok k0 k1 m0 m1 flags = Inr p \<Longrightarrow> sock_reachable p"
| sock_next: "sock_reachable p \<Longrightarrow> sock_step p q \<Longrightarrow> sock_reachable q"

lemma sock_Read_inv:
  assumes "sock_inv p"
  shows "sock_inv (snd (sock_Read x plane ty dst len p))"
  using sock_ReadData_inv [OF assms] sock_ReadControl_inv [OF assms] by (cases plane) (simp_all add: sock_Read_def)

lemma sock_step_inv: "sock_step p q \<Longrightarrow> sock_inv p \<Longrightarrow> sock_inv q"
  by (induction rule: sock_step.induct)
     (simp_all add: sock_Write_inv sock_Read_inv sock_Shutdown_inv sock_Share_inv sock_Accept_inv
        sock_SetReadThreshold_inv sock_SetWriteThreshold_inv sock_close_inv sock_signal_inv)

lemma sock_reachable_inv: "sock_reachable p \<Longrightarrow> sock_inv p"
  by (induction rule: sock_reachable.induct) (auto dest: sock_create_inv sock_step_inv)

section \<open>The byte stream\<close>

datatype sock_call =
    KWrite "nat \<Rightarrow> bool" side user_ptr nat
  | KRead side socket_read_type user_ptr nat
  | KShutdown side "32 word"
  | KClose side

record sock_io =
  kio_pair :: socket_pair
  kio_in :: "side \<Rightarrow> byte list"
  kio_out :: "side \<Rightarrow> byte list"

fun sock_call_step :: "sock_call \<Rightarrow> sock_io \<Rightarrow> sock_io" where
  "sock_call_step (KWrite alloc x src len) s =
     (case sock_WriteData alloc x src len (kio_pair s) of
        (Inl e, p) \<Rightarrow> s\<lparr>kio_pair := p\<rparr>
      | (Inr n, p) \<Rightarrow>
          s\<lparr>kio_pair := p, kio_in := (kio_in s)(peer_of x := kio_in s (peer_of x) @ user_bytes src n)\<rparr>)"
| "sock_call_step (KRead x ty dst len) s =
     (case sock_ReadData x ty dst len (kio_pair s) of
        (Inl e, p) \<Rightarrow> s\<lparr>kio_pair := p\<rparr>
      | (Inr (n, out), p) \<Rightarrow>
          s\<lparr>kio_pair := p,
            kio_out := (if ty = kConsume then (kio_out s)(x := kio_out s x @ out) else kio_out s)\<rparr>)"
| "sock_call_step (KShutdown x how) s = s\<lparr>kio_pair := snd (sock_Shutdown x how (kio_pair s))\<rparr>"
| "sock_call_step (KClose x) s = s\<lparr>kio_pair := sock_close x (kio_pair s)\<rparr>"

lemma sock_WriteSelf_fst:
  assumes "\<not> mbuf_is_full (sock_data (p x))"
    and w: "(if has_sig (sock_flags (p x)) ZX_SOCKET_DATAGRAM then WriteDatagram alloc src len (sock_data (p x))
             else WriteStream alloc src len (sock_data (p x))) = (r, d)"
  shows "fst (sock_WriteSelfLocked alloc x src len p) = r"
  using assms(1)
  by (cases r) (simp_all add: sock_WriteSelfLocked_def w Let_def split del: if_split)

lemma sock_WriteSelf_frame:
  "sock_flags (snd (sock_WriteSelfLocked alloc x src len p) y) = sock_flags (p y)"
  "sock_data (snd (sock_WriteSelfLocked alloc x src len p) (peer_of x)) = sock_data (p (peer_of x))"
proof -
  obtain r d where w: "(if has_sig (sock_flags (p x)) ZX_SOCKET_DATAGRAM then WriteDatagram alloc src len (sock_data (p x))
      else WriteStream alloc src len (sock_data (p x))) = (r, d)" by fastforce
  have "sock_flags (snd (sock_WriteSelfLocked alloc x src len p) y) = sock_flags (p y) \<and>
      sock_data (snd (sock_WriteSelfLocked alloc x src len p) (peer_of x)) = sock_data (p (peer_of x))"
  proof (cases "mbuf_is_full (sock_data (p x))")
    case False
    show ?thesis unfolding sock_WriteSelf_state [of p x, OF False w] by (cases r) simp_all
  qed (simp add: sock_WriteSelfLocked_def)
  then show "sock_flags (snd (sock_WriteSelfLocked alloc x src len p) y) = sock_flags (p y)"
    "sock_data (snd (sock_WriteSelfLocked alloc x src len p) (peer_of x)) = sock_data (p (peer_of x))" by blast+
qed

lemma sock_WriteData_frame:
  "sock_flags (snd (sock_WriteData alloc x src len p) y) = sock_flags (p y)"
  "sock_data (snd (sock_WriteData alloc x src len p) x) = sock_data (p x)"
  using sock_WriteSelf_frame(2) [of alloc "peer_of x" src len p]
  by (simp_all add: sock_WriteData_def sock_WriteSelf_frame(1))

lemma sock_ReadData_frame:
  "sock_flags (snd (sock_ReadData x ty dst len p) y) = sock_flags (p y) \<and>
   sock_data (snd (sock_ReadData x ty dst len p) (peer_of x)) = sock_data (p (peer_of x))"
proof (cases "ty = kConsume \<and> len = len mod 2 ^ 32 \<and> \<not> mbuf_is_empty (sock_data (p x))")
  case False
  then show ?thesis by (cases ty) (auto simp: sock_ReadData_def Let_def)
next
  case True
  obtain st out d where
    r: "mbuf_Read dst len (has_sig (sock_flags (p x)) ZX_SOCKET_DATAGRAM) (sock_data (p x)) = (st, out, d)"
    by (metis prod_cases3)
  show ?thesis using sock_ReadData_state [of len p x, OF _ _ r] True by simp
qed

lemma sock_Shutdown_frame:
  "sock_flags (snd (sock_Shutdown x how p) y) = sock_flags (p y)"
  "sock_data (snd (sock_Shutdown x how p) y) = sock_data (p y)"
  by (simp_all add: sock_Shutdown_def sock_ShutdownOtherLocked_def Let_def)

lemma sock_close_frame:
  "sock_flags (sock_close x p y) = sock_flags (p y)" "sock_data (sock_close x p y) = sock_data (p y)"
  by (simp_all add: sock_close_side)

lemma sock_write_bytes:
  assumes wf: "chain_wf (sock_data (p (peer_of x)))" and st: "\<not> has_sig (sock_flags (p (peer_of x))) ZX_SOCKET_DATAGRAM"
    and w: "sock_WriteData alloc x src len p = (r, q)"
  shows "chain_bytes (sock_data (q (peer_of x))) = chain_bytes (sock_data (p (peer_of x))) @
           (case r of Inl e \<Rightarrow> [] | Inr n \<Rightarrow> user_bytes src n)"
proof (cases "sock_peer (p x) \<and> \<not> has_sig (obj_signals (p x)) ZX_SOCKET_WRITE_DISABLED \<and> len \<noteq> 0 \<and>
    len = len mod 2 ^ 32 \<and> \<not> mbuf_is_full (sock_data (p (peer_of x)))")
  case False
  then show ?thesis using w
    by (auto simp: sock_WriteData_def sock_WriteSelfLocked_def user_bytes_def Let_def split: if_splits)
next
  case True
  obtain r' d where ws: "WriteStream alloc src len (sock_data (p (peer_of x))) = (r', d)" by fastforce
  have eq: "sock_WriteData alloc x src len p = sock_WriteSelfLocked alloc (peer_of x) src len p"
    using True by (simp add: sock_WriteData_def)
  have "r = r'" "q = snd (sock_WriteSelfLocked alloc (peer_of x) src len p)"
    using sock_WriteSelf_fst [of p "peer_of x" alloc src len r' d] True st ws w eq by auto
  moreover have "sock_data (snd (sock_WriteSelfLocked alloc (peer_of x) src len p) (peer_of x)) = d"
    using sock_WriteSelf_state [of p "peer_of x" alloc src len r' d] True st ws by (cases r') simp_all
  ultimately show ?thesis
    using WriteStream_spec [OF wf ws] by (cases r') auto
qed

lemma sock_read_bytes:
  assumes wf: "chain_wf (sock_data (p x))" and st: "\<not> has_sig (sock_flags (p x)) ZX_SOCKET_DATAGRAM"
    and r: "sock_ReadData x ty dst len p = (r, q)"
  shows "chain_bytes (sock_data (p x)) =
    (case r of Inl e \<Rightarrow> [] | Inr (n, out) \<Rightarrow> (if ty = kConsume then out else [])) @ chain_bytes (sock_data (q x))"
proof (cases "ty = kConsume \<and> len = len mod 2 ^ 32 \<and> \<not> mbuf_is_empty (sock_data (p x))")
  case False
  then show ?thesis using r by (cases ty) (auto simp: sock_ReadData_def Let_def split: if_splits)
next
  case True
  obtain n out d where m: "mbuf_Read dst len False (sock_data (p x)) = (n, out, d)" by (metis prod_cases3)
  have "r = Inr (n, out)" "sock_data (q x) = d"
    using sock_ReadData_state [of len p x dst n out d] True st m r by auto
  then show ?thesis using mbuf_Read_stream [OF wf m] True by simp
qed

definition sock_io_inv :: "sock_io \<Rightarrow> bool" where
  "sock_io_inv s \<longleftrightarrow> sock_inv (kio_pair s) \<and>
     (\<forall>x. \<not> has_sig (sock_flags (kio_pair s x)) ZX_SOCKET_DATAGRAM \<and>
          kio_in s x = kio_out s x @ chain_bytes (sock_data (kio_pair s x)))"

lemma sock_inv_chain: "sock_inv p \<Longrightarrow> chain_wf (sock_data (p x))"
  by (simp add: sock_inv_def sock_own_def)

lemma sock_call_step_inv:
  assumes "sock_io_inv s"
  shows "sock_io_inv (sock_call_step c s)"
proof -
  have inv: "sock_inv (kio_pair s)" and st: "\<And>x. \<not> has_sig (sock_flags (kio_pair s x)) ZX_SOCKET_DATAGRAM"
    using assms by (auto simp: sock_io_inv_def)
  show ?thesis
  proof (cases c)
    case (KWrite alloc x src len)
    obtain r q where w: "sock_WriteData alloc x src len (kio_pair s) = (r, q)" by fastforce
    show ?thesis
      using assms KWrite w sock_WriteData_inv [OF inv, of alloc x src len]
        sock_WriteData_frame [of alloc x src len "kio_pair s"]
        sock_write_bytes [of "kio_pair s" x, OF sock_inv_chain [OF inv] st w]
      by (cases r) (auto simp: sock_io_inv_def all_sides [of _ x])
  next
    case (KRead x ty dst len)
    obtain r q where w: "sock_ReadData x ty dst len (kio_pair s) = (r, q)" by fastforce
    show ?thesis
      using assms KRead w sock_ReadData_inv [OF inv, of x ty dst len]
        sock_ReadData_frame [of x ty dst len "kio_pair s"]
        sock_read_bytes [of "kio_pair s" x, OF sock_inv_chain [OF inv] st w]
      by (cases r) (auto simp: sock_io_inv_def all_sides [of _ x] split: if_splits)
  next
    case (KShutdown x how)
    then show ?thesis
      using assms sock_Shutdown_inv by (simp add: sock_io_inv_def sock_Shutdown_frame)
  next
    case (KClose x)
    then show ?thesis
      using assms sock_close_inv by (simp add: sock_io_inv_def sock_close_frame)
  qed
qed

section \<open>Properties\<close>


definition sock_example :: socket_pair where
  "sock_example = case_side (new_socket 1024 1025 (ZX_SOCKET_WRITABLE OR 0 OR 0) 0 (\<lambda>_. 0))
                            (new_socket 1025 1024 (ZX_SOCKET_WRITABLE OR 0 OR 0) 0 (\<lambda>_. 0))"

lemma sock_example_created:
  "SocketDispatcher_Create [True, True, True] 1024 1025 (\<lambda>_. 0) (\<lambda>_. 0) 0 = Inr sock_example"
  by (simp add: SocketDispatcher_Create_def sock_example_def fun_eq_iff Let_def)


text \<open>
  C13: a stream socket delivers bytes in order, none lost, invented or repeated, in both
  directions at once, under any interleaving of writes, reads, peeks, shutdowns and closes
  by the two holders.
\<close>

theorem socket_stream:
  assumes "SocketDispatcher_Create alloc_ok k0 k1 m0 m1 flags = Inr p" "\<not> has_sig flags ZX_SOCKET_DATAGRAM"
  shows "let s = fold sock_call_step calls \<lparr>kio_pair = p, kio_in = (\<lambda>_. []), kio_out = (\<lambda>_. [])\<rparr>
         in kio_in s x = kio_out s x @ chain_bytes (sock_data (kio_pair s x))"
proof -
  have "sock_io_inv (fold sock_call_step cs s)" if "sock_io_inv s" for cs s
    using that by (induction cs arbitrary: s) (auto intro: sock_call_step_inv)
  moreover have "sock_io_inv \<lparr>kio_pair = p, kio_in = (\<lambda>_. []), kio_out = (\<lambda>_. [])\<rparr>"
    using sock_create_inv [OF assms(1)] assms(2)
    by (simp add: sock_io_inv_def chain_bytes_def) (simp add: empty_chain_def)
  ultimately show ?thesis
    by (simp only: sock_io_inv_def Let_def) blast
qed

theorem socket_stream_witness:
  "SocketDispatcher_Create [True, True, True] 1024 1025 (\<lambda>_. 0) (\<lambda>_. 0) 0 = Inr sock_example \<and>
   (let s = fold sock_call_step [KWrite (\<lambda>_. True) Side0 any_ptr 2, KRead Side1 kConsume any_ptr 1]
              \<lparr>kio_pair = sock_example, kio_in = (\<lambda>_. []), kio_out = (\<lambda>_. [])\<rparr>
    in kio_in s Side1 = kio_out s Side1 @ chain_bytes (sock_data (kio_pair s Side1)))"
  using sock_example_created socket_stream [OF sock_example_created, of
      "[KWrite (\<lambda>_. True) Side0 any_ptr 2, KRead Side1 kConsume any_ptr 1]" Side1]
  by (simp add: const_defs)

text \<open>
  a control message is delivered as it was sent. On a connected reachable pair whose
  peer slot is free, writing \<open>len\<close> bytes (\<open>0 < len \<le> 1024\<close>, good buffer) succeeds; a second
  control write is refused until the peer has consumed it; the peer's read returns its
  first \<open>n\<close> bytes and frees the slot.
\<close>

theorem control_message_roundtrip:
  assumes "sock_reachable p" "sock_peer (p x)" "has_sig (sock_flags (p x)) ZX_SOCKET_HAS_CONTROL"
    and "control_msg_len (p (peer_of x)) = 0" "0 < len" "len \<le> ControlMsg_kSize" "user_range_ok src 0 len"
    and "user_range_ok dst 0 (min len n)"
  shows "let (r, q) = sock_WriteControl x src len p;
             (r2, q2) = sock_WriteControl x src2 len q;
             (r3, q3) = sock_ReadControl (peer_of x) kConsume dst n q
         in r = ZX_OK \<and> r2 = ZX_ERR_SHOULD_WAIT \<and> q2 = q \<and>
            r3 = Inr (min len n, take n (user_bytes src len)) \<and> control_msg_len (q3 (peer_of x)) = 0 \<and>
            has_sig (obj_signals (q3 x)) ZX_SOCKET_CONTROL_WRITABLE"
proof -
  have fl: "sock_flags (p (peer_of x)) = sock_flags (p x)" "sock_peer (p (peer_of x)) = sock_peer (p x)"
    using sock_invE [OF sock_reachable_inv [OF assms(1)], of x] by auto
  have b: "map (blit d 0 (user_bytes src len)) [0..<min len n] = take n (user_bytes src len)" for d
    by (rule nth_equalityI) (auto simp: blit_def user_bytes_def)
  have c: "copy_array_from_user src 0 len = Some (user_bytes src len)"
    using assms(7) by (simp add: copy_array_from_user_eq user_bytes_def)
  define y where "y = peer_of x"
  have xy: "y \<noteq> x" "peer_of y = x" by (simp_all add: y_def)
  define q where "q = sock_update x ZX_SOCKET_CONTROL_WRITABLE 0 (sock_update y 0 ZX_SOCKET_CONTROL_READABLE
      (p(y := (p y)\<lparr>control_msg := blit (control_msg (p y)) 0 (user_bytes src len), control_msg_len := len\<rparr>)))"
  have q: "sock_peer (q z) = sock_peer (p z)" "sock_flags (q z) = sock_flags (p z)" "control_msg_len (q y) = len"
      "control_msg (q y) = blit (control_msg (p y)) 0 (user_bytes src len)" for z
    using xy by (simp_all add: q_def)
  have w: "sock_WriteControl x src len p = (ZX_OK, q)"
    using assms fl c by (simp add: sock_WriteControl_def sock_WriteControlSelfLocked_def Let_def q_def y_def)
  have w2: "sock_WriteControl x src2 len q = (ZX_ERR_SHOULD_WAIT, q)"
    using assms fl xy by (simp add: sock_WriteControl_def sock_WriteControlSelfLocked_def q y_def [symmetric])
  have r: "sock_ReadControl y kConsume dst n q = (Inr (min len n, take n (user_bytes src len)),
      sock_update x 0 ZX_SOCKET_CONTROL_WRITABLE (sock_update y ZX_SOCKET_CONTROL_READABLE 0
        (q(y := (q y)\<lparr>control_msg_len := 0\<rparr>))))"
    using assms fl xy by (simp add: sock_ReadControl_def q b Let_def y_def [symmetric])
  show ?thesis
    unfolding y_def [symmetric] w prod.case w2 r Let_def using xy by (simp add: sig_bits)
qed

definition control_example :: socket_pair where
  "control_example = case_side
     (new_socket 1024 1025 (ZX_SOCKET_WRITABLE OR 0 OR ZX_SOCKET_CONTROL_WRITABLE) 2 (\<lambda>_. 0))
     (new_socket 1025 1024 (ZX_SOCKET_WRITABLE OR 0 OR ZX_SOCKET_CONTROL_WRITABLE) 2 (\<lambda>_. 0))"

theorem control_message_roundtrip_witness:
  "sock_reachable control_example \<and>
   (let (r, q) = sock_WriteControl Side0 any_ptr 3 control_example;
        (r2, q2) = sock_WriteControl Side0 any_ptr 3 q;
        (r3, q3) = sock_ReadControl Side1 kConsume any_ptr 2 q
    in r = ZX_OK \<and> r2 = ZX_ERR_SHOULD_WAIT \<and> r3 = Inr (2, [65, 66]))"
proof -
  have "SocketDispatcher_Create [True] 1024 1025 (\<lambda>_. 0) (\<lambda>_. 0) 2 = Inr control_example"
    by (simp add: SocketDispatcher_Create_def control_example_def fun_eq_iff Let_def const_defs has_sig_def)
  then have r: "sock_reachable control_example" by (rule sock_reachable.sock_create)
  have e: "sock_peer (control_example x)" "sock_flags (control_example x) = 2" "control_msg_len (control_example x) = 0" for x
    by (cases x; simp add: control_example_def new_socket_def)+
  have h: "has_sig 2 ZX_SOCKET_HAS_CONTROL" by (simp add: has_sig_def const_defs)
  have t: "take 2 (user_bytes any_ptr 3) = [65, 66]" by (simp add: user_bytes_def any_ptr_def upt_rec)
  show ?thesis
    using control_message_roundtrip [OF r, of Side0 3 any_ptr any_ptr 2 any_ptr] r h
    by (auto simp: e t const_defs Let_def split: prod.splits)
qed

lemma write_disabled_bit:
  assumes "ZX_SOCKET_WRITE_DISABLED = s AND m"
  shows "bit s 5"
proof -
  have "bit ZX_SOCKET_WRITE_DISABLED 5" by (simp add: sig_bits)
  then show ?thesis unfolding assms by (simp only: bit_and_iff)
qed

text \<open>
  half-closing. After \<^verbatim>\<open>Shutdown\<close> for writing on a connected reachable pair, every
  data write on that side fails with \<^verbatim>\<open>ZX_ERR_BAD_STATE\<close>, what the peer had not read yet
  is still there, and a read by the peer on an empty queue fails with
  \<^verbatim>\<open>ZX_ERR_BAD_STATE\<close> instead of asking it to wait.
\<close>

theorem socket_shutdown_write:
  assumes "sock_reachable p" "sock_peer (p x)"
  shows "let (r, q) = sock_Shutdown x ZX_SOCKET_SHUTDOWN_WRITE p; y = peer_of x
         in r = ZX_OK \<and> sock_WriteData alloc x src len q = (Inl ZX_ERR_BAD_STATE, q) \<and>
            sock_data (q y) = sock_data (p y) \<and>
            (mc_size (sock_data (p y)) = 0 \<longrightarrow>
               sock_ReadData y ty dst 1 q = (Inl ZX_ERR_BAD_STATE, q))"
proof -
  let ?S = "sock_Shutdown x ZX_SOCKET_SHUTDOWN_WRITE p"
  have inv: "sock_inv p" by (rule sock_reachable_inv [OF assms(1)])
  note e = sock_invE [OF inv, of x]
  have w: "has_sig ZX_SOCKET_SHUTDOWN_WRITE ZX_SOCKET_SHUTDOWN_WRITE" "\<not> has_sig ZX_SOCKET_SHUTDOWN_WRITE ZX_SOCKET_SHUTDOWN_READ"
    by (simp_all add: has_sig_def const_defs)
  have ok: "fst ?S = ZX_OK" by (simp add: sock_Shutdown_def sock_ShutdownOtherLocked_def Let_def)
  have peer: "sock_peer (snd ?S z) = sock_peer (p z)" for z
    by (simp add: sock_Shutdown_def sock_ShutdownOtherLocked_def Let_def)
  have dis: "bit (obj_signals (snd ?S x)) 5"
  proof (cases "ZX_SOCKET_WRITE_DISABLED = obj_signals (p x) AND (ZX_SOCKET_PEER_WRITE_DISABLED OR ZX_SOCKET_WRITE_DISABLED)")
    case True
    then have "bit (obj_signals (p x)) 5" by (rule write_disabled_bit)
    moreover have "snd ?S = p" unfolding sock_Shutdown_def using w True by simp
    ultimately show ?thesis by simp
  next
    case False
    then show ?thesis using w assms(2)
      by (simp add: sock_Shutdown_def sock_ShutdownOtherLocked_def Let_def sig_bits)
  qed
  have rd: "read_disabled (snd ?S (peer_of x))"
    using dis sock_Shutdown_inv [OF inv, of x ZX_SOCKET_SHUTDOWN_WRITE] peer assms(2)
      sock_invE(5) [of "snd ?S" x] by (auto simp: sock_link_def)
  have wr: "sock_WriteData alloc x src len (snd ?S) = (Inl ZX_ERR_BAD_STATE, snd ?S)"
    using dis peer assms(2) by (simp add: sock_WriteData_def sig_bits)
  have rr: "sock_ReadData (peer_of x) ty dst 1 (snd ?S) = (Inl ZX_ERR_BAD_STATE, snd ?S)"
    if "mc_size (sock_data (p (peer_of x))) = 0"
    using rd peer assms(2) e(1) that by (simp add: sock_ReadData_def sock_Shutdown_frame mbuf_is_empty_def Let_def)
  show ?thesis
    using ok wr rr by (auto simp: sock_Shutdown_frame split: prod.split)
       (metis sock_Shutdown_frame(2) snd_conv)
qed

theorem socket_shutdown_write_witness:
  "sock_reachable sock_example \<and> sock_peer (sock_example Side0) \<and>
   fst (sock_WriteData (\<lambda>_. True) Side0 any_ptr 5 (snd (sock_Shutdown Side0 ZX_SOCKET_SHUTDOWN_WRITE sock_example))) =
     Inl ZX_ERR_BAD_STATE"
proof -
  have r: "sock_reachable sock_example" by (rule sock_reachable.sock_create [OF sock_example_created])
  have p: "sock_peer (sock_example Side0)" by (simp add: sock_example_def new_socket_def)
  show ?thesis
    using r p socket_shutdown_write [OF r p, of "\<lambda>_. True" any_ptr 5 kPeek any_ptr] by (simp add: case_prod_beta)
qed

text \<open>
  C38: a write-disabled endpoint can be signalled writable. When a stream side that has
  been shut down for writing faces a full peer buffer, the peer's next read asserts
  \<^verbatim>\<open>ZX_SOCKET_WRITABLE\<close> on it again, although \<^verbatim>\<open>Shutdown\<close> withdrew that signal
  and every write still fails with \<^verbatim>\<open>ZX_ERR_BAD_STATE\<close>.
\<close>

theorem socket_writable_though_disabled:
  assumes "sock_reachable p" "sock_peer (p x)" "has_sig (obj_signals (p x)) ZX_SOCKET_WRITE_DISABLED"
    and "mc_size (sock_data (p (peer_of x))) = mbuf_kSizeMax"
    and "sock_ReadData (peer_of x) kConsume dst len p = (Inr (n, out), q)" "0 < n"
  shows "has_sig (obj_signals (q x)) ZX_SOCKET_WRITABLE \<and>
         has_sig (obj_signals (q x)) ZX_SOCKET_WRITE_DISABLED \<and>
         sock_WriteData alloc x src k q = (Inl ZX_ERR_BAD_STATE, q)"
proof -
  let ?y = "peer_of x"
  have peer: "sock_peer (p ?y)" using sock_invE [OF sock_reachable_inv [OF assms(1)], of x] assms(2) by simp
  have l: "len = len mod 2 ^ 32" "\<not> mbuf_is_empty (sock_data (p ?y))"
    using assms(5) by (auto simp: sock_ReadData_def Let_def split: if_splits)
  obtain st o2 d where r: "mbuf_Read dst len (has_sig (sock_flags (p ?y)) ZX_SOCKET_DATAGRAM) (sock_data (p ?y)) = (st, o2, d)"
    by (metis prod_cases3)
  note st = sock_ReadData_state [of len p ?y, OF l r]
  show ?thesis
    using assms(3-6) st peer assms(2)
    by (auto simp: sig_bits sock_WriteData_def split del: if_split)
qed


definition sock_example_full :: socket_pair where
  "sock_example_full = snd (sock_Shutdown Side0 ZX_SOCKET_SHUTDOWN_WRITE
     (snd (sock_Write (\<lambda>_. True) Side0 kData any_ptr 257024 sock_example)))"

lemma sock_example_full_reachable: "sock_reachable sock_example_full"
  unfolding sock_example_full_def
  by (rule sock_reachable.sock_next [OF sock_reachable.sock_next [OF sock_reachable.sock_create [OF sock_example_created]]])
     (rule sock_step.sock_write, rule sock_step.sock_shutdown)

lemma sock_example_fields:
  "sock_data (sock_example x) = empty_chain" "sock_peer (sock_example x)" "sock_flags (sock_example x) = 0"
  "\<not> has_sig (obj_signals (sock_example x)) ZX_SOCKET_WRITE_DISABLED"
  by (cases x; simp add: sock_example_def new_socket_def sig_bits)+

lemma sock_example_full_state:
  "mc_size (sock_data (sock_example_full Side1)) = mbuf_kSizeMax"
  "sock_peer (sock_example_full Side0)" "sock_flags (sock_example_full Side1) = 0"
  "has_sig (obj_signals (sock_example_full Side0)) ZX_SOCKET_WRITE_DISABLED"
proof -
  let ?w = "sock_WriteData (\<lambda>_. True) Side0 any_ptr 257024 sock_example"
  have sz: "write_room 257024 0 empty_chain = 257024" "mc_size empty_chain = 0" "mbuf_kSizeMax = 257024"
    by (simp_all add: write_room_def empty_chain_def const_defs)
  obtain r d where ws: "WriteStream (\<lambda>_. True) any_ptr 257024 empty_chain = (r, d)" by fastforce
  have rd: "r = Inr 257024" "mc_size d = 257024"
    using WriteStream_spec [OF empty_chain_wf ws] chain_write_size [OF empty_chain_wf, of False "\<lambda>_. True" any_ptr 257024 r d]
    by (simp_all add: sz ws)
  have eq: "?w = sock_WriteSelfLocked (\<lambda>_. True) Side1 any_ptr 257024 sock_example"
    by (simp add: sock_WriteData_def sock_example_fields)
  have st: "\<not> mbuf_is_full (sock_data (sock_example Side1))"
    by (simp add: sock_example_fields mbuf_is_full_def sz)
  have data: "sock_data (snd ?w Side1) = d" "sock_peer (snd ?w Side0)" "sock_flags (snd ?w Side1) = 0"
    "\<not> bit (obj_signals (snd ?w Side0)) 5" "\<not> bit (obj_signals (snd ?w Side0)) 4"
    using sock_WriteSelf_state [of sock_example Side1, OF st, of "\<lambda>_. True" any_ptr 257024 r d] ws
    unfolding eq by (simp_all add: sock_example_fields rd) (simp_all add: sock_example_def new_socket_def sig_bits)
  have wr: "snd (sock_Write (\<lambda>_. True) Side0 kData any_ptr 257024 sock_example) = snd ?w"
    by (simp add: sock_Write_def)
  have hs: "has_sig ZX_SOCKET_SHUTDOWN_WRITE ZX_SOCKET_SHUTDOWN_WRITE" "\<not> has_sig ZX_SOCKET_SHUTDOWN_WRITE ZX_SOCKET_SHUTDOWN_READ"
    by (simp_all add: has_sig_def const_defs)
  have ne: "ZX_SOCKET_WRITE_DISABLED \<noteq> obj_signals (snd ?w Side0) AND (ZX_SOCKET_PEER_WRITE_DISABLED OR ZX_SOCKET_WRITE_DISABLED)"
    using data(4) write_disabled_bit by blast
  show "mc_size (sock_data (sock_example_full Side1)) = mbuf_kSizeMax"
    by (simp add: sock_example_full_def wr sock_Shutdown_frame data rd sz)
  show "sock_peer (sock_example_full Side0)" "sock_flags (sock_example_full Side1) = 0"
    "has_sig (obj_signals (sock_example_full Side0)) ZX_SOCKET_WRITE_DISABLED"
    using hs ne data(2,3)
    by (simp_all add: sock_example_full_def wr sock_Shutdown_def sock_ShutdownOtherLocked_def Let_def sig_bits)
qed

theorem socket_writable_though_disabled_witness:
  "sock_reachable sock_example_full \<and> has_sig (obj_signals (sock_example_full Side0)) ZX_SOCKET_WRITE_DISABLED \<and>
   has_sig (obj_signals (snd (sock_ReadData Side1 kConsume any_ptr 1 sock_example_full) Side0)) ZX_SOCKET_WRITABLE"
proof -
  note f = sock_example_full_state
  obtain n out d where r: "mbuf_Read any_ptr 1 False (sock_data (sock_example_full Side1)) = (n, out, d)"
    by (metis prod_cases3)
  have wf: "chain_wf (sock_data (sock_example_full Side1))"
    using sock_inv_chain [OF sock_reachable_inv [OF sock_example_full_reachable]] .
  have "length (chain_bytes (sock_data (sock_example_full Side1))) = 257024"
    using length_chain_bytes [OF wf] f(1) by (simp add: const_defs)
  moreover have "n = length out" "out = take 1 (chain_bytes (sock_data (sock_example_full Side1)))"
    using mbuf_Read_stream [OF wf r] any_ptr_ok by blast+
  ultimately have n: "n = 1" by (simp del: One_nat_def)
  have ne: "\<not> mbuf_is_empty (sock_data (sock_example_full Side1))"
    using f(1) by (simp add: mbuf_is_empty_def const_defs)
  have rd: "sock_ReadData (peer_of Side0) kConsume any_ptr 1 sock_example_full =
      (Inr (1, out), snd (sock_ReadData Side1 kConsume any_ptr 1 sock_example_full))"
    using sock_ReadData_state [of 1 sock_example_full Side1 any_ptr n out d] ne r n f(3) by simp
  show ?thesis
    using socket_writable_though_disabled [OF sock_example_full_reachable f(2,4) _ rd] f sock_example_full_reachable by simp
qed

end
