(* ===== verification/Kernel_Time.thy ===== *)
theory Kernel_Time
  imports Kernel_Prelude
begin

text \<open>
  Kernel time: the clamped arithmetic of \<^verbatim>\<open>system/public/zircon/time.h\<close> on signed 64-bit times
  and durations, and the deadlines with slack of \<^verbatim>\<open>kernel/kernel/deadline.cpp\<close>.  A time is a
  \<^typ>\<open>64 word\<close> read with \<^const>\<open>sint\<close>; the lemmas show that each operation saturates at the two
  infinities instead of wrapping around.
\<close>

section \<open>Clamped time arithmetic\<close>

type_synonym zx_time_t = "64 word"
type_synonym zx_duration_t = "64 word"

definition ZX_TIME_INFINITE :: zx_time_t where
  "ZX_TIME_INFINITE = 0x7fffffffffffffff"

definition ZX_TIME_INFINITE_PAST :: zx_time_t where
  "ZX_TIME_INFINITE_PAST = 0x8000000000000000"

text \<open>
  The compiler's checked operations: whether the mathematical result fits in an
  \<^verbatim>\<open>int64_t\<close>, and the result wrapped around.
\<close>

definition add_overflow :: "64 word \<Rightarrow> 64 word \<Rightarrow> bool \<times> 64 word" where
  "add_overflow a b = (sint (a + b) \<noteq> sint a + sint b, a + b)"

definition sub_overflow :: "64 word \<Rightarrow> 64 word \<Rightarrow> bool \<times> 64 word" where
  "sub_overflow a b = (sint (a - b) \<noteq> sint a - sint b, a - b)"

definition mul_overflow :: "64 word \<Rightarrow> 64 word \<Rightarrow> bool \<times> 64 word" where
  "mul_overflow a b = (sint (a * b) \<noteq> sint a * sint b, a * b)"

definition zx_time_add_duration :: "zx_time_t \<Rightarrow> zx_duration_t \<Rightarrow> zx_time_t" where
  "zx_time_add_duration time duration =
     (case add_overflow time duration of (overflow, x) \<Rightarrow>
        if overflow then (if sint x \<ge> 0 then ZX_TIME_INFINITE_PAST else ZX_TIME_INFINITE) else x)"

definition zx_time_sub_duration :: "zx_time_t \<Rightarrow> zx_duration_t \<Rightarrow> zx_time_t" where
  "zx_time_sub_duration time duration =
     (case sub_overflow time duration of (overflow, x) \<Rightarrow>
        if overflow then (if sint x \<ge> 0 then ZX_TIME_INFINITE_PAST else ZX_TIME_INFINITE) else x)"

definition zx_time_sub_time :: "zx_time_t \<Rightarrow> zx_time_t \<Rightarrow> zx_duration_t" where
  "zx_time_sub_time time1 time2 =
     (case sub_overflow time1 time2 of (overflow, x) \<Rightarrow>
        if overflow then (if sint x \<ge> 0 then ZX_TIME_INFINITE_PAST else ZX_TIME_INFINITE) else x)"

definition zx_duration_add_duration :: "zx_duration_t \<Rightarrow> zx_duration_t \<Rightarrow> zx_duration_t" where
  "zx_duration_add_duration dur1 dur2 =
     (case add_overflow dur1 dur2 of (overflow, x) \<Rightarrow>
        if overflow then (if sint x \<ge> 0 then ZX_TIME_INFINITE_PAST else ZX_TIME_INFINITE) else x)"

definition zx_duration_sub_duration :: "zx_duration_t \<Rightarrow> zx_duration_t \<Rightarrow> zx_duration_t" where
  "zx_duration_sub_duration dur1 dur2 =
     (case sub_overflow dur1 dur2 of (overflow, x) \<Rightarrow>
        if overflow then (if sint x \<ge> 0 then ZX_TIME_INFINITE_PAST else ZX_TIME_INFINITE) else x)"

definition zx_duration_mul_int64 :: "zx_duration_t \<Rightarrow> 64 word \<Rightarrow> zx_duration_t" where
  "zx_duration_mul_int64 duration multiplier =
     (case mul_overflow duration multiplier of (overflow, x) \<Rightarrow>
        if overflow
        then (if sint duration > 0 \<and> sint multiplier > 0 \<or> sint duration < 0 \<and> sint multiplier < 0
              then ZX_TIME_INFINITE else ZX_TIME_INFINITE_PAST)
        else x)"

section \<open>Deadlines with slack\<close>

datatype slack_mode = TIMER_SLACK_CENTER | TIMER_SLACK_LATE | TIMER_SLACK_EARLY

record TimerSlack =
  slack_amount :: zx_duration_t
  slack_mode :: slack_mode

definition TimerSlack_none :: TimerSlack where
  "TimerSlack_none = \<lparr> slack_amount = 0, slack_mode = TIMER_SLACK_CENTER \<rparr>"

record Deadline =
  dl_when :: zx_time_t
  dl_slack :: TimerSlack

definition Deadline_no_slack :: "zx_time_t \<Rightarrow> Deadline" where
  "Deadline_no_slack t = \<lparr> dl_when = t, dl_slack = TimerSlack_none \<rparr>"

definition Deadline_infinite :: Deadline where
  "Deadline_infinite = \<lparr> dl_when = ZX_TIME_INFINITE, dl_slack = TimerSlack_none \<rparr>"

definition earliest :: "Deadline \<Rightarrow> zx_time_t" where
  "earliest d =
     (case slack_mode (dl_slack d) of
        TIMER_SLACK_CENTER \<Rightarrow> zx_time_sub_duration (dl_when d) (slack_amount (dl_slack d))
      | TIMER_SLACK_LATE \<Rightarrow> dl_when d
      | TIMER_SLACK_EARLY \<Rightarrow> zx_time_sub_duration (dl_when d) (slack_amount (dl_slack d)))"

definition latest :: "Deadline \<Rightarrow> zx_time_t" where
  "latest d =
     (case slack_mode (dl_slack d) of
        TIMER_SLACK_CENTER \<Rightarrow> zx_time_add_duration (dl_when d) (slack_amount (dl_slack d))
      | TIMER_SLACK_LATE \<Rightarrow> zx_time_add_duration (dl_when d) (slack_amount (dl_slack d))
      | TIMER_SLACK_EARLY \<Rightarrow> dl_when d)"

section \<open>Saturation\<close>

definition clamp64 :: "int \<Rightarrow> int" where
  "clamp64 x = max (- (2 ^ 63)) (min (2 ^ 63 - 1) x)"

lemma sint64_bounds: "- (2 ^ 63) \<le> sint (x :: 64 word)" "sint (x :: 64 word) < 2 ^ 63"
  using sint_greater_eq [of x] sint_less [of x] by simp_all

lemma sint64_fits: "- (2 ^ 63) \<le> z \<Longrightarrow> z < 2 ^ 63 \<Longrightarrow> signed_take_bit 63 z = (z :: int)"
  by (simp add: signed_take_bit_int_eq_self)

lemma signed_take_bit_add_modulus: "signed_take_bit 63 (z + 2 ^ 64) = signed_take_bit 63 (z :: int)"
proof -
  have "take_bit 64 (z + 2 ^ 64) = take_bit 64 z"
    by (simp add: take_bit_eq_mod)
  then show ?thesis
    by (metis eval_nat_numeral(3) numeral_eq_Suc pred_numeral_simps(2) semiring_norm(26,27) signed_take_bit_eq_iff_take_bit_eq)
qed

lemma sint_wrap_high:
  assumes "2 ^ 63 \<le> z" "z < 2 ^ 64 + 2 ^ 63"
  shows "signed_take_bit 63 (z :: int) = z - 2 ^ 64"
  using signed_take_bit_add_modulus [of "z - 2 ^ 64"] sint64_fits [of "z - 2 ^ 64"] assms by simp

lemma sint_wrap_low:
  assumes "z < - (2 ^ 63)" "- (2 ^ 64) - 2 ^ 63 \<le> z"
  shows "signed_take_bit 63 (z :: int) = z + 2 ^ 64"
  using signed_take_bit_add_modulus [of z] sint64_fits [of "z + 2 ^ 64"] assms by simp

lemma sint_infinities [simp]:
  "sint ZX_TIME_INFINITE = 2 ^ 63 - 1" "sint ZX_TIME_INFINITE_PAST = - (2 ^ 63)"
  by (simp_all add: ZX_TIME_INFINITE_def ZX_TIME_INFINITE_PAST_def)

text \<open>
  The shared shape of the five additive operations: a wrapped sum or difference \<open>x\<close> whose exact
  value is \<open>z\<close>, and the sign test of the wrapped value that tells the two overflows apart.
\<close>

lemma saturate_by_sign:
  assumes "sint x = signed_take_bit 63 z" "- (2 ^ 64) \<le> z" "z < 2 ^ 64"
  shows "sint (if sint x \<noteq> z
               then (if sint x \<ge> 0 then ZX_TIME_INFINITE_PAST else ZX_TIME_INFINITE) else x)
         = clamp64 z"
proof (cases "z < - (2 ^ 63)")
  case True
  then have "sint x = z + 2 ^ 64" using assms by (simp add: sint_wrap_low)
  with True assms(2) show ?thesis by (simp add: clamp64_def)
next
  case low: False
  show ?thesis
  proof (cases "z < 2 ^ 63")
    case True
    then have "sint x = z" using assms low by (simp add: sint64_fits)
    with True low show ?thesis by (simp add: clamp64_def)
  next
    case False
    then have "sint x = z - 2 ^ 64" using assms by (simp add: sint_wrap_high)
    with False assms(3) show ?thesis by (simp add: clamp64_def)
  qed
qed

lemma sint_add_wrap: "sint (a + b :: 64 word) = signed_take_bit 63 (sint a + sint b)"
  by (simp add: sint_word_ariths)

lemma sint_sub_wrap: "sint (a - b :: 64 word) = signed_take_bit 63 (sint a - sint b)"
  by (simp add: sint_word_ariths)

lemma sint_mul_wrap: "sint (a * b :: 64 word) = signed_take_bit 63 (sint a * sint b)"
  by (simp add: sint_word_ariths)

lemma time_add_saturates: "sint (zx_time_add_duration a b) = clamp64 (sint a + sint b)"
  unfolding zx_time_add_duration_def add_overflow_def prod.case
  using sint64_bounds [of a] sint64_bounds [of b]
  by (intro saturate_by_sign sint_add_wrap) simp_all

lemma time_sub_saturates: "sint (zx_time_sub_duration a b) = clamp64 (sint a - sint b)"
  unfolding zx_time_sub_duration_def sub_overflow_def prod.case
  using sint64_bounds [of a] sint64_bounds [of b]
  by (intro saturate_by_sign sint_sub_wrap) simp_all

lemma time_diff_saturates: "sint (zx_time_sub_time a b) = clamp64 (sint a - sint b)"
  using time_sub_saturates [of a b] by (simp add: zx_time_sub_time_def zx_time_sub_duration_def)

lemma mul_saturates: "sint (zx_duration_mul_int64 a b) = clamp64 (sint a * sint b)"
proof (cases "sint (a * b) = sint a * sint b")
  case True
  then show ?thesis
    using sint64_bounds [of "a * b"]
    by (simp add: zx_duration_mul_int64_def mul_overflow_def clamp64_def)
next
  case False
  then have out: "sint a * sint b < - (2 ^ 63) \<or> 2 ^ 63 \<le> sint a * sint b"
    using sint_mul_wrap [of a b] sint64_fits [of "sint a * sint b"] by linarith
  have pos: "0 < sint a * sint b \<longleftrightarrow> sint a > 0 \<and> sint b > 0 \<or> sint a < 0 \<and> sint b < 0"
    by (rule zero_less_mult_iff)
  show ?thesis
    using False out pos
    by (auto simp: zx_duration_mul_int64_def mul_overflow_def clamp64_def)
qed

text \<open>
  C31: The clamped time operations saturate.  For all 64-bit operands the result of adding,
  subtracting or multiplying is the exact integer result limited to the range from
  \<^verbatim>\<open>ZX_TIME_INFINITE_PAST\<close> to \<^verbatim>\<open>ZX_TIME_INFINITE\<close>: nothing wraps around, in either direction.
\<close>

theorem time_arithmetic_saturates:
  "sint (zx_time_add_duration t d) = clamp64 (sint t + sint d)
   \<and> sint (zx_time_sub_duration t d) = clamp64 (sint t - sint d)
   \<and> sint (zx_time_sub_time t d) = clamp64 (sint t - sint d)
   \<and> sint (zx_duration_add_duration t d) = clamp64 (sint t + sint d)
   \<and> sint (zx_duration_sub_duration t d) = clamp64 (sint t - sint d)
   \<and> sint (zx_duration_mul_int64 t d) = clamp64 (sint t * sint d)"
  using time_add_saturates [of t d] time_sub_saturates [of t d]
  by (simp add: time_add_saturates time_sub_saturates time_diff_saturates mul_saturates
        zx_time_add_duration_def zx_time_sub_duration_def
        zx_duration_add_duration_def zx_duration_sub_duration_def)

text \<open>A deadline lies inside its own window, whatever the slack.\<close>

lemma deadline_window:
  assumes "0 \<le> sint (slack_amount (dl_slack d))"
  shows "sint (earliest d) \<le> sint (dl_when d)" "sint (dl_when d) \<le> sint (latest d)"
  using assms sint64_bounds [of "dl_when d"] sint64_bounds [of "slack_amount (dl_slack d)"]
  by (auto simp: earliest_def latest_def time_add_saturates time_sub_saturates clamp64_def
      split: slack_mode.split)

end
