(* ===== verification/JobPolicy.thy ===== *)
theory JobPolicy
  imports Kernel_Time
begin

text \<open>
  Job policies: \<^verbatim>\<open>kernel/object/job_policy.cpp\<close>.  A policy is a \<^verbatim>\<open>uint64_t\<close> cookie read
  as a row of four-bit entries, one per condition, plus the timer slack of
  \<^verbatim>\<open>kernel/kernel/deadline.cpp\<close>.  The abstract view of the cookie is a map from conditions
  to explicit actions; the lemmas show that the bit-level operations implement the map-level
  ones and that an explicit action is never changed afterwards.
\<close>

section \<open>Constants and the encoding\<close>

abbreviation (input) "ZX_JOB_POL_RELATIVE \<equiv> (0 :: 32 word)"
abbreviation (input) "ZX_JOB_POL_ABSOLUTE \<equiv> (1 :: 32 word)"

abbreviation (input) "ZX_POL_BAD_HANDLE \<equiv> (0 :: 32 word)"
abbreviation (input) "ZX_POL_WRONG_OBJECT \<equiv> (1 :: 32 word)"
abbreviation (input) "ZX_POL_VMAR_WX \<equiv> (2 :: 32 word)"
abbreviation (input) "ZX_POL_NEW_ANY \<equiv> (3 :: 32 word)"
abbreviation (input) "ZX_POL_NEW_VMO \<equiv> (4 :: 32 word)"
abbreviation (input) "ZX_POL_NEW_CHANNEL \<equiv> (5 :: 32 word)"
abbreviation (input) "ZX_POL_NEW_EVENT \<equiv> (6 :: 32 word)"
abbreviation (input) "ZX_POL_NEW_EVENTPAIR \<equiv> (7 :: 32 word)"
abbreviation (input) "ZX_POL_NEW_PORT \<equiv> (8 :: 32 word)"
abbreviation (input) "ZX_POL_NEW_SOCKET \<equiv> (9 :: 32 word)"
abbreviation (input) "ZX_POL_NEW_FIFO \<equiv> (10 :: 32 word)"
abbreviation (input) "ZX_POL_NEW_TIMER \<equiv> (11 :: 32 word)"
abbreviation (input) "ZX_POL_NEW_PROCESS \<equiv> (12 :: 32 word)"
abbreviation (input) "ZX_POL_MAX \<equiv> (13 :: nat)"

abbreviation (input) "ZX_POL_ACTION_ALLOW \<equiv> (0 :: 32 word)"
abbreviation (input) "ZX_POL_ACTION_DENY \<equiv> (1 :: 32 word)"
abbreviation (input) "ZX_POL_ACTION_EXCEPTION \<equiv> (2 :: 32 word)"
abbreviation (input) "ZX_POL_ACTION_KILL \<equiv> (5 :: 32 word)"

type_synonym pol_cookie_t = "64 word"

text \<open>The bitfields of \<^verbatim>\<open>union Encoding\<close>, in declaration order, four bits each.\<close>

datatype enc_field =
    bad_handle | wrong_obj | vmar_wx | new_vmo | new_channel | new_event | new_eventpair
  | new_port | new_socket | new_fifo | new_timer | new_process

fun field_lsb :: "enc_field \<Rightarrow> nat" where
  "field_lsb bad_handle = 0"
| "field_lsb wrong_obj = 4"
| "field_lsb vmar_wx = 8"
| "field_lsb new_vmo = 12"
| "field_lsb new_channel = 16"
| "field_lsb new_event = 20"
| "field_lsb new_eventpair = 24"
| "field_lsb new_port = 28"
| "field_lsb new_socket = 32"
| "field_lsb new_fifo = 36"
| "field_lsb new_timer = 40"
| "field_lsb new_process = 44"

definition enc_get :: "pol_cookie_t \<Rightarrow> enc_field \<Rightarrow> 64 word" where
  "enc_get encoded f = take_bit 4 (drop_bit (field_lsb f) encoded)"

text \<open>The encoding with one field set to the low four bits of \<open>v\<close> and every other field zero.\<close>

definition enc_only :: "enc_field \<Rightarrow> 64 word \<Rightarrow> pol_cookie_t" where
  "enc_only f v = push_bit (field_lsb f) (take_bit 4 v)"

definition enc_action :: "64 word \<Rightarrow> 32 word" where
  "enc_action item = ucast (item AND 7)"

definition enc_is_default :: "64 word \<Rightarrow> bool" where
  "enc_is_default item \<longleftrightarrow> item = 0"

definition kDefaultAction :: "32 word" where
  "kDefaultAction = ZX_POL_ACTION_ALLOW"

definition kPolicyActionValidBits :: "32 word" where
  "kPolicyActionValidBits =
     ZX_POL_ACTION_ALLOW OR ZX_POL_ACTION_DENY OR ZX_POL_ACTION_EXCEPTION OR ZX_POL_ACTION_KILL"

definition kNewObjectPolicies :: "32 word list" where
  "kNewObjectPolicies =
     [ZX_POL_NEW_VMO, ZX_POL_NEW_CHANNEL, ZX_POL_NEW_EVENT, ZX_POL_NEW_EVENTPAIR,
      ZX_POL_NEW_PORT, ZX_POL_NEW_SOCKET, ZX_POL_NEW_FIFO, ZX_POL_NEW_TIMER,
      ZX_POL_NEW_PROCESS]"

section \<open>Adding to a policy\<close>

definition CanSetEntry :: "64 word \<Rightarrow> 32 word \<Rightarrow> bool" where
  "CanSetEntry existing new_action \<longleftrightarrow>
     (if enc_is_default existing then True else new_action = enc_action existing)"

definition GetEffectiveAction :: "64 word \<Rightarrow> 32 word" where
  "GetEffectiveAction policy =
     (if enc_is_default policy then kDefaultAction else enc_action policy)"

text \<open>
  \<^verbatim>\<open>POLMAN_SET_ENTRY\<close> on one field of an all-zero result: the result with the entry set, the
  result left at zero, or the early return.
\<close>

definition POLMAN_SET_ENTRY ::
  "32 word \<Rightarrow> pol_cookie_t \<Rightarrow> enc_field \<Rightarrow> 32 word \<Rightarrow> zx_status_t + pol_cookie_t" where
  "POLMAN_SET_ENTRY mode existing f in_pol =
     (if CanSetEntry (enc_get existing f) in_pol
      then Inr (enc_only f (ucast (in_pol AND 7) OR 8))
      else if mode = ZX_JOB_POL_ABSOLUTE then Inl ZX_ERR_ALREADY_EXISTS
      else Inr 0)"

definition AddPartial ::
  "32 word \<Rightarrow> pol_cookie_t \<Rightarrow> 32 word \<Rightarrow> 32 word \<Rightarrow> zx_status_t + pol_cookie_t" where
  "AddPartial mode existing condition policy =
     (if policy AND NOT kPolicyActionValidBits \<noteq> 0 then Inl ZX_ERR_NOT_SUPPORTED
      else if condition = ZX_POL_BAD_HANDLE then POLMAN_SET_ENTRY mode existing bad_handle policy
      else if condition = ZX_POL_WRONG_OBJECT then POLMAN_SET_ENTRY mode existing wrong_obj policy
      else if condition = ZX_POL_VMAR_WX then POLMAN_SET_ENTRY mode existing vmar_wx policy
      else if condition = ZX_POL_NEW_VMO then POLMAN_SET_ENTRY mode existing new_vmo policy
      else if condition = ZX_POL_NEW_CHANNEL then POLMAN_SET_ENTRY mode existing new_channel policy
      else if condition = ZX_POL_NEW_EVENT then POLMAN_SET_ENTRY mode existing new_event policy
      else if condition = ZX_POL_NEW_EVENTPAIR
        then POLMAN_SET_ENTRY mode existing new_eventpair policy
      else if condition = ZX_POL_NEW_PORT then POLMAN_SET_ENTRY mode existing new_port policy
      else if condition = ZX_POL_NEW_SOCKET then POLMAN_SET_ENTRY mode existing new_socket policy
      else if condition = ZX_POL_NEW_FIFO then POLMAN_SET_ENTRY mode existing new_fifo policy
      else if condition = ZX_POL_NEW_TIMER then POLMAN_SET_ENTRY mode existing new_timer policy
      else if condition = ZX_POL_NEW_PROCESS then POLMAN_SET_ENTRY mode existing new_process policy
      else Inl ZX_ERR_NOT_SUPPORTED)"

record zx_policy_basic =
  pol_condition :: "32 word"
  pol_policy :: "32 word"

text \<open>The inner loop over \<^verbatim>\<open>kNewObjectPolicies\<close>, and the loop over the input entries.\<close>

fun add_new_any ::
  "32 word \<Rightarrow> pol_cookie_t \<Rightarrow> 32 word \<Rightarrow> 32 word list \<Rightarrow> pol_cookie_t list
   \<Rightarrow> zx_status_t + pol_cookie_t list" where
  "add_new_any mode cookie policy [] partials = Inr partials"
| "add_new_any mode cookie policy (pol # pols) partials =
     (case AddPartial mode cookie pol policy of
        Inl res \<Rightarrow> Inl res
      | Inr v \<Rightarrow> add_new_any mode cookie policy pols (partials[unat pol := v]))"

fun add_entries ::
  "32 word \<Rightarrow> pol_cookie_t \<Rightarrow> zx_policy_basic list \<Rightarrow> pol_cookie_t list
   \<Rightarrow> zx_status_t + pol_cookie_t list" where
  "add_entries mode cookie [] partials = Inr partials"
| "add_entries mode cookie (inp # inps) partials =
     (if unat (pol_condition inp) \<ge> ZX_POL_MAX then Inl ZX_ERR_INVALID_ARGS
      else if pol_condition inp = ZX_POL_NEW_ANY
      then (case add_new_any mode cookie (pol_policy inp) kNewObjectPolicies partials of
              Inl res \<Rightarrow> Inl res
            | Inr ps \<Rightarrow> add_entries mode cookie inps ps)
      else (case AddPartial mode cookie (pol_condition inp) (pol_policy inp) of
              Inl res \<Rightarrow> Inl res
            | Inr v \<Rightarrow> add_entries mode cookie inps (partials[unat (pol_condition inp) := v])))"

record JobPolicy =
  jp_cookie :: pol_cookie_t
  jp_slack :: TimerSlack

definition JobPolicy_default :: JobPolicy where
  "JobPolicy_default = \<lparr> jp_cookie = 0, jp_slack = TimerSlack_none \<rparr>"

definition AddBasicPolicy ::
  "32 word \<Rightarrow> zx_policy_basic list \<Rightarrow> JobPolicy \<Rightarrow> zx_status_t \<times> JobPolicy" where
  "AddBasicPolicy mode policy_input p =
     (if length policy_input > ZX_POL_MAX then (ZX_ERR_OUT_OF_RANGE, p)
      else case add_entries mode (jp_cookie p) policy_input (replicate ZX_POL_MAX 0) of
             Inl res \<Rightarrow> (res, p)
           | Inr partials \<Rightarrow>
               (ZX_OK, p\<lparr> jp_cookie := foldl (OR) (jp_cookie p) partials \<rparr>))"

definition QueryBasicPolicy :: "JobPolicy \<Rightarrow> 32 word \<Rightarrow> 32 word" where
  "QueryBasicPolicy p condition =
     (let existing = jp_cookie p in
      if existing = 0 then kDefaultAction
      else if condition = ZX_POL_BAD_HANDLE then GetEffectiveAction (enc_get existing bad_handle)
      else if condition = ZX_POL_WRONG_OBJECT then GetEffectiveAction (enc_get existing wrong_obj)
      else if condition = ZX_POL_NEW_VMO then GetEffectiveAction (enc_get existing new_vmo)
      else if condition = ZX_POL_NEW_CHANNEL then GetEffectiveAction (enc_get existing new_channel)
      else if condition = ZX_POL_NEW_EVENT then GetEffectiveAction (enc_get existing new_event)
      else if condition = ZX_POL_NEW_EVENTPAIR
        then GetEffectiveAction (enc_get existing new_eventpair)
      else if condition = ZX_POL_NEW_PORT then GetEffectiveAction (enc_get existing new_port)
      else if condition = ZX_POL_NEW_SOCKET then GetEffectiveAction (enc_get existing new_socket)
      else if condition = ZX_POL_NEW_FIFO then GetEffectiveAction (enc_get existing new_fifo)
      else if condition = ZX_POL_NEW_TIMER then GetEffectiveAction (enc_get existing new_timer)
      else if condition = ZX_POL_NEW_PROCESS then GetEffectiveAction (enc_get existing new_process)
      else if condition = ZX_POL_VMAR_WX then GetEffectiveAction (enc_get existing vmar_wx)
      else ZX_POL_ACTION_DENY)"

definition SetTimerSlack :: "TimerSlack \<Rightarrow> JobPolicy \<Rightarrow> JobPolicy" where
  "SetTimerSlack slack p = p\<lparr> jp_slack := slack \<rparr>"

definition GetTimerSlack :: "JobPolicy \<Rightarrow> TimerSlack" where
  "GetTimerSlack p = jp_slack p"

definition JobPolicy_eq :: "JobPolicy \<Rightarrow> JobPolicy \<Rightarrow> bool" where
  "JobPolicy_eq lhs rhs \<longleftrightarrow> jp_cookie lhs = jp_cookie rhs \<and> jp_slack lhs = jp_slack rhs"

section \<open>The abstract policy\<close>

text \<open>The field a condition is stored in: both \<^verbatim>\<open>switch\<close> statements agree on it.\<close>

definition cond_field :: "32 word \<Rightarrow> enc_field option" where
  "cond_field condition =
     (if condition = ZX_POL_BAD_HANDLE then Some bad_handle
      else if condition = ZX_POL_WRONG_OBJECT then Some wrong_obj
      else if condition = ZX_POL_VMAR_WX then Some vmar_wx
      else if condition = ZX_POL_NEW_VMO then Some new_vmo
      else if condition = ZX_POL_NEW_CHANNEL then Some new_channel
      else if condition = ZX_POL_NEW_EVENT then Some new_event
      else if condition = ZX_POL_NEW_EVENTPAIR then Some new_eventpair
      else if condition = ZX_POL_NEW_PORT then Some new_port
      else if condition = ZX_POL_NEW_SOCKET then Some new_socket
      else if condition = ZX_POL_NEW_FIFO then Some new_fifo
      else if condition = ZX_POL_NEW_TIMER then Some new_timer
      else if condition = ZX_POL_NEW_PROCESS then Some new_process
      else None)"

type_synonym policy_map = "enc_field \<Rightarrow> 32 word option"

definition policy_view :: "pol_cookie_t \<Rightarrow> policy_map" where
  "policy_view cookie f =
     (if enc_get cookie f = 0 then None else Some (enc_action (enc_get cookie f)))"

text \<open>Well-formed cookies: an entry is all zero or has the explicit bit; nothing above bit 47.\<close>

definition cookie_ok :: "pol_cookie_t \<Rightarrow> bool" where
  "cookie_ok cookie \<longleftrightarrow>
     (\<forall>f. enc_get cookie f \<noteq> 0 \<longrightarrow> bit (enc_get cookie f) 3) \<and> take_bit 48 cookie = cookie"

text \<open>The fields one input entry is about, the first error of a list of entries, the last action
  requested for a field, and the merge: what is explicit stays, what is default takes the last
  request.\<close>

definition entry_fields :: "zx_policy_basic \<Rightarrow> enc_field list" where
  "entry_fields e =
     (if pol_condition e = ZX_POL_NEW_ANY
      then [new_vmo, new_channel, new_event, new_eventpair, new_port, new_socket, new_fifo,
            new_timer, new_process]
      else case cond_field (pol_condition e) of None \<Rightarrow> [] | Some f \<Rightarrow> [f])"

definition conflicts :: "policy_map \<Rightarrow> zx_policy_basic \<Rightarrow> bool" where
  "conflicts A e \<longleftrightarrow> (\<exists>f \<in> set (entry_fields e). A f \<noteq> None \<and> A f \<noteq> Some (pol_policy e))"

fun policy_check :: "32 word \<Rightarrow> policy_map \<Rightarrow> zx_policy_basic list \<Rightarrow> zx_status_t option" where
  "policy_check mode A [] = None"
| "policy_check mode A (e # es) =
     (if unat (pol_condition e) \<ge> ZX_POL_MAX then Some ZX_ERR_INVALID_ARGS
      else if pol_policy e > 7 then Some ZX_ERR_NOT_SUPPORTED
      else if mode = ZX_JOB_POL_ABSOLUTE \<and> conflicts A e then Some ZX_ERR_ALREADY_EXISTS
      else policy_check mode A es)"

fun last_request :: "zx_policy_basic list \<Rightarrow> policy_map \<Rightarrow> policy_map" where
  "last_request [] r = r"
| "last_request (e # es) r =
     last_request es (\<lambda>f. if f \<in> set (entry_fields e) then Some (pol_policy e) else r f)"

definition policy_merge :: "zx_policy_basic list \<Rightarrow> policy_map \<Rightarrow> policy_map" where
  "policy_merge es A f =
     (case A f of Some a \<Rightarrow> Some a | None \<Rightarrow> last_request es (\<lambda>_. None) f)"

section \<open>Bitfields\<close>

lemma field_lsb_mod4 [simp]: "field_lsb f mod 4 = 0"
  by (cases f) simp_all

lemma field_lsb_le: "field_lsb f \<le> 44"
  by (cases f) simp_all

lemma field_lsb_inj [simp]: "field_lsb f = field_lsb g \<longleftrightarrow> f = g"
  by (cases f; cases g; simp)

lemma field_lsb_apart:
  assumes "n < 4" "field_lsb f \<le> field_lsb g + n" "field_lsb g + n - field_lsb f < 4"
  shows "f = g"
proof -
  obtain i j where "field_lsb f = 4 * i" "field_lsb g = 4 * j"
    using field_lsb_mod4 mod_0_imp_dvd by (metis dvdE)
  with assms have "field_lsb f = field_lsb g" by simp
  then show ?thesis by simp
qed

lemma bit_enc_get: "bit (enc_get e f) n \<longleftrightarrow> n < 4 \<and> bit e (field_lsb f + n)"
  by (simp add: enc_get_def bit_take_bit_iff bit_drop_bit_eq)

lemma enc_get_or [simp]: "enc_get (a OR b) f = enc_get a f OR enc_get b f"
  by (rule bit_eqI) (auto simp: bit_enc_get bit_or_iff)

lemma enc_get_0 [simp]: "enc_get 0 f = 0"
  by (simp add: enc_get_def)

lemma enc_get_only: "enc_get (enc_only f v) g = (if f = g then take_bit 4 v else 0)"
proof (rule bit_eqI)
  fix n
  have "bit (enc_get (enc_only f v) g) n \<longleftrightarrow>
        n < 4 \<and> field_lsb f \<le> field_lsb g + n \<and> field_lsb g + n - field_lsb f < 4
        \<and> bit v (field_lsb g + n - field_lsb f)"
    using field_lsb_le [of g]
    by (auto simp: bit_enc_get enc_only_def bit_push_bit_iff bit_take_bit_iff)
  then show "bit (enc_get (enc_only f v) g) n \<longleftrightarrow> bit (if f = g then take_bit 4 v else 0) n"
    using field_lsb_apart [of n f g] by (auto simp: bit_take_bit_iff)
qed

lemma enc_only_48: "take_bit 48 (enc_only f v) = enc_only f v"
proof (rule bit_eqI)
  fix n
  show "bit (take_bit 48 (enc_only f v)) n \<longleftrightarrow> bit (enc_only f v) n"
    using field_lsb_le [of f]
    by (auto simp: enc_only_def bit_push_bit_iff bit_take_bit_iff)
qed

text \<open>An explicit entry: three action bits under the explicit bit.\<close>

definition entry_of :: "32 word \<Rightarrow> 64 word" where
  "entry_of a = ucast (a AND 7) OR 8"

lemma word7_cases:
  assumes "(a :: 32 word) \<le> 7"
  shows "a = 0 \<or> a = 1 \<or> a = 2 \<or> a = 3 \<or> a = 4 \<or> a = 5 \<or> a = 6 \<or> a = 7"
proof -
  have "unat a \<le> 7" using assms by (simp add: word_le_nat_alt)
  then have "unat a \<in> {0,1,2,3,4,5,6,7}" by auto
  then have "of_nat (unat a) \<in> (of_nat ` {0,1,2,3,4,5,6,7} :: 32 word set)" by (rule imageI)
  then show ?thesis by simp
qed

lemma entry_of_props:
  assumes "a \<le> 7"
  shows "take_bit 4 (entry_of a) = entry_of a" "enc_action (entry_of a) = a" "entry_of a \<noteq> 0"
    "bit (entry_of a) 3"
  using word7_cases [OF assms]
  by (auto simp: entry_of_def enc_action_def)

lemma take_bit_word_self: "take_bit n (w :: 'a :: len word) = w \<longleftrightarrow> unat w < 2 ^ n"
  by (simp add: word_unat_eq_iff unsigned_take_bit_eq take_bit_nat_eq_self_iff)

lemma valid_bits: "policy AND NOT kPolicyActionValidBits \<noteq> 0 \<longleftrightarrow> policy > 7"
proof -
  have "kPolicyActionValidBits = mask 3"
    by (simp add: kPolicyActionValidBits_def mask_eq_exp_minus_1)
  moreover have "policy AND NOT (mask 3) = 0 \<longleftrightarrow> take_bit 3 policy = policy"
  proof
    assume z: "policy AND NOT (mask 3) = 0"
    have "bit (take_bit 3 policy) n = bit policy n" for n
      using arg_cong [OF z, of "\<lambda>w. bit w n"]
      by (auto simp: bit_take_bit_iff bit_and_iff bit_not_iff bit_mask_iff
          dest: bit_imp_possible_bit)
    then show "take_bit 3 policy = policy" by (simp add: bit_eq_iff)
  next
    assume t: "take_bit 3 policy = policy"
    have "take_bit 3 policy AND NOT (mask 3) = 0"
      by (rule bit_eqI) (auto simp: bit_take_bit_iff bit_and_iff bit_not_iff bit_mask_iff)
    then show "policy AND NOT (mask 3) = 0" by (simp add: t)
  qed
  moreover have "take_bit 3 policy = policy \<longleftrightarrow> policy \<le> 7"
    by (auto simp: take_bit_word_self word_le_nat_alt)
  ultimately show ?thesis by (simp add: not_le)
qed

lemma explicit_nibble:
  assumes "bit (enc_get e f) 3"
  shows "enc_get e f = entry_of (enc_action (enc_get e f))" "enc_action (enc_get e f) \<le> 7"
proof -
  let ?x = "enc_get e f"
  have "take_bit 4 ?x = ?x" by (simp add: enc_get_def)
  then have "unat ?x < 16" by (simp add: take_bit_word_self)
  then have "unat ?x \<in> {0,1,2,3,4,5,6,7,8,9,10,11,12,13,14,15}"
    unfolding insert_iff empty_iff by presburger
  then have "of_nat (unat ?x)
             \<in> (of_nat ` {0,1,2,3,4,5,6,7,8,9,10,11,12,13,14,15} :: 64 word set)"
    by (rule imageI)
  then have c: "?x \<in> {0,1,2,3,4,5,6,7,8,9,10,11,12,13,14,15}" by simp
  with assms have c: "?x \<in> {8,9,10,11,12,13,14,15}" by auto
  then show "enc_get e f = entry_of (enc_action (enc_get e f))"
    by (auto simp: entry_of_def enc_action_def)
  from c show "enc_action (enc_get e f) \<le> 7"
    by (auto simp: enc_action_def)
qed

section \<open>The switches\<close>

lemma POLMAN_view:
  assumes "cookie_ok cookie" "policy \<le> 7"
  shows "POLMAN_SET_ENTRY mode cookie f policy =
     (if policy_view cookie f = None \<or> policy_view cookie f = Some policy
      then Inr (enc_only f (entry_of policy))
      else if mode = ZX_JOB_POL_ABSOLUTE then Inl ZX_ERR_ALREADY_EXISTS else Inr 0)"
  by (auto simp: POLMAN_SET_ENTRY_def CanSetEntry_def enc_is_default_def policy_view_def
      entry_of_def)

lemma AddPartial_alt:
  "AddPartial mode cookie condition policy =
     (if policy > 7 then Inl ZX_ERR_NOT_SUPPORTED
      else case cond_field condition of
             None \<Rightarrow> Inl ZX_ERR_NOT_SUPPORTED
           | Some f \<Rightarrow> POLMAN_SET_ENTRY mode cookie f policy)"
  by (simp add: AddPartial_def valid_bits cond_field_def)

lemma Query_alt:
  "QueryBasicPolicy p condition =
     (case cond_field condition of
        None \<Rightarrow> if jp_cookie p = 0 then kDefaultAction else ZX_POL_ACTION_DENY
      | Some f \<Rightarrow> GetEffectiveAction (enc_get (jp_cookie p) f))"
  by (simp add: QueryBasicPolicy_def cond_field_def Let_def GetEffectiveAction_def
      enc_is_default_def)

section \<open>The loops compute the last request\<close>

text \<open>The index of a field in the array \<^verbatim>\<open>partials\<close> is the number of its condition.\<close>

fun field_index :: "enc_field \<Rightarrow> nat" where
  "field_index bad_handle = 0"
| "field_index wrong_obj = 1"
| "field_index vmar_wx = 2"
| "field_index new_vmo = 4"
| "field_index new_channel = 5"
| "field_index new_event = 6"
| "field_index new_eventpair = 7"
| "field_index new_port = 8"
| "field_index new_socket = 9"
| "field_index new_fifo = 10"
| "field_index new_timer = 11"
| "field_index new_process = 12"

lemma field_index_inj [simp]: "field_index f = field_index g \<longleftrightarrow> f = g"
  by (cases f; cases g; simp)

lemma field_index_less [simp]: "field_index f < 13" "field_index f \<noteq> 3" "3 \<noteq> field_index f"
  by (cases f; simp)+

lemma cond_field_index: "cond_field c = Some f \<Longrightarrow> unat c = field_index f"
  by (auto simp: cond_field_def split: if_splits)

lemma cond_field_total:
  assumes "unat c < 13" "c \<noteq> ZX_POL_NEW_ANY"
  shows "\<exists>f. cond_field c = Some f"
proof -
  have "unat c \<in> {0,1,2,3,4,5,6,7,8,9,10,11,12}"
    using assms(1) unfolding insert_iff empty_iff by presburger
  then have "of_nat (unat c) \<in> (of_nat ` {0,1,2,3,4,5,6,7,8,9,10,11,12} :: 32 word set)"
    by (rule imageI)
  then have "c \<in> {0,1,2,3,4,5,6,7,8,9,10,11,12}" by simp
  with assms(2) show ?thesis by (auto simp: cond_field_def)
qed

text \<open>What one request leaves in the array for a field.\<close>

definition partial_of :: "policy_map \<Rightarrow> enc_field \<Rightarrow> 32 word option \<Rightarrow> pol_cookie_t" where
  "partial_of A f req =
     (case req of
        None \<Rightarrow> 0
      | Some a \<Rightarrow> if A f = None \<or> A f = Some a then enc_only f (entry_of a) else 0)"

definition partials_are :: "policy_map \<Rightarrow> policy_map \<Rightarrow> pol_cookie_t list \<Rightarrow> bool" where
  "partials_are A r ps \<longleftrightarrow>
     length ps = 13 \<and> ps ! 3 = 0 \<and> (\<forall>f. ps ! field_index f = partial_of A f (r f))"

lemma partials_are_update:
  assumes "partials_are A r ps"
  shows "partials_are A (r(f := Some a)) (ps[field_index f := partial_of A f (Some a)])"
  using assms by (auto simp: partials_are_def nth_list_update)

lemma AddPartial_view:
  assumes "cookie_ok cookie" "policy \<le> 7" "cond_field c = Some f"
  shows "AddPartial mode cookie c policy =
     (if mode = ZX_JOB_POL_ABSOLUTE \<and> policy_view cookie f \<noteq> None
         \<and> policy_view cookie f \<noteq> Some policy
      then Inl ZX_ERR_ALREADY_EXISTS
      else Inr (partial_of (policy_view cookie) f (Some policy)))"
  using assms by (auto simp: AddPartial_alt POLMAN_view partial_of_def not_less)

lemma add_new_any_spec:
  assumes "cookie_ok cookie" "policy \<le> 7" "partials_are (policy_view cookie) r ps"
    "list_all2 (\<lambda>c f. cond_field c = Some f) cs fs"
  shows "case add_new_any mode cookie policy cs ps of
           Inl e \<Rightarrow> e = ZX_ERR_ALREADY_EXISTS \<and> mode = ZX_JOB_POL_ABSOLUTE
              \<and> (\<exists>f \<in> set fs. policy_view cookie f \<noteq> None \<and> policy_view cookie f \<noteq> Some policy)
         | Inr ps' \<Rightarrow>
             \<not> (mode = ZX_JOB_POL_ABSOLUTE \<and>
                (\<exists>f \<in> set fs. policy_view cookie f \<noteq> None \<and> policy_view cookie f \<noteq> Some policy))
             \<and> partials_are (policy_view cookie) (\<lambda>f. if f \<in> set fs then Some policy else r f) ps'"
  using assms(4,3)
proof (induction arbitrary: r ps rule: list_all2_induct)
  case Nil
  then show ?case by simp
next
  case (Cons c cs f fs)
  let ?ps' = "ps[unat c := partial_of (policy_view cookie) f (Some policy)]"
  note step = AddPartial_view [OF assms(1,2) Cons.hyps(1), of mode]
  have upd: "partials_are (policy_view cookie) (r(f := Some policy)) ?ps'"
    using partials_are_update [OF Cons.prems] cond_field_index [OF Cons.hyps(1)] by simp
  have ext: "(\<lambda>g. if g \<in> set fs then Some policy else (r(f := Some policy)) g)
             = (\<lambda>g. if g \<in> set (f # fs) then Some policy else r g)" by auto
  show ?case
    using Cons.IH [OF upd] step unfolding ext by (auto split: sum.splits if_splits)
qed

lemma entry_fields_any:
  "list_all2 (\<lambda>c f. cond_field c = Some f) kNewObjectPolicies
     [new_vmo, new_channel, new_event, new_eventpair, new_port, new_socket, new_fifo,
      new_timer, new_process]"
  by (simp add: kNewObjectPolicies_def cond_field_def)

text \<open>One round of the loop, whichever of the two branches it takes.\<close>

definition add_entry ::
  "32 word \<Rightarrow> pol_cookie_t \<Rightarrow> zx_policy_basic \<Rightarrow> pol_cookie_t list \<Rightarrow> zx_status_t + pol_cookie_t list"
  where
  "add_entry mode cookie e ps =
     (if pol_condition e = ZX_POL_NEW_ANY
      then add_new_any mode cookie (pol_policy e) kNewObjectPolicies ps
      else add_new_any mode cookie (pol_policy e) [pol_condition e] ps)"

lemma add_entries_step:
  "add_entries mode cookie (e # es) ps =
     (if unat (pol_condition e) \<ge> 13 then Inl ZX_ERR_INVALID_ARGS
      else case add_entry mode cookie e ps of
             Inl res \<Rightarrow> Inl res | Inr ps' \<Rightarrow> add_entries mode cookie es ps')"
  by (auto simp: add_entry_def split: sum.splits)

lemma add_entry_spec:
  assumes "cookie_ok cookie" "partials_are (policy_view cookie) r ps"
    "unat (pol_condition e) < 13" "pol_policy e \<le> 7"
  shows "case add_entry mode cookie e ps of
           Inl s \<Rightarrow> s = ZX_ERR_ALREADY_EXISTS \<and> mode = ZX_JOB_POL_ABSOLUTE
                \<and> conflicts (policy_view cookie) e
         | Inr ps' \<Rightarrow> \<not> (mode = ZX_JOB_POL_ABSOLUTE \<and> conflicts (policy_view cookie) e)
             \<and> partials_are (policy_view cookie)
                 (\<lambda>f. if f \<in> set (entry_fields e) then Some (pol_policy e) else r f) ps'"
proof (cases "pol_condition e = ZX_POL_NEW_ANY")
  case True
  then have a: "add_entry mode cookie e ps
             = add_new_any mode cookie (pol_policy e) kNewObjectPolicies ps"
    by (simp add: add_entry_def)
  have b: "entry_fields e = [new_vmo, new_channel, new_event, new_eventpair, new_port,
      new_socket, new_fifo, new_timer, new_process]"
    using True by (simp add: entry_fields_def)
  show ?thesis
    unfolding conflicts_def a b by (rule add_new_any_spec [OF assms(1,4,2) entry_fields_any])
next
  case False
  then obtain f where f: "cond_field (pol_condition e) = Some f"
    using cond_field_total assms(3) by blast
  then have l: "list_all2 (\<lambda>c f. cond_field c = Some f) [pol_condition e] [f]" by simp
  have a: "add_entry mode cookie e ps = add_new_any mode cookie (pol_policy e) [pol_condition e] ps"
    using False by (simp add: add_entry_def)
  have b: "entry_fields e = [f]"
    using False f by (simp add: entry_fields_def)
  show ?thesis
    unfolding conflicts_def a b by (rule add_new_any_spec [OF assms(1,4,2) l])
qed

lemma add_entry_bad_policy:
  assumes "unat (pol_condition e) < 13" "pol_policy e > 7"
  shows "add_entry mode cookie e ps = Inl ZX_ERR_NOT_SUPPORTED"
  using assms by (auto simp: add_entry_def kNewObjectPolicies_def AddPartial_alt)

lemma add_entries_spec:
  assumes "cookie_ok cookie" "partials_are (policy_view cookie) r ps"
  shows "case policy_check mode (policy_view cookie) es of
           Some s \<Rightarrow> add_entries mode cookie es ps = Inl s
         | None \<Rightarrow> \<exists>ps'. add_entries mode cookie es ps = Inr ps'
             \<and> partials_are (policy_view cookie) (last_request es r) ps'"
  using assms(2)
proof (induction es arbitrary: r ps)
  case Nil
  then show ?case by simp
next
  case (Cons e es)
  consider (cond) "unat (pol_condition e) \<ge> 13"
    | (pol) "unat (pol_condition e) < 13" "pol_policy e > 7"
    | (ok) "unat (pol_condition e) < 13" "pol_policy e \<le> 7"
    by (meson not_le)
  then show ?case
  proof cases
    case cond
    then show ?thesis by simp
  next
    case pol
    then show ?thesis by (simp add: add_entries_step add_entry_bad_policy del: add_entries.simps)
  next
    case ok
    note e = add_entry_spec [OF assms(1) Cons.prems ok, of mode]
    show ?thesis
    proof (cases "add_entry mode cookie e ps")
      case (Inl s)
      with e ok show ?thesis by (simp add: add_entries_step del: add_entries.simps)
    next
      case (Inr ps')
      with e have p: "\<not> (mode = ZX_JOB_POL_ABSOLUTE \<and> conflicts (policy_view cookie) e)"
        and a: "partials_are (policy_view cookie)
                 (\<lambda>f. if f \<in> set (entry_fields e) then Some (pol_policy e) else r f) ps'"
        by simp_all
      have chk: "policy_check mode (policy_view cookie) (e # es)
                 = policy_check mode (policy_view cookie) es"
        using ok p by (auto simp: leD)
      have run: "add_entries mode cookie (e # es) ps = add_entries mode cookie es ps'"
        using ok Inr by (simp add: add_entries_step del: add_entries.simps)
      show ?thesis
        unfolding chk run last_request.simps by (rule Cons.IH [OF a])
    qed
  qed
qed


section \<open>The refinement\<close>

lemma enc_get_foldl_or:
  "enc_get (foldl (OR) c ps) f = foldl (OR) (enc_get c f) (map (\<lambda>p. enc_get p f) ps)"
  by (induction ps arbitrary: c) simp_all

lemma list13:
  assumes "length ps = 13"
  shows "ps = [ps!0, ps!1, ps!2, ps!3, ps!4, ps!5, ps!6, ps!7, ps!8, ps!9, ps!10, ps!11, ps!12]"
  by (rule nth_equalityI) (use assms in \<open>auto simp: less_Suc_eq numeral_eq_Suc\<close>)

lemma enc_get_partial_other: "f \<noteq> g \<Longrightarrow> enc_get (partial_of A f req) g = 0"
  by (auto simp: partial_of_def enc_get_only split: option.split)

lemma partials_are_nth:
  assumes "partials_are A r ps"
  shows "ps!0 = partial_of A bad_handle (r bad_handle)"
    "ps!Suc 0 = partial_of A wrong_obj (r wrong_obj)"
    "ps!2 = partial_of A vmar_wx (r vmar_wx)" "ps!3 = 0"
    "ps!4 = partial_of A new_vmo (r new_vmo)" "ps!5 = partial_of A new_channel (r new_channel)"
    "ps!6 = partial_of A new_event (r new_event)"
    "ps!7 = partial_of A new_eventpair (r new_eventpair)"
    "ps!8 = partial_of A new_port (r new_port)" "ps!9 = partial_of A new_socket (r new_socket)"
    "ps!10 = partial_of A new_fifo (r new_fifo)" "ps!11 = partial_of A new_timer (r new_timer)"
    "ps!12 = partial_of A new_process (r new_process)"
  using assms unfolding partials_are_def by (metis field_index.simps One_nat_def)+

lemma enc_get_result:
  assumes "partials_are A r ps"
  shows "enc_get (foldl (OR) c ps) f = enc_get c f OR enc_get (partial_of A f (r f)) f"
proof -
  have l: "length ps = 13" using assms by (simp add: partials_are_def)
  show ?thesis
    unfolding enc_get_foldl_or
    by (subst list13 [OF l])
      (cases f; simp add: partials_are_nth [OF assms] enc_get_partial_other)
qed


lemma partial_of_48: "take_bit 48 (partial_of A f req) = partial_of A f req"
  by (simp add: partial_of_def enc_only_48 split: option.split)

lemma foldl_or_48:
  assumes "take_bit 48 c = c" "\<forall>p \<in> set ps. take_bit 48 p = p"
  shows "take_bit 48 (foldl (OR) c ps) = foldl (OR) (c :: 64 word) ps"
  using assms by (induction ps arbitrary: c) simp_all

lemma result_48:
  assumes "cookie_ok c" "partials_are A r ps"
  shows "take_bit 48 (foldl (OR) c ps) = foldl (OR) c ps"
proof (rule foldl_or_48)
  show "take_bit 48 c = c" using assms(1) by (simp add: cookie_ok_def)
  have l: "length ps = 13" using assms(2) by (simp add: partials_are_def)
  have "list_all (\<lambda>p. take_bit 48 p = p) ps"
    by (subst list13 [OF l]) (simp add: partials_are_nth [OF assms(2)] partial_of_48)
  then show "\<forall>p \<in> set ps. take_bit 48 p = p" by (simp add: list_all_iff)
qed

text \<open>Every action in the requests is a valid one once the check has passed.\<close>

lemma last_request_valid:
  assumes "policy_check mode A es = None" "\<forall>f a. r f = Some a \<longrightarrow> a \<le> 7"
  shows "\<forall>f a. last_request es r f = Some a \<longrightarrow> a \<le> 7"
  using assms
proof (induction es arbitrary: r)
  case (Cons e es)
  then have chk: "policy_check mode A es = None" and le: "pol_policy e \<le> 7"
    by (auto simp: not_less split: if_splits)
  have "\<forall>f a. (if f \<in> set (entry_fields e) then Some (pol_policy e) else r f) = Some a \<longrightarrow> a \<le> 7"
    using le Cons.prems(2) by auto
  from Cons.IH [OF chk this] show ?case unfolding last_request.simps .
qed simp

lemma or_explicit_same:
  assumes "cookie_ok c" "partials_are (policy_view c) r ps" "\<forall>f a. r f = Some a \<longrightarrow> a \<le> 7"
  shows "enc_get (foldl (OR) c ps) f =
     (case policy_view c f of
        Some a \<Rightarrow> enc_get c f
      | None \<Rightarrow> case r f of Some a \<Rightarrow> entry_of a | None \<Rightarrow> 0)"
proof -
  have e: "enc_get c f = 0 \<or> enc_get c f = entry_of (enc_action (enc_get c f))"
    using assms(1) explicit_nibble(1) unfolding cookie_ok_def by blast
  show ?thesis
    unfolding enc_get_result [OF assms(2)]
    using e assms(3)
    by (auto simp: policy_view_def partial_of_def enc_get_only entry_of_props split: option.split)
qed

lemma policy_result:
  assumes "cookie_ok c" "partials_are (policy_view c) r ps" "\<forall>f a. r f = Some a \<longrightarrow> a \<le> 7"
  shows "policy_view (foldl (OR) c ps) f = (case policy_view c f of Some a \<Rightarrow> Some a | None \<Rightarrow> r f)"
    and "cookie_ok (foldl (OR) c ps)"
proof -
  note res = or_explicit_same [OF assms]
  show "policy_view (foldl (OR) c ps) f = (case policy_view c f of Some a \<Rightarrow> Some a | None \<Rightarrow> r f)"
    using assms(3) res [of f] unfolding policy_view_def
    by (auto simp: entry_of_props split: option.splits if_splits)
  have "bit (enc_get (foldl (OR) c ps) g) 3" if "enc_get (foldl (OR) c ps) g \<noteq> 0" for g
    using that assms(1,3) res [of g] unfolding cookie_ok_def
    by (auto simp: entry_of_props policy_view_def split: option.splits if_splits)
  then show "cookie_ok (foldl (OR) c ps)"
    using result_48 [OF assms(1,2)] by (simp add: cookie_ok_def)
qed

lemma partials_are_initial: "partials_are A (\<lambda>_. None) (replicate 13 0)"
  by (simp add: partials_are_def partial_of_def)

lemma AddBasicPolicy_cases:
  assumes "cookie_ok (jp_cookie p)"
  shows "AddBasicPolicy mode es p =
     (if length es > 13 then (ZX_ERR_OUT_OF_RANGE, p)
      else case policy_check mode (policy_view (jp_cookie p)) es of
             Some s \<Rightarrow> (s, p)
           | None \<Rightarrow> (ZX_OK, snd (AddBasicPolicy mode es p)))"
    and "length es \<le> 13 \<Longrightarrow> policy_check mode (policy_view (jp_cookie p)) es = None \<Longrightarrow>
      policy_view (jp_cookie (snd (AddBasicPolicy mode es p)))
        = policy_merge es (policy_view (jp_cookie p))
      \<and> cookie_ok (jp_cookie (snd (AddBasicPolicy mode es p)))
      \<and> jp_slack (snd (AddBasicPolicy mode es p)) = jp_slack p"
proof -
  let ?c = "jp_cookie p"
  note run = add_entries_spec [OF assms partials_are_initial, of mode es]
  show "AddBasicPolicy mode es p =
     (if length es > 13 then (ZX_ERR_OUT_OF_RANGE, p)
      else case policy_check mode (policy_view (jp_cookie p)) es of
             Some s \<Rightarrow> (s, p)
           | None \<Rightarrow> (ZX_OK, snd (AddBasicPolicy mode es p)))"
    using run by (auto simp: AddBasicPolicy_def split: option.splits sum.splits)
  assume le: "length es \<le> 13" and chk: "policy_check mode (policy_view ?c) es = None"
  from run chk obtain ps where ps: "add_entries mode ?c es (replicate 13 0) = Inr ps"
    and are: "partials_are (policy_view ?c) (last_request es (\<lambda>_. None)) ps" by auto
  have valid: "\<forall>f a. last_request es (\<lambda>_. None) f = Some a \<longrightarrow> a \<le> 7"
    by (rule last_request_valid [OF chk]) simp
  have "jp_cookie (snd (AddBasicPolicy mode es p)) = foldl (OR) ?c ps"
    "jp_slack (snd (AddBasicPolicy mode es p)) = jp_slack p"
    using le ps by (simp_all add: AddBasicPolicy_def)
  with policy_result [OF assms are valid]
  show "policy_view (jp_cookie (snd (AddBasicPolicy mode es p)))
        = policy_merge es (policy_view (jp_cookie p))
      \<and> cookie_ok (jp_cookie (snd (AddBasicPolicy mode es p)))
      \<and> jp_slack (snd (AddBasicPolicy mode es p)) = jp_slack p"
    by (auto simp: policy_merge_def)
qed

lemma cookie_ok_default [simp]: "cookie_ok 0" "jp_cookie JobPolicy_default = 0"
  by (simp_all add: cookie_ok_def JobPolicy_default_def)

lemma policy_view_0 [simp]: "policy_view 0 = (\<lambda>_. None)"
  by (simp add: policy_view_def fun_eq_iff)

lemma AddBasicPolicy_keeps_ok:
  assumes "cookie_ok (jp_cookie p)"
  shows "cookie_ok (jp_cookie (snd (AddBasicPolicy mode es p)))"
  using AddBasicPolicy_cases [OF assms, where mode = mode and es = es] assms
  by (cases "policy_check mode (policy_view (jp_cookie p)) es"; cases "length es > 13")
    (simp_all add: not_less)

lemma AddBasicPolicy_extends:
  assumes "cookie_ok (jp_cookie p)" "policy_view (jp_cookie p) f = Some a"
  shows "policy_view (jp_cookie (snd (AddBasicPolicy mode es p))) f = Some a"
  using AddBasicPolicy_cases [OF assms(1), where mode = mode and es = es] assms(2)
  by (cases "policy_check mode (policy_view (jp_cookie p)) es"; cases "length es > 13")
    (simp_all add: not_less policy_merge_def)

text \<open>
  C17: The bit-level merge of a job policy implements the merge of maps.  On a well-formed cookie,
  \<^verbatim>\<open>AddBasicPolicy\<close> fails exactly with the first error of the input list (too long, unknown
  condition, invalid action, conflict in absolute mode) and then leaves the policy unchanged;
  otherwise every explicit action is kept, every default entry takes the last action the list
  requests for it (a \<^verbatim>\<open>ZX_POL_NEW_ANY\<close> entry requests it for all nine object kinds), the
  cookie stays well-formed and the slack is untouched.
\<close>

theorem AddBasicPolicy_refines:
  assumes "cookie_ok (jp_cookie p)"
  shows "case AddBasicPolicy mode es p of (st, p') \<Rightarrow>
     (st \<noteq> ZX_OK \<longrightarrow> p' = p)
     \<and> (length es > 13 \<longrightarrow> st = ZX_ERR_OUT_OF_RANGE)
     \<and> (length es \<le> 13 \<longrightarrow>
          (case policy_check mode (policy_view (jp_cookie p)) es of
             Some e \<Rightarrow> st = e
           | None \<Rightarrow> st = ZX_OK
               \<and> policy_view (jp_cookie p') = policy_merge es (policy_view (jp_cookie p))
               \<and> jp_slack p' = jp_slack p))
     \<and> cookie_ok (jp_cookie p')"
proof (cases "AddBasicPolicy mode es p")
  case (Pair st p')
  with AddBasicPolicy_cases [OF assms, where mode = mode and es = es] AddBasicPolicy_keeps_ok [OF assms, of mode es]
  show ?thesis
    by (cases "policy_check mode (policy_view (jp_cookie p)) es"; cases "length es > 13")
      (auto simp: not_less)
qed

definition deny_all_but_channel :: "zx_policy_basic list" where
  "deny_all_but_channel =
     [\<lparr> pol_condition = ZX_POL_NEW_ANY, pol_policy = ZX_POL_ACTION_DENY \<rparr>,
      \<lparr> pol_condition = ZX_POL_NEW_CHANNEL, pol_policy = ZX_POL_ACTION_ALLOW \<rparr>]"

theorem AddBasicPolicy_refines_witness:
  "case AddBasicPolicy ZX_JOB_POL_ABSOLUTE deny_all_but_channel JobPolicy_default of (st, p') \<Rightarrow>
     st = ZX_OK \<and> policy_view (jp_cookie p') new_channel = Some ZX_POL_ACTION_ALLOW
     \<and> policy_view (jp_cookie p') new_fifo = Some ZX_POL_ACTION_DENY
     \<and> policy_view (jp_cookie p') bad_handle = None \<and> cookie_ok (jp_cookie p')"
  using AddBasicPolicy_refines [of JobPolicy_default deny_all_but_channel ZX_JOB_POL_ABSOLUTE]
  by (auto simp: deny_all_but_channel_def policy_merge_def conflicts_def
      entry_fields_def cond_field_def split: prod.splits)

fun add_all :: "(32 word \<times> zx_policy_basic list) list \<Rightarrow> JobPolicy \<Rightarrow> JobPolicy" where
  "add_all [] p = p"
| "add_all ((mode, es) # calls) p = add_all calls (snd (AddBasicPolicy mode es p))"

lemma add_all_ok: "cookie_ok (jp_cookie p) \<Longrightarrow> cookie_ok (jp_cookie (add_all calls p))"
  by (induction calls p rule: add_all.induct) (simp_all add: AddBasicPolicy_keeps_ok)

lemma add_all_extends:
  "cookie_ok (jp_cookie p) \<Longrightarrow> policy_view (jp_cookie p) f = Some a \<Longrightarrow>
   policy_view (jp_cookie (add_all calls p)) f = Some a"
  by (induction calls p rule: add_all.induct)
    (simp_all add: AddBasicPolicy_keeps_ok AddBasicPolicy_extends)

lemma add_all_append: "add_all (xs @ ys) p = add_all ys (add_all xs p)"
  by (induction xs p rule: add_all.induct) simp_all

lemma Query_view:
  "cond_field c = Some f \<Longrightarrow>
   QueryBasicPolicy p c = (case policy_view (jp_cookie p) f of Some a \<Rightarrow> a | None \<Rightarrow> 0)"
  by (simp add: Query_alt GetEffectiveAction_def enc_is_default_def kDefaultAction_def
      policy_view_def)

text \<open>
  What a query answers after any sequence of merges.  Starting from the default policy and
  adding any number of lists in any mode, every known condition is answered with its explicit
  action, or with \<^verbatim>\<open>ZX_POL_ACTION_ALLOW\<close> while it has none, and an action that was explicit at
  some point is still the answer after every later merge.
\<close>

theorem policy_query_stable:
  assumes "cond_field c = Some f"
  shows "QueryBasicPolicy (add_all calls JobPolicy_default) c =
           (case policy_view (jp_cookie (add_all calls JobPolicy_default)) f of
              Some a \<Rightarrow> a | None \<Rightarrow> ZX_POL_ACTION_ALLOW)
         \<and> (policy_view (jp_cookie (add_all calls JobPolicy_default)) f \<noteq> None \<longrightarrow>
              QueryBasicPolicy (add_all (calls @ later) JobPolicy_default) c
              = QueryBasicPolicy (add_all calls JobPolicy_default) c)"
proof -
  let ?p = "add_all calls JobPolicy_default"
  have ok: "cookie_ok (jp_cookie ?p)" by (rule add_all_ok) simp
  have "QueryBasicPolicy (add_all later ?p) c = QueryBasicPolicy ?p c"
    if "policy_view (jp_cookie ?p) f = Some a" for a
    using add_all_extends [OF ok that, of later] that by (simp add: Query_view [OF assms])
  then show ?thesis by (auto simp: Query_view [OF assms] add_all_append)
qed

theorem policy_query_stable_witness:
  "QueryBasicPolicy (add_all ([(ZX_JOB_POL_ABSOLUTE, deny_all_but_channel)] @
       [(ZX_JOB_POL_RELATIVE, [\<lparr> pol_condition = ZX_POL_NEW_FIFO, pol_policy = ZX_POL_ACTION_ALLOW \<rparr>])])
     JobPolicy_default) ZX_POL_NEW_FIFO = ZX_POL_ACTION_DENY"
proof -
  have c: "cond_field ZX_POL_NEW_FIFO = Some new_fifo" by (simp add: cond_field_def)
  have v: "policy_view (jp_cookie (add_all [(ZX_JOB_POL_ABSOLUTE, deny_all_but_channel)]
             JobPolicy_default)) new_fifo = Some ZX_POL_ACTION_DENY"
    using AddBasicPolicy_cases(2) [of JobPolicy_default deny_all_but_channel ZX_JOB_POL_ABSOLUTE]
    by (simp add: deny_all_but_channel_def policy_merge_def conflicts_def
      entry_fields_def cond_field_def)
  show ?thesis
    using policy_query_stable [OF c, of "[(ZX_JOB_POL_ABSOLUTE, deny_all_but_channel)]"
      "[(ZX_JOB_POL_RELATIVE, [\<lparr> pol_condition = ZX_POL_NEW_FIFO, pol_policy = ZX_POL_ACTION_ALLOW \<rparr>])]"] v
    by simp
qed

text \<open>
  A condition outside the table.  With an empty cookie such a condition is allowed, while a
  cookie with any explicit entry denies it: the answer for an unknown condition depends on
  unrelated entries.
\<close>

theorem unknown_condition_answer:
  assumes "cond_field c = None"
  shows "QueryBasicPolicy p c = (if jp_cookie p = 0 then ZX_POL_ACTION_ALLOW else ZX_POL_ACTION_DENY)"
  using assms by (simp add: Query_alt kDefaultAction_def)

theorem unknown_condition_answer_witness:
  "QueryBasicPolicy JobPolicy_default 99 = ZX_POL_ACTION_ALLOW"
  using unknown_condition_answer [of 99 JobPolicy_default] by (simp add: cond_field_def)

end
