(* ===== verification/Job.thy ===== *)
theory Job
  imports Dispatcher JobPolicy
begin

text \<open>
  The job tree: \<^verbatim>\<open>kernel/object/job_dispatcher.cpp\<close>.  The state is the set of job
  dispatchers by koid, the global list of jobs, and a log of the calls that leave the
  component (\<^verbatim>\<open>ProcessDispatcher::Kill\<close>, exception-port callbacks, \<^verbatim>\<open>platform_halt\<close>).
  Which child pointers can still be upgraded to references, and which allocations succeed,
  are arguments.  The lemmas show that counts, signals and lists agree, that the policies of
  the children extend the policy of the parent, and what \<^verbatim>\<open>Kill\<close> reaches.
\<close>

section \<open>State\<close>

definition ZX_JOB_NO_PROCESSES :: zx_signals_t where
  [sig_defs]: "ZX_JOB_NO_PROCESSES = ZX_OBJECT_SIGNALED"

definition ZX_JOB_NO_JOBS :: zx_signals_t where
  [sig_defs]: "ZX_JOB_NO_JOBS = 16"

definition kRootJobMaxHeight :: nat where
  "kRootJobMaxHeight = 32"

datatype job_state = READY | KILLING | DEAD

datatype eport_type = EPORT_JOB | EPORT_JOB_DEBUGGER

record exception_port =
  ep_id :: nat
  ep_type :: eport_type

record job = dispatcher +
  job_parent :: "zx_koid_t option"
  job_max_height :: nat
  job_state :: job_state
  process_count :: nat
  job_count :: nat
  kill_on_oom :: bool
  job_jobs :: "zx_koid_t list"
  job_procs :: "zx_koid_t list"
  job_policy :: JobPolicy
  job_exception_port :: "exception_port option"
  job_debugger_exception_port :: "exception_port option"

datatype job_event =
    ProcessKill zx_koid_t
  | ProcessPortRemoval zx_koid_t exception_port
  | PortUnbind exception_port
  | PlatformHalt

record job_world =
  jw_jobs :: "zx_koid_t \<rightharpoonup> job"
  jw_all_jobs :: "zx_koid_t list"
  jw_log :: "job_event list"

definition job_world_init :: job_world where
  "job_world_init = \<lparr> jw_jobs = Map.empty, jw_all_jobs = [], jw_log = [] \<rparr>"

text \<open>The dispatcher a reference points to; references of the model are to jobs in the map.\<close>

definition the_job :: "job_world \<Rightarrow> zx_koid_t \<Rightarrow> job" where
  "the_job w k = the (jw_jobs w k)"

definition set_job :: "zx_koid_t \<Rightarrow> job \<Rightarrow> job_world \<Rightarrow> job_world" where
  "set_job k j w = w\<lparr> jw_jobs := (jw_jobs w)(k \<mapsto> j) \<rparr>"

definition log_event :: "job_event \<Rightarrow> job_world \<Rightarrow> job_world" where
  "log_event e w = w\<lparr> jw_log := jw_log w @ [e] \<rparr>"

section \<open>Iterating over live children\<close>

text \<open>
  The loop of \<^verbatim>\<open>ForEachChildInLocked\<close>: a child whose reference count has dropped to zero is
  skipped, and the first status other than \<^verbatim>\<open>ZX_OK\<close> stops the loop.  \<open>res\<close> is the value
  \<^verbatim>\<open>*result\<close> has on entry, which remains if no child is alive.
\<close>

fun for_each_live ::
  "(zx_koid_t \<Rightarrow> bool) \<Rightarrow> (zx_koid_t \<Rightarrow> 's \<Rightarrow> zx_status_t \<times> 's) \<Rightarrow> zx_koid_t list
   \<Rightarrow> zx_status_t \<Rightarrow> 's \<Rightarrow> zx_status_t \<times> 's" where
  "for_each_live alive func [] res s = (res, s)"
| "for_each_live alive func (c # cs) res s =
     (if \<not> alive c then for_each_live alive func cs res s
      else case func c s of (st, s') \<Rightarrow>
        if st \<noteq> ZX_OK then (st, s') else for_each_live alive func cs st s')"

definition ForEachChildInLocked ::
  "(zx_koid_t \<Rightarrow> bool) \<Rightarrow> bool \<Rightarrow> nat \<Rightarrow> zx_koid_t list \<Rightarrow> zx_status_t
   \<Rightarrow> (zx_koid_t \<Rightarrow> 's \<Rightarrow> zx_status_t \<times> 's) \<Rightarrow> 's \<Rightarrow> zx_status_t \<times> 's" where
  "ForEachChildInLocked alive alloc_ok n_children children res func s =
     (if n_children = 0 then (ZX_OK, s)
      else if \<not> alloc_ok then (ZX_ERR_NO_MEMORY, s)
      else for_each_live alive func children res s)"

section \<open>Signals and child lists\<close>

definition UpdateSignalsDecrementLocked :: "zx_koid_t \<Rightarrow> job_world \<Rightarrow> job_world" where
  "UpdateSignalsDecrementLocked k w =
     (let j = the_job w k;
          set_mask = (if process_count j = 0 then ZX_JOB_NO_PROCESSES else 0)
                     OR (if job_count j = 0 then ZX_JOB_NO_JOBS else 0);
          empty = (job_count j = 0 \<and> process_count j = 0);
          j1 = (if empty \<and> job_state j = KILLING then j\<lparr> job_state := DEAD \<rparr> else j);
          w1 = (if empty \<and> job_parent j = None then log_event PlatformHalt w else w)
      in set_job k (UpdateStateLocked 0 set_mask j1) w1)"

definition UpdateSignalsIncrementLocked :: "zx_koid_t \<Rightarrow> job_world \<Rightarrow> job_world" where
  "UpdateSignalsIncrementLocked k w =
     (let j = the_job w k;
          clear_mask = (if process_count j = 1 then ZX_JOB_NO_PROCESSES else 0)
                       OR (if job_count j = 1 then ZX_JOB_NO_JOBS else 0)
      in set_job k (UpdateStateLocked clear_mask 0 j) w)"

definition AddChildProcess :: "zx_koid_t \<Rightarrow> zx_koid_t \<Rightarrow> job_world \<Rightarrow> bool \<times> job_world" where
  "AddChildProcess k process w =
     (let j = the_job w k in
      if job_state j \<noteq> READY then (False, w)
      else (True, UpdateSignalsIncrementLocked k
              (set_job k (j\<lparr> job_procs := job_procs j @ [process],
                             process_count := process_count j + 1 \<rparr>) w)))"

definition AddChildJob :: "zx_koid_t \<Rightarrow> zx_koid_t \<Rightarrow> job_world \<Rightarrow> bool \<times> job_world" where
  "AddChildJob k child w =
     (let j = the_job w k in
      if job_state j \<noteq> READY then (False, w)
      else (True, UpdateSignalsIncrementLocked k
              (set_job k (j\<lparr> job_jobs := job_jobs j @ [child],
                             job_count := job_count j + 1 \<rparr>) w)))"

definition RemoveChildProcess :: "zx_koid_t \<Rightarrow> zx_koid_t \<Rightarrow> job_world \<Rightarrow> job_world" where
  "RemoveChildProcess k process w =
     (let j = the_job w k in
      if process \<notin> set (job_procs j) then w
      else UpdateSignalsDecrementLocked k
             (set_job k (j\<lparr> job_procs := remove1 process (job_procs j),
                            process_count := process_count j - 1 \<rparr>) w))"

definition RemoveChildJob :: "zx_koid_t \<Rightarrow> zx_koid_t \<Rightarrow> job_world \<Rightarrow> job_world" where
  "RemoveChildJob k child w =
     (let j = the_job w k in
      if child \<notin> set (job_jobs j) then w
      else UpdateSignalsDecrementLocked k
             (set_job k (j\<lparr> job_jobs := remove1 child (job_jobs j),
                            job_count := job_count j - 1 \<rparr>) w))"

section \<open>Creation and destruction\<close>

text \<open>\<^verbatim>\<open>DoublyLinkedList::insert\<close> puts the new element in front of the one the iterator is at.\<close>

fun insert_before :: "'a \<Rightarrow> 'a \<Rightarrow> 'a list \<Rightarrow> 'a list" where
  "insert_before n x [] = [x]"
| "insert_before n x (y # ys) = (if y = n then x # y # ys else y # insert_before n x ys)"

definition new_job :: "zx_koid_t \<Rightarrow> zx_koid_t option \<Rightarrow> nat \<Rightarrow> JobPolicy \<Rightarrow> job" where
  "new_job k parent height policy =
     dispatcher.extend (new_dispatcher k (ZX_JOB_NO_PROCESSES OR ZX_JOB_NO_JOBS))
       \<lparr> job_parent = parent, job_max_height = height, job_state = READY,
         process_count = 0, job_count = 0, kill_on_oom = False,
         job_jobs = [], job_procs = [], job_policy = policy,
         job_exception_port = None, job_debugger_exception_port = None \<rparr>"

definition JobDispatcher_ctor ::
  "zx_koid_t \<Rightarrow> zx_koid_t option \<Rightarrow> JobPolicy \<Rightarrow> job_world \<Rightarrow> job_world" where
  "JobDispatcher_ctor k parent policy w =
     (case parent of
        None \<Rightarrow>
          (set_job k (new_job k None kRootJobMaxHeight policy) w)
            \<lparr> jw_all_jobs := jw_all_jobs w @ [k] \<rparr>
      | Some p \<Rightarrow>
          (let pj = the_job w p;
               neighbor = (if job_jobs pj \<noteq> [] then last (job_jobs pj) else p)
           in (set_job k (new_job k parent (job_max_height pj - 1) policy) w)
                \<lparr> jw_all_jobs := insert_before neighbor k (jw_all_jobs w) \<rparr>))"

definition JobDispatcher_dtor :: "zx_koid_t \<Rightarrow> job_world \<Rightarrow> job_world" where
  "JobDispatcher_dtor k w =
     (let w1 = (case job_parent (the_job w k) of None \<Rightarrow> w | Some p \<Rightarrow> RemoveChildJob p k w)
      in w1\<lparr> jw_jobs := (jw_jobs w1)(k := None),
             jw_all_jobs := remove1 k (jw_all_jobs w1) \<rparr>)"

definition CreateRootJob :: "bool \<Rightarrow> zx_koid_t \<Rightarrow> job_world \<Rightarrow> zx_koid_t option \<times> job_world" where
  "CreateRootJob alloc_ok k w =
     (if \<not> alloc_ok then (None, w)
      else (Some k, JobDispatcher_ctor k None JobPolicy_default w))"

definition GetPolicy :: "zx_koid_t \<Rightarrow> job_world \<Rightarrow> JobPolicy" where
  "GetPolicy k w = job_policy (the_job w k)"

text \<open>
  \<^verbatim>\<open>Create\<close> takes the parent's lock twice: to copy the policy, and to link the child.  The two
  halves are separate definitions, so that a step of another thread can come between them.
\<close>

definition Create_begin ::
  "bool \<Rightarrow> zx_koid_t \<Rightarrow> zx_koid_t \<Rightarrow> job_world \<Rightarrow> zx_status_t \<times> job_world" where
  "Create_begin alloc_ok k parent w =
     (if job_max_height (the_job w parent) = 0 then (ZX_ERR_OUT_OF_RANGE, w)
      else if \<not> alloc_ok then (ZX_ERR_NO_MEMORY, w)
      else (ZX_OK, JobDispatcher_ctor k (Some parent) (GetPolicy parent w) w))"

definition Create_link :: "zx_koid_t \<Rightarrow> zx_koid_t \<Rightarrow> job_world \<Rightarrow> zx_status_t \<times> job_world" where
  "Create_link k parent w =
     (case AddChildJob parent k w of
        (True, w1) \<Rightarrow> (ZX_OK, w1)
      | (False, w1) \<Rightarrow> (ZX_ERR_BAD_STATE, JobDispatcher_dtor k w1))"

definition job_Create ::
  "bool \<Rightarrow> zx_koid_t \<Rightarrow> zx_koid_t \<Rightarrow> job_world \<Rightarrow> zx_status_t \<times> job_world" where
  "job_Create alloc_ok k parent w =
     (case Create_begin alloc_ok k parent w of
        (st, w1) \<Rightarrow> if st \<noteq> ZX_OK then (st, w1) else Create_link k parent w1)"

section \<open>Policy\<close>

definition CanSetPolicy :: "job \<Rightarrow> bool" where
  "CanSetPolicy j \<longleftrightarrow> \<not> (job_procs j \<noteq> [] \<or> job_jobs j \<noteq> [])"

definition SetBasicPolicy ::
  "zx_koid_t \<Rightarrow> 32 word \<Rightarrow> zx_policy_basic list \<Rightarrow> job_world \<Rightarrow> zx_status_t \<times> job_world" where
  "SetBasicPolicy k mode in_policy w =
     (let j = the_job w k in
      if \<not> CanSetPolicy j then (ZX_ERR_BAD_STATE, w)
      else case AddBasicPolicy mode in_policy (job_policy j) of
             (status, p) \<Rightarrow> (status, set_job k (j\<lparr> job_policy := p \<rparr>) w))"

abbreviation (input) "ZX_TIMER_SLACK_CENTER \<equiv> (0 :: 32 word)"
abbreviation (input) "ZX_TIMER_SLACK_EARLY \<equiv> (1 :: 32 word)"
abbreviation (input) "ZX_TIMER_SLACK_LATE \<equiv> (2 :: 32 word)"

record zx_policy_timer_slack =
  min_slack :: zx_duration_t
  default_mode :: "32 word"

definition SetTimerSlackPolicy ::
  "zx_koid_t \<Rightarrow> zx_policy_timer_slack \<Rightarrow> job_world \<Rightarrow> zx_status_t \<times> job_world" where
  "SetTimerSlackPolicy k policy w =
     (let j = the_job w k in
      if \<not> CanSetPolicy j then (ZX_ERR_BAD_STATE, w)
      else if sint (min_slack policy) < 0 then (ZX_ERR_INVALID_ARGS, w)
      else
        let new_mode =
              (if default_mode policy = ZX_TIMER_SLACK_CENTER then Some TIMER_SLACK_CENTER
               else if default_mode policy = ZX_TIMER_SLACK_EARLY then Some TIMER_SLACK_EARLY
               else if default_mode policy = ZX_TIMER_SLACK_LATE then Some TIMER_SLACK_LATE
               else None)
        in case new_mode of
             None \<Rightarrow> (ZX_ERR_INVALID_ARGS, w)
           | Some m \<Rightarrow>
               (let old_slack = GetTimerSlack (job_policy j);
                    new_amount = (if sint (slack_amount old_slack) < sint (min_slack policy)
                                  then min_slack policy else slack_amount old_slack);
                    new_slack = \<lparr> slack_amount = new_amount, slack_mode = m \<rparr>
                in (ZX_OK, set_job k (j\<lparr> job_policy := SetTimerSlack new_slack (job_policy j) \<rparr>) w)))"

section \<open>Killing, enumeration and lookup\<close>

text \<open>
  \<^verbatim>\<open>Kill\<close> recurses over the child jobs; \<open>depth\<close> bounds the recursion and running out of it is
  the value \<^const>\<open>None\<close>.  Both lists are gathered under the lock with \<^verbatim>\<open>push_front\<close>, so they
  are walked in reverse order, all jobs before all processes.  \<open>alloc\<close> tells which of the two
  reference arrays of a job could be allocated.
\<close>

definition gather :: "(zx_koid_t \<Rightarrow> bool) \<Rightarrow> bool \<Rightarrow> nat \<Rightarrow> zx_koid_t list \<Rightarrow> zx_koid_t list" where
  "gather alive alloc_ok n_children children =
     snd (ForEachChildInLocked alive alloc_ok n_children children ZX_OK (\<lambda>c acc. (ZX_OK, c # acc)) [])"

primrec kill_upto ::
  "nat \<Rightarrow> (zx_koid_t \<Rightarrow> bool) \<Rightarrow> (zx_koid_t \<Rightarrow> bool \<times> bool) \<Rightarrow> zx_koid_t \<Rightarrow> job_world
   \<Rightarrow> (bool \<times> job_world) option" where
  "kill_upto 0 alive alloc k w = None"
| "kill_upto (Suc depth) alive alloc k w =
     (let j = the_job w k in
      if job_state j \<noteq> READY then Some (False, w)
      else
        let w1 = set_job k (j\<lparr> job_state := KILLING \<rparr>) w;
            jobs_to_kill = gather alive (fst (alloc k)) (job_count j) (job_jobs j);
            procs_to_kill = gather alive (snd (alloc k)) (process_count j) (job_procs j);
            w2 = foldl (\<lambda>ow c. case ow of None \<Rightarrow> None
                                 | Some v \<Rightarrow> map_option snd (kill_upto depth alive alloc c v))
                   (Some w1) jobs_to_kill
        in map_option (\<lambda>v. (True, foldl (\<lambda>v p. log_event (ProcessKill p) v) v procs_to_kill)) w2)"

text \<open>A child's \<^verbatim>\<open>max_height_\<close> is one less than its parent's, so this depth is enough.\<close>

definition job_Kill ::
  "(zx_koid_t \<Rightarrow> bool) \<Rightarrow> (zx_koid_t \<Rightarrow> bool \<times> bool) \<Rightarrow> zx_koid_t \<Rightarrow> job_world
   \<Rightarrow> (bool \<times> job_world) option" where
  "job_Kill alive alloc k w = kill_upto (Suc (job_max_height (the_job w k))) alive alloc k w"

text \<open>
  \<^verbatim>\<open>EnumerateChildren\<close> with the two virtual methods of the enumerator as functions on its
  state.
\<close>

primrec enumerate_upto ::
  "nat \<Rightarrow> (zx_koid_t \<Rightarrow> bool) \<Rightarrow> (zx_koid_t \<Rightarrow> bool \<times> bool) \<Rightarrow> job_world
   \<Rightarrow> (zx_koid_t \<Rightarrow> 's \<Rightarrow> bool \<times> 's) \<Rightarrow> (zx_koid_t \<Rightarrow> 's \<Rightarrow> bool \<times> 's) \<Rightarrow> bool \<Rightarrow> zx_koid_t
   \<Rightarrow> 's \<Rightarrow> bool \<times> 's" where
  "enumerate_upto 0 alive alloc w OnProcess OnJob recurse k s = (False, s)"
| "enumerate_upto (Suc depth) alive alloc w OnProcess OnJob recurse k s =
     (let j = the_job w k in
      case ForEachChildInLocked alive (snd (alloc k)) (process_count j) (job_procs j) ZX_OK
             (\<lambda>p s. case OnProcess p s of (b, s') \<Rightarrow> (if b then ZX_OK else ZX_ERR_STOP, s')) s of
        (result, s1) \<Rightarrow>
          if result \<noteq> ZX_OK then (False, s1)
          else case ForEachChildInLocked alive (fst (alloc k)) (job_count j) (job_jobs j) result
                 (\<lambda>c s. case OnJob c s of (b, s') \<Rightarrow>
                    if \<not> b then (ZX_ERR_STOP, s')
                    else if recurse
                    then (case enumerate_upto depth alive alloc w OnProcess OnJob True c s' of
                            (b', s'') \<Rightarrow> (if b' then ZX_OK else ZX_ERR_STOP, s''))
                    else (ZX_OK, s')) s1 of
              (result', s2) \<Rightarrow> (result' = ZX_OK, s2))"

definition EnumerateChildren ::
  "(zx_koid_t \<Rightarrow> bool) \<Rightarrow> (zx_koid_t \<Rightarrow> bool \<times> bool) \<Rightarrow> job_world
   \<Rightarrow> (zx_koid_t \<Rightarrow> 's \<Rightarrow> bool \<times> 's) \<Rightarrow> (zx_koid_t \<Rightarrow> 's \<Rightarrow> bool \<times> 's) \<Rightarrow> bool \<Rightarrow> zx_koid_t
   \<Rightarrow> 's \<Rightarrow> bool \<times> 's" where
  "EnumerateChildren alive alloc w OnProcess OnJob recurse k =
     enumerate_upto (Suc (job_max_height (the_job w k))) alive alloc w OnProcess OnJob recurse k"

definition lookup_func :: "zx_koid_t \<Rightarrow> zx_koid_t \<Rightarrow> zx_koid_t option \<Rightarrow> zx_status_t \<times> zx_koid_t option" where
  "lookup_func koid c found = (if c = koid then (ZX_ERR_STOP, Some c) else (ZX_OK, found))"

definition LookupProcessById ::
  "(zx_koid_t \<Rightarrow> bool) \<Rightarrow> bool \<Rightarrow> zx_koid_t \<Rightarrow> zx_koid_t \<Rightarrow> job_world \<Rightarrow> zx_koid_t option" where
  "LookupProcessById alive alloc_ok k koid w =
     (let j = the_job w k in
      snd (ForEachChildInLocked alive alloc_ok (process_count j) (job_procs j) ZX_OK
             (lookup_func koid) None))"

definition LookupJobById ::
  "(zx_koid_t \<Rightarrow> bool) \<Rightarrow> bool \<Rightarrow> zx_koid_t \<Rightarrow> zx_koid_t \<Rightarrow> job_world \<Rightarrow> zx_koid_t option" where
  "LookupJobById alive alloc_ok k koid w =
     (let j = the_job w k in
      snd (ForEachChildInLocked alive alloc_ok (job_count j) (job_jobs j) ZX_OK
             (lookup_func koid) None))"

section \<open>Exception ports and the OOM flag\<close>

definition SetExceptionPort ::
  "zx_koid_t \<Rightarrow> exception_port \<Rightarrow> job_world \<Rightarrow> zx_status_t \<times> job_world" where
  "SetExceptionPort k eport w =
     (let j = the_job w k in
      if ep_type eport = EPORT_JOB_DEBUGGER
      then (if job_debugger_exception_port j \<noteq> None then (ZX_ERR_ALREADY_BOUND, w)
            else (ZX_OK, set_job k (j\<lparr> job_debugger_exception_port := Some eport \<rparr>) w))
      else (if job_exception_port j \<noteq> None then (ZX_ERR_ALREADY_BOUND, w)
            else (ZX_OK, set_job k (j\<lparr> job_exception_port := Some eport \<rparr>) w)))"

definition ResetExceptionPort ::
  "(zx_koid_t \<Rightarrow> bool) \<Rightarrow> (zx_koid_t \<Rightarrow> bool \<times> bool) \<Rightarrow> zx_koid_t \<Rightarrow> bool \<Rightarrow> job_world
   \<Rightarrow> bool \<times> job_world" where
  "ResetExceptionPort alive alloc k debugger w =
     (let j = the_job w k;
          eport = (if debugger then job_debugger_exception_port j else job_exception_port j);
          j1 = (if debugger then j\<lparr> job_debugger_exception_port := None \<rparr>
                else j\<lparr> job_exception_port := None \<rparr>);
          w1 = set_job k j1 w
      in case eport of
           None \<Rightarrow> (False, w1)
         | Some e \<Rightarrow>
             (let w2 = log_event (PortUnbind e) w1;
                  calls = snd (EnumerateChildren alive alloc w2
                                 (\<lambda>p s. (True, s @ [ProcessPortRemoval p e])) (\<lambda>c s. (True, s))
                                 True k [])
              in (True, w2\<lparr> jw_log := jw_log w2 @ calls \<rparr>)))"

definition set_kill_on_oom :: "zx_koid_t \<Rightarrow> bool \<Rightarrow> job_world \<Rightarrow> job_world" where
  "set_kill_on_oom k value w = set_job k ((the_job w k)\<lparr> kill_on_oom := value \<rparr>) w"

definition get_kill_on_oom :: "zx_koid_t \<Rightarrow> job_world \<Rightarrow> bool" where
  "get_kill_on_oom k w = kill_on_oom (the_job w k)"

text \<open>\<^verbatim>\<open>ForEachJob\<close>: the enumeration of all jobs, oldest list position first.\<close>

fun for_each_job :: "(zx_koid_t \<Rightarrow> 's \<Rightarrow> zx_status_t \<times> 's) \<Rightarrow> zx_koid_t list \<Rightarrow> 's \<Rightarrow> zx_status_t \<times> 's" where
  "for_each_job func [] s = (ZX_OK, s)"
| "for_each_job func (k # ks) s =
     (case func k s of (st, s') \<Rightarrow> if st \<noteq> ZX_OK then (st, s') else for_each_job func ks s')"

definition ForEachJob :: "(zx_koid_t \<Rightarrow> 's \<Rightarrow> zx_status_t \<times> 's) \<Rightarrow> job_world \<Rightarrow> 's \<Rightarrow> zx_status_t \<times> 's" where
  "ForEachJob func w = for_each_job func (jw_all_jobs w)"

section \<open>The invariant\<close>

lemma job_signals_are_bits [sig_bits]: "ZX_JOB_NO_PROCESSES = sig_bit 3" "ZX_JOB_NO_JOBS = sig_bit 4"
  by (simp_all add: sig_defs sig_bit_def)

text \<open>What holds of each job alone: the counters are the lengths of the lists, the two signals
  say exactly which list is empty, a dead job has no children, the policy is well-formed.\<close>

definition job_local :: "job \<Rightarrow> bool" where
  "job_local j \<longleftrightarrow>
     process_count j = length (job_procs j) \<and> distinct (job_procs j) \<and>
     job_count j = length (job_jobs j) \<and> distinct (job_jobs j) \<and>
     (bit (obj_signals j) 3 \<longleftrightarrow> job_procs j = []) \<and>
     (bit (obj_signals j) 4 \<longleftrightarrow> job_jobs j = []) \<and>
     (job_state j = DEAD \<longrightarrow> job_procs j = [] \<and> job_jobs j = []) \<and>
     cookie_ok (jp_cookie (job_policy j)) \<and> 0 \<le> sint (slack_amount (jp_slack (job_policy j)))"

text \<open>One policy restricts another: it has every explicit action of it and at least its slack.\<close>

definition policy_extends :: "JobPolicy \<Rightarrow> JobPolicy \<Rightarrow> bool" where
  "policy_extends p q \<longleftrightarrow>
     (\<forall>f a. policy_view (jp_cookie p) f = Some a \<longrightarrow> policy_view (jp_cookie q) f = Some a) \<and>
     sint (slack_amount (jp_slack p)) \<le> sint (slack_amount (jp_slack q))"

text \<open>The tree: the child lists and the parent pointers describe the same edges, heights decrease
  along them and policies extend along them.\<close>

definition job_edge :: "job \<Rightarrow> job \<Rightarrow> bool" where
  "job_edge pj cj \<longleftrightarrow>
     job_max_height pj = Suc (job_max_height cj) \<and> policy_extends (job_policy pj) (job_policy cj)"

definition job_links :: "(zx_koid_t \<rightharpoonup> job) \<Rightarrow> bool" where
  "job_links m \<longleftrightarrow>
     (\<forall>k j. m k = Some j \<longrightarrow> obj_koid j = k \<and> job_local j) \<and>
     (\<forall>p pj c. m p = Some pj \<longrightarrow>
        (c \<in> set (job_jobs pj) \<longleftrightarrow> (\<exists>cj. m c = Some cj \<and> job_parent cj = Some p))) \<and>
     (\<forall>c cj p. m c = Some cj \<longrightarrow> job_parent cj = Some p \<longrightarrow> (\<exists>pj. m p = Some pj \<and> job_edge pj cj))"

lemma job_linksD:
  assumes "job_links m"
  shows "m k = Some j \<Longrightarrow> obj_koid j = k" "m k = Some j \<Longrightarrow> job_local j"
    "m p = Some pj \<Longrightarrow> c \<in> set (job_jobs pj) \<longleftrightarrow> (\<exists>cj. m c = Some cj \<and> job_parent cj = Some p)"
    "m c = Some cj \<Longrightarrow> job_parent cj = Some p \<Longrightarrow> \<exists>pj. m p = Some pj \<and> job_edge pj cj"
  using assms unfolding job_links_def by blast+

lemma policy_extends_refl [simp]: "policy_extends p p"
  by (simp add: policy_extends_def)

lemma policy_extends_trans: "policy_extends p q \<Longrightarrow> policy_extends q r \<Longrightarrow> policy_extends p r"
  unfolding policy_extends_def by (meson order_trans)

text \<open>Changing one job in place keeps the tree when the edges at it survive.\<close>

lemma job_links_update:
  assumes "job_links m" "m k = Some j" "obj_koid j' = obj_koid j" "job_local j'"
    "job_parent j' = job_parent j" "job_max_height j' = job_max_height j" "job_jobs j' = job_jobs j"
    "policy_extends (job_policy j) (job_policy j')"
    "job_policy j' = job_policy j \<or> job_jobs j = []"
  shows "job_links (m(k \<mapsto> j'))"
proof -
  note inv = job_linksD [OF assms(1)]
  have kids: "job_policy j' = job_policy j" if "m c = Some cj" "job_parent cj = Some k" for c cj
  proof -
    have "c \<in> set (job_jobs j)" using inv(3) [OF assms(2)] that by blast
    with assms(9) show ?thesis by auto
  qed
  have "\<exists>pj. (m(k \<mapsto> j')) p = Some pj \<and> job_edge pj cj"
    if asm: "(m(k \<mapsto> j')) c = Some cj" "job_parent cj = Some p" for c cj p
  proof -
    obtain cj0 where cj0: "m c = Some cj0" "job_parent cj0 = Some p"
      "job_max_height cj0 = job_max_height cj" "policy_extends (job_policy cj0) (job_policy cj)"
      using asm assms(2,5,6,8) by (cases "c = k") auto
    obtain pj where pj: "m p = Some pj" "job_edge pj cj0" using inv(4) cj0 by blast
    then have e: "job_edge pj cj" using cj0 policy_extends_trans unfolding job_edge_def by auto
    show ?thesis
    proof (cases "p = k")
      case True
      with kids cj0 pj assms(2,6) e have "job_edge j' cj" unfolding job_edge_def by auto
      with True show ?thesis by simp
    next
      case False
      with pj e show ?thesis by simp
    qed
  qed
  moreover have "c \<in> set (job_jobs pj) \<longleftrightarrow> (\<exists>cj. (m(k \<mapsto> j')) c = Some cj \<and> job_parent cj = Some p)"
    if asm: "(m(k \<mapsto> j')) p = Some pj" for p pj c
  proof -
    obtain pj0 where "m p = Some pj0" "job_jobs pj0 = job_jobs pj"
      using asm assms(2,7) by (cases "p = k") auto
    with inv(3) [of p pj0 c] assms(2,5) show ?thesis by auto
  qed
  moreover have "obj_koid i = l \<and> job_local i" if "(m(k \<mapsto> j')) l = Some i" for l i
    using that inv(1,2) assms(2,3,4) by (cases "l = k") auto
  ultimately show ?thesis unfolding job_links_def by blast
qed

text \<open>The world as a whole: the global list enumerates exactly the jobs, every child before its
  parent.\<close>

fun before :: "'a list \<Rightarrow> 'a \<Rightarrow> 'a \<Rightarrow> bool" where
  "before [] x y \<longleftrightarrow> False"
| "before (z # zs) x y \<longleftrightarrow> z = x \<and> y \<in> set zs \<or> before zs x y"

definition job_inv :: "job_world \<Rightarrow> bool" where
  "job_inv w \<longleftrightarrow>
     job_links (jw_jobs w) \<and> distinct (jw_all_jobs w) \<and> set (jw_all_jobs w) = dom (jw_jobs w) \<and>
     (\<forall>c cj p. jw_jobs w c = Some cj \<longrightarrow> job_parent cj = Some p \<longrightarrow> before (jw_all_jobs w) c p)"

lemma job_invD:
  assumes "job_inv w"
  shows "job_links (jw_jobs w)" "distinct (jw_all_jobs w)" "set (jw_all_jobs w) = dom (jw_jobs w)"
    "jw_jobs w c = Some cj \<Longrightarrow> job_parent cj = Some p \<Longrightarrow> before (jw_all_jobs w) c p"
  using assms unfolding job_inv_def by blast+

lemma set_job_simps [simp]:
  "jw_jobs (set_job k j w) = (jw_jobs w)(k \<mapsto> j)" "jw_all_jobs (set_job k j w) = jw_all_jobs w"
  "jw_log (set_job k j w) = jw_log w" "set_job k j (set_job k i w) = set_job k j w"
  "the_job (set_job k j w) l = (if l = k then j else the_job w l)"
  by (simp_all add: set_job_def the_job_def)

lemma log_event_simps [simp]:
  "jw_jobs (log_event e w) = jw_jobs w" "jw_all_jobs (log_event e w) = jw_all_jobs w"
  "jw_log (log_event e w) = jw_log w @ [e]" "the_job (log_event e w) l = the_job w l"
  by (simp_all add: log_event_def the_job_def)

lemma the_job_eq [simp]: "jw_jobs w k = Some j \<Longrightarrow> the_job w k = j"
  by (simp add: the_job_def)

text \<open>Every operation on one job that keeps its parent is an update of this form.\<close>

lemma job_inv_update:
  assumes "job_inv w" "jw_jobs w k = Some j" "jw_jobs w' = (jw_jobs w)(k \<mapsto> j')"
    "jw_all_jobs w' = jw_all_jobs w" "obj_koid j' = obj_koid j" "job_local j'"
    "job_parent j' = job_parent j" "job_max_height j' = job_max_height j" "job_jobs j' = job_jobs j"
    "policy_extends (job_policy j) (job_policy j')"
    "job_policy j' = job_policy j \<or> job_jobs j = []"
  shows "job_inv w'"
proof -
  have "job_links (jw_jobs w')"
    unfolding assms(3)
    by (rule job_links_update [OF job_invD(1) [OF assms(1)] assms(2,5-11)])
  moreover have "before (jw_all_jobs w) c p"
    if "jw_jobs w' c = Some cj" "job_parent cj = Some p" for c cj p
    using that job_invD(4) [OF assms(1)] assms(2,3,7) by (cases "c = k") auto
  ultimately show ?thesis
    using job_invD [OF assms(1)] assms(2,3,4) unfolding job_inv_def by auto
qed

section \<open>Operations on one job\<close>

lemma job_UpdateStateLocked [simp]:
  fixes j :: job
  shows "job_parent (UpdateStateLocked c t j) = job_parent j"
    "job_max_height (UpdateStateLocked c t j) = job_max_height j"
    "job_state (UpdateStateLocked c t j) = job_state j"
    "process_count (UpdateStateLocked c t j) = process_count j"
    "job_count (UpdateStateLocked c t j) = job_count j"
    "job_jobs (UpdateStateLocked c t j) = job_jobs j"
    "job_procs (UpdateStateLocked c t j) = job_procs j"
    "job_policy (UpdateStateLocked c t j) = job_policy j"
  by (simp_all add: UpdateStateLocked_def Let_def)

text \<open>A one-job update given by the new job itself.\<close>

lemma job_inv_set_job:
  assumes "job_inv w" "jw_jobs w k = Some j" "w' = set_job k j' v"
    "jw_jobs v = jw_jobs w" "jw_all_jobs v = jw_all_jobs w"
    "obj_koid j' = obj_koid j" "job_local j \<Longrightarrow> job_local j'"
    "job_parent j' = job_parent j" "job_max_height j' = job_max_height j" "job_jobs j' = job_jobs j"
    "policy_extends (job_policy j) (job_policy j')"
    "job_policy j' = job_policy j \<or> job_jobs j = []"
  shows "job_inv w'"
proof (rule job_inv_update [OF assms(1,2), where j' = j'])
  show "job_local j'"
    using assms(7) job_linksD(2) [OF job_invD(1) [OF assms(1)] assms(2)] by simp
qed (simp_all add: assms(3-6,8-12))

lemma AddChildProcess_eq:
  assumes "jw_jobs w k = Some j" "job_state j = READY"
  shows "AddChildProcess k p w = (True, set_job k
     (UpdateStateLocked ((if process_count j = 0 then ZX_JOB_NO_PROCESSES else 0)
                         OR (if job_count j = 1 then ZX_JOB_NO_JOBS else 0)) 0
        (j\<lparr> job_procs := job_procs j @ [p], process_count := Suc (process_count j) \<rparr>)) w)"
  using assms by (simp add: AddChildProcess_def UpdateSignalsIncrementLocked_def)

lemma AddChildProcess_inv:
  assumes "job_inv w" "jw_jobs w k = Some j" "p \<notin> set (job_procs j)"
  shows "job_inv (snd (AddChildProcess k p w))"
proof (cases "job_state j = READY")
  case True
  show ?thesis
    unfolding AddChildProcess_eq [OF assms(2) True] snd_conv
    by (rule job_inv_set_job [OF assms(1,2) refl])
      (use True assms(3) in \<open>auto simp: job_local_def sig_bits\<close>)
next
  case False
  then show ?thesis using assms(1,2) by (simp add: AddChildProcess_def)
qed

text \<open>The job and the rest of the world after \<^verbatim>\<open>UpdateSignalsDecrementLocked\<close>.\<close>

definition after_decrement :: "job \<Rightarrow> job" where
  "after_decrement j =
     UpdateStateLocked 0 ((if process_count j = 0 then ZX_JOB_NO_PROCESSES else 0)
                          OR (if job_count j = 0 then ZX_JOB_NO_JOBS else 0))
       (j\<lparr> job_state := (if job_count j = 0 \<and> process_count j = 0 \<and> job_state j = KILLING
                         then DEAD else job_state j) \<rparr>)"

definition halt_if_empty :: "job \<Rightarrow> job_world \<Rightarrow> job_world" where
  "halt_if_empty j w =
     (if job_count j = 0 \<and> process_count j = 0 \<and> job_parent j = None
      then log_event PlatformHalt w else w)"

lemma halt_if_empty_simps [simp]:
  "jw_jobs (halt_if_empty j w) = jw_jobs w" "jw_all_jobs (halt_if_empty j w) = jw_all_jobs w"
  by (simp_all add: halt_if_empty_def)

lemma after_decrement_simps [simp]:
  "obj_koid (after_decrement j) = obj_koid j" "job_parent (after_decrement j) = job_parent j"
  "job_max_height (after_decrement j) = job_max_height j" "job_jobs (after_decrement j) = job_jobs j"
  "job_procs (after_decrement j) = job_procs j" "job_policy (after_decrement j) = job_policy j"
  "process_count (after_decrement j) = process_count j" "job_count (after_decrement j) = job_count j"
  by (simp_all add: after_decrement_def)

lemma UpdateSignalsDecrementLocked_eq:
  "UpdateSignalsDecrementLocked k (set_job k j w) = set_job k (after_decrement j) (halt_if_empty j w)"
  by (simp add: UpdateSignalsDecrementLocked_def after_decrement_def halt_if_empty_def Let_def
      set_job_def log_event_def the_job_def)

lemma remove1_Nil_iff: "x \<in> set xs \<Longrightarrow> length xs \<le> Suc 0 \<longleftrightarrow> remove1 x xs = []"
  using length_remove1 [of x xs] by (auto simp flip: length_0_conv)

lemma job_local_remove:
  assumes "job_local j"
  shows "p \<in> set (job_procs j) \<Longrightarrow> job_local (after_decrement
           (j\<lparr> job_procs := remove1 p (job_procs j), process_count := process_count j - 1 \<rparr>))"
    and "c \<in> set (job_jobs j) \<Longrightarrow> job_local (after_decrement
           (j\<lparr> job_jobs := remove1 c (job_jobs j), job_count := job_count j - 1 \<rparr>))"
  using assms
  by (auto simp: job_local_def after_decrement_def sig_bits length_remove1 remove1_Nil_iff)

lemma RemoveChildProcess_inv:
  assumes "job_inv w" "jw_jobs w k = Some j"
  shows "job_inv (RemoveChildProcess k p w)"
proof (cases "p \<in> set (job_procs j)")
  case True
  have eq: "RemoveChildProcess k p w = UpdateSignalsDecrementLocked k
      (set_job k (j\<lparr> job_procs := remove1 p (job_procs j), process_count := process_count j - 1 \<rparr>) w)"
    using assms(2) True by (simp add: RemoveChildProcess_def)
  show ?thesis
    unfolding eq UpdateSignalsDecrementLocked_eq
    by (rule job_inv_set_job [OF assms refl]) (simp_all add: True job_local_remove(1) flip: One_nat_def)
next
  case False
  then show ?thesis using assms(1,2) by (simp add: RemoveChildProcess_def)
qed

lemma SetBasicPolicy_inv:
  assumes "job_inv w" "jw_jobs w k = Some j"
  shows "job_inv (snd (SetBasicPolicy k mode es w))"
proof (cases "CanSetPolicy j")
  case True
  let ?p = "snd (AddBasicPolicy mode es (job_policy j))"
  have eq: "snd (SetBasicPolicy k mode es w) = set_job k (j\<lparr> job_policy := ?p \<rparr>) w"
    using True assms(2) by (simp add: SetBasicPolicy_def split: prod.split)
  have ok: "cookie_ok (jp_cookie (job_policy j))"
    using job_linksD(2) [OF job_invD(1) [OF assms(1)] assms(2)] by (simp add: job_local_def)
  have slack: "jp_slack ?p = jp_slack (job_policy j)"
    by (simp add: AddBasicPolicy_def split: sum.split)
  show ?thesis
    unfolding eq
    by (rule job_inv_set_job [OF assms(1,2) refl])
      (use True ok slack AddBasicPolicy_keeps_ok [OF ok] AddBasicPolicy_extends [OF ok] in
        \<open>auto simp: job_local_def policy_extends_def CanSetPolicy_def\<close>)
next
  case False
  then show ?thesis using assms by (simp add: SetBasicPolicy_def)
qed

lemma SetTimerSlackPolicy_inv:
  assumes "job_inv w" "jw_jobs w k = Some j"
  shows "job_inv (snd (SetTimerSlackPolicy k pol w))"
proof (cases "snd (SetTimerSlackPolicy k pol w) = w")
  case False
  then have can: "CanSetPolicy j" and pos: "0 \<le> sint (min_slack pol)"
    using assms(2) by (auto simp: SetTimerSlackPolicy_def split: if_splits)
  obtain m where eq: "snd (SetTimerSlackPolicy k pol w) =
      set_job k (j\<lparr> job_policy := SetTimerSlack
        \<lparr> slack_amount = (if sint (slack_amount (jp_slack (job_policy j))) < sint (min_slack pol)
                         then min_slack pol else slack_amount (jp_slack (job_policy j))),
          slack_mode = m \<rparr> (job_policy j) \<rparr>) w"
    using False assms(2)
    by (auto simp: SetTimerSlackPolicy_def Let_def GetTimerSlack_def split: if_splits)
  show ?thesis
    unfolding eq
    by (rule job_inv_set_job [OF assms(1,2) refl])
      (use can pos in \<open>auto simp: job_local_def policy_extends_def CanSetPolicy_def SetTimerSlack_def\<close>)
qed (use assms(1) in simp)

lemma job_inv_log [simp]: "job_inv (w\<lparr> jw_log := l \<rparr>) \<longleftrightarrow> job_inv w"
  by (simp add: job_inv_def)

lemma job_inv_log_event [simp]: "job_inv (log_event e w) \<longleftrightarrow> job_inv w"
  by (simp add: log_event_def)

lemma job_inv_fields:
  assumes "job_inv w" "jw_jobs w k = Some j"
  shows "job_inv (set_job k (j\<lparr> job_exception_port := e \<rparr>) w)"
    "job_inv (set_job k (j\<lparr> job_debugger_exception_port := e \<rparr>) w)"
    "job_inv (set_job k (j\<lparr> kill_on_oom := b \<rparr>) w)"
  by (rule job_inv_set_job [OF assms refl]; simp add: job_local_def)+

lemma SetExceptionPort_inv:
  assumes "job_inv w" "jw_jobs w k = Some j"
  shows "job_inv (snd (SetExceptionPort k e w))"
  using assms by (auto simp: SetExceptionPort_def Let_def intro: job_inv_fields)

lemma ResetExceptionPort_inv:
  assumes "job_inv w" "jw_jobs w k = Some j"
  shows "job_inv (snd (ResetExceptionPort alive alloc k debugger w))"
  using assms
  by (auto simp: ResetExceptionPort_def Let_def intro: job_inv_fields split: option.split)

lemma set_kill_on_oom_inv:
  assumes "job_inv w" "jw_jobs w k = Some j"
  shows "job_inv (set_kill_on_oom k b w)"
  using assms by (simp add: set_kill_on_oom_def job_inv_fields)

section \<open>Creation and destruction\<close>

lemma insert_before_not_Nil [simp]: "insert_before n x xs \<noteq> []"
  by (cases xs) simp_all

lemma set_insert_before [simp]: "set (insert_before n x xs) = insert x (set xs)"
  by (induction xs) auto

lemma distinct_insert_before: "distinct xs \<Longrightarrow> x \<notin> set xs \<Longrightarrow> distinct (insert_before n x xs)"
  by (induction xs) auto

lemma before_set: "before xs a b \<Longrightarrow> a \<in> set xs \<and> b \<in> set xs"
  by (induction xs) auto

lemma before_insert_before: "before xs a b \<Longrightarrow> before (insert_before n x xs) a b"
  by (induction xs) auto

lemma before_insert_self: "n \<in> set xs \<Longrightarrow> before (insert_before n x xs) x n"
  by (induction xs) auto

lemma before_insert_trans: "before xs n p \<Longrightarrow> before (insert_before n x xs) x p"
  by (induction xs) (auto dest: before_set)

lemma before_remove1: "before xs a b \<Longrightarrow> a \<noteq> x \<Longrightarrow> b \<noteq> x \<Longrightarrow> before (remove1 x xs) a b"
  by (induction xs) (auto simp: before_set)

lemma insert_before_last: "xs \<noteq> [] \<Longrightarrow> n \<in> set xs \<Longrightarrow> last (insert_before n x xs) = last xs"
  by (induction xs) auto

lemma new_job_fields [simp]:
  "obj_koid (new_job k p h pol) = k" "job_parent (new_job k p h pol) = p"
  "job_max_height (new_job k p h pol) = h" "job_jobs (new_job k p h pol) = []"
  "job_procs (new_job k p h pol) = []" "job_policy (new_job k p h pol) = pol"
  "job_state (new_job k p h pol) = READY"
  by (simp_all add: new_job_def new_dispatcher_def dispatcher.defs)

lemma job_local_new_job:
  "cookie_ok (jp_cookie pol) \<Longrightarrow> 0 \<le> sint (slack_amount (jp_slack pol)) \<Longrightarrow>
   job_local (new_job k p h pol)"
  by (simp add: job_local_def new_job_def new_dispatcher_def dispatcher.defs sig_bits)

text \<open>Adding a leaf: a fresh job hung under an existing one.\<close>

lemma job_links_add:
  assumes "job_links m" "m p = Some pj" "m k = None" "k \<noteq> p" "job_max_height pj \<noteq> 0"
    "obj_koid pj' = obj_koid pj" "job_local pj'" "job_parent pj' = job_parent pj"
    "job_max_height pj' = job_max_height pj" "job_policy pj' = job_policy pj"
    "job_jobs pj' = job_jobs pj @ [k]"
  shows "job_links (m(k \<mapsto> new_job k (Some p) (job_max_height pj - 1) (job_policy pj), p \<mapsto> pj'))"
    (is "job_links ?m")
proof -
  note inv = job_linksD [OF assms(1)]
  let ?nj = "new_job k (Some p) (job_max_height pj - 1) (job_policy pj)"
  have old: "m i = Some j \<Longrightarrow> job_parent j \<noteq> Some k" for i j
    using inv(4) assms(3) by force
  have "job_local ?nj"
    using inv(2) [OF assms(2)] by (intro job_local_new_job) (simp_all add: job_local_def)
  then have "\<forall>i j. ?m i = Some j \<longrightarrow> obj_koid j = i \<and> job_local j"
    using inv(1,2) assms(2,4,6,7) by (auto split: if_splits)
  moreover have "c \<in> set (job_jobs ij) \<longleftrightarrow> (\<exists>cj. ?m c = Some cj \<and> job_parent cj = Some i)"
    if i: "?m i = Some ij" for i ij c
  proof -
    have "(\<exists>cj. ?m c = Some cj \<and> job_parent cj = Some i) \<longleftrightarrow>
          c = k \<and> i = p \<or> (\<exists>cj. m c = Some cj \<and> job_parent cj = Some i)"
      using assms(2,3,4,8) by auto
    moreover have "c \<in> set (job_jobs ij) \<longleftrightarrow>
          c = k \<and> i = p \<or> (\<exists>cj. m c = Some cj \<and> job_parent cj = Some i)"
      using i inv(3) [of i] assms(2,3,4,11) old by (auto split: if_splits)
    ultimately show ?thesis by simp
  qed
  moreover have "\<exists>qj. ?m q = Some qj \<and> job_edge qj cj"
    if c: "?m c = Some cj" "job_parent cj = Some q" for c cj q
  proof (cases "c = k")
    case True
    with c assms(4,5,9,10) show ?thesis by (auto simp: job_edge_def)
  next
    case False
    obtain cj0 where c0: "m c = Some cj0" "job_parent cj0 = Some q"
      and e0: "\<And>qj. job_edge qj cj0 \<longleftrightarrow> job_edge qj cj"
      using c False assms(2,8,9,10) by (cases "c = p") (auto simp: job_edge_def)
    obtain qj where q: "m q = Some qj" "job_edge qj cj" using inv(4) [OF c0] e0 by blast
    have "q \<noteq> k" using q assms(3) by auto
    with q assms(2,9,10) show ?thesis by (cases "q = p") (auto simp: job_edge_def)
  qed
  ultimately show ?thesis unfolding job_links_def by blast
qed

lemma job_Create_cases:
  assumes "jw_jobs w p = Some pj" "k \<noteq> p"
  shows "job_Create alloc_ok k p w =
     (if job_max_height pj = 0 then (ZX_ERR_OUT_OF_RANGE, w)
      else if \<not> alloc_ok then (ZX_ERR_NO_MEMORY, w)
      else
        let n = (if job_jobs pj \<noteq> [] then last (job_jobs pj) else p);
            v = (set_job k (new_job k (Some p) (job_max_height pj - 1) (job_policy pj)) w)
                  \<lparr> jw_all_jobs := insert_before n k (jw_all_jobs w) \<rparr>
        in if job_state pj = READY
           then (ZX_OK, set_job p (UpdateStateLocked
               ((if process_count pj = 1 then ZX_JOB_NO_PROCESSES else 0)
                OR (if job_count pj = 0 then ZX_JOB_NO_JOBS else 0)) 0
               (pj\<lparr> job_jobs := job_jobs pj @ [k], job_count := Suc (job_count pj) \<rparr>)) v)
           else (ZX_ERR_BAD_STATE, JobDispatcher_dtor k v))"
  using assms
  by (simp add: job_Create_def Create_begin_def Create_link_def JobDispatcher_ctor_def
      AddChildJob_def UpdateSignalsIncrementLocked_def GetPolicy_def the_job_def set_job_def Let_def)

lemma remove1_insert_before: "k \<notin> set xs \<Longrightarrow> n \<noteq> k \<Longrightarrow> remove1 k (insert_before n k xs) = xs"
  by (induction xs) auto

lemma job_world_eqI:
  "jw_jobs w = jw_jobs v \<Longrightarrow> jw_all_jobs w = jw_all_jobs v \<Longrightarrow> jw_log w = jw_log v \<Longrightarrow> w = (v :: job_world)"
  by simp

text \<open>A failed creation leaves nothing behind.\<close>

lemma job_Create_failed:
  assumes "job_inv w" "jw_jobs w p = Some pj" "jw_jobs w k = None"
    "fst (job_Create alloc_ok k p w) \<noteq> ZX_OK"
  shows "snd (job_Create alloc_ok k p w) = w"
proof -
  have kp: "k \<noteq> p" using assms by auto
  have nk: "k \<notin> set (jw_all_jobs w)" using job_invD(3) [OF assms(1)] assms(3) by auto
  have nc: "k \<notin> set (job_jobs pj)"
    using job_linksD(3) [OF job_invD(1) [OF assms(1)] assms(2), of k] assms(3) by simp
  have "last (job_jobs pj) \<noteq> k" if "job_jobs pj \<noteq> []"
    using that nc last_in_set by metis
  then have r: "remove1 k (insert_before (if job_jobs pj \<noteq> [] then last (job_jobs pj) else p) k
      (jw_all_jobs w)) = jw_all_jobs w"
    using nk kp by (intro remove1_insert_before) auto
  show ?thesis
    using assms(3,4) kp nc r
    by (auto simp: job_Create_cases [OF assms(2) kp] Let_def JobDispatcher_dtor_def
        RemoveChildJob_def the_job_def assms(2) fun_upd_idem intro!: job_world_eqI
        split: if_splits)
qed

lemma job_Create_inv:
  assumes "job_inv w" "jw_jobs w p = Some pj" "jw_jobs w k = None"
  shows "job_inv (snd (job_Create alloc_ok k p w))"
proof (cases "fst (job_Create alloc_ok k p w) = ZX_OK")
  case False
  then show ?thesis using job_Create_failed [OF assms] assms(1) by simp
next
  case True
  have kp: "k \<noteq> p" using assms by auto
  note inv = job_invD [OF assms(1)]
  have nk: "k \<notin> set (jw_all_jobs w)" using inv(3) assms(3) by auto
  let ?n = "if job_jobs pj \<noteq> [] then last (job_jobs pj) else p"
  let ?nj = "new_job k (Some p) (job_max_height pj - 1) (job_policy pj)"
  let ?pj = "UpdateStateLocked ((if process_count pj = 1 then ZX_JOB_NO_PROCESSES else 0)
                OR (if job_count pj = 0 then ZX_JOB_NO_JOBS else 0)) 0
               (pj\<lparr> job_jobs := job_jobs pj @ [k], job_count := Suc (job_count pj) \<rparr>)"
  let ?w = "snd (job_Create alloc_ok k p w)"
  from True have ready: "job_state pj = READY" and h: "job_max_height pj \<noteq> 0"
    and jobs: "jw_jobs ?w = (jw_jobs w)(k \<mapsto> ?nj, p \<mapsto> ?pj)"
    and all: "jw_all_jobs ?w = insert_before ?n k (jw_all_jobs w)"
    by (auto simp: job_Create_cases [OF assms(2) kp] Let_def split: if_splits)
  have l: "job_local pj" using job_linksD(2) [OF inv(1) assms(2)] .
  have nc: "k \<notin> set (job_jobs pj)" using job_linksD(3) [OF inv(1) assms(2), of k] assms(3) by simp
  have links: "job_links (jw_jobs ?w)"
    unfolding jobs
    by (rule job_links_add [OF inv(1) assms(2,3) kp h])
      (use l nc ready in \<open>auto simp: job_local_def sig_bits\<close>)
  have "before (jw_all_jobs w) (last (job_jobs pj)) p" if "job_jobs pj \<noteq> []"
    using job_linksD(3) [OF inv(1) assms(2), of "last (job_jobs pj)"] that inv(4) by auto
  moreover have "p \<in> set (jw_all_jobs w)" using inv(3) assms(2) by auto
  ultimately have first: "before (jw_all_jobs ?w) k p"
    unfolding all by (auto intro: before_insert_trans before_insert_self)
  have "before (jw_all_jobs ?w) c q" if "jw_jobs ?w c = Some cj" "job_parent cj = Some q" for c cj q
    using that first inv(4) [of c _ q] assms(2) before_insert_before
    unfolding jobs all by (auto split: if_splits)
  then show ?thesis
    using links distinct_insert_before [OF inv(2) nk] inv(3) assms(2)
    unfolding job_inv_def all jobs by auto
qed

text \<open>Removing a leaf.\<close>

lemma job_links_remove:
  assumes "job_links m" "m k = Some j" "job_jobs j = []"
  shows "job_parent j = None \<Longrightarrow> job_links (m(k := None))"
    and "job_parent j = Some p \<Longrightarrow> m p = Some pj \<Longrightarrow> obj_koid pj' = obj_koid pj \<Longrightarrow> job_local pj' \<Longrightarrow>
      job_parent pj' = job_parent pj \<Longrightarrow> job_max_height pj' = job_max_height pj \<Longrightarrow>
      job_policy pj' = job_policy pj \<Longrightarrow> job_jobs pj' = remove1 k (job_jobs pj) \<Longrightarrow> p \<noteq> k \<Longrightarrow>
      job_links (m(p \<mapsto> pj', k := None))"
proof -
  note inv = job_linksD [OF assms(1)]
  have kids: "m c = Some cj \<Longrightarrow> job_parent cj \<noteq> Some k" for c cj
    using inv(3) [OF assms(2), of c] assms(3) by auto
  show "job_links (m(k := None))" if root: "job_parent j = None"
  proof -
    have "c \<in> set (job_jobs ij) \<longleftrightarrow> (\<exists>cj. (m(k := None)) c = Some cj \<and> job_parent cj = Some i)"
      if i: "(m(k := None)) i = Some ij" for i ij c
    proof -
      have i0: "m i = Some ij" using i by (auto split: if_splits)
      have "k \<notin> set (job_jobs ij)" using inv(3) [OF i0, of k] assms(2) root by simp
      then show ?thesis using inv(3) [OF i0, of c] by (cases "c = k") simp_all
    qed
    moreover have "\<exists>qj. (m(k := None)) q = Some qj \<and> job_edge qj cj"
      if c: "(m(k := None)) c = Some cj" "job_parent cj = Some q" for c cj q
    proof -
      have c0: "m c = Some cj" using c(1) by (auto split: if_splits)
      have "q \<noteq> k" using kids [OF c0] c(2) by auto
      then show ?thesis using inv(4) [OF c0 c(2)] by simp
    qed
    moreover have "\<forall>i ij. (m(k := None)) i = Some ij \<longrightarrow> obj_koid ij = i \<and> job_local ij"
      using inv(1,2) by simp
    ultimately show ?thesis unfolding job_links_def by blast
  qed
  show "job_links (m(p \<mapsto> pj', k := None))" (is "job_links ?m")
    if par: "job_parent j = Some p" and p: "m p = Some pj" and "obj_koid pj' = obj_koid pj"
      "job_local pj'" and same: "job_parent pj' = job_parent pj"
      "job_max_height pj' = job_max_height pj" "job_policy pj' = job_policy pj"
      and rem: "job_jobs pj' = remove1 k (job_jobs pj)" and "p \<noteq> k"
  proof -
    have d: "distinct (job_jobs pj)" using inv(2) [OF p] by (simp add: job_local_def)
    have "c \<in> set (job_jobs ij) \<longleftrightarrow> (\<exists>cj. ?m c = Some cj \<and> job_parent cj = Some i)"
      if i: "?m i = Some ij" for i ij c
    proof -
      obtain ij0 where i0: "m i = Some ij0" "set (job_jobs ij) = set (job_jobs ij0) - {k}"
      proof (cases "i = p")
        case True
        then show ?thesis using that [of pj] i p rem d \<open>p \<noteq> k\<close> by simp
      next
        case False
        then have "m i = Some ij" using i by (simp split: if_splits)
        moreover have "k \<notin> set (job_jobs ij)"
          using inv(3) [OF \<open>m i = Some ij\<close>, of k] assms(2) par False by simp
        ultimately show ?thesis using that [of ij] by simp
      qed
      have "(\<exists>cj. ?m c = Some cj \<and> job_parent cj = Some i) \<longleftrightarrow>
         c \<noteq> k \<and> (\<exists>cj. m c = Some cj \<and> job_parent cj = Some i)"
        using p same(1) by simp
      then show ?thesis using inv(3) [OF i0(1), of c] i0(2) by (simp add: conj_commute)
    qed
    moreover have "\<exists>qj. ?m q = Some qj \<and> job_edge qj cj"
      if c: "?m c = Some cj" "job_parent cj = Some q" for c cj q
    proof -
      obtain cj0 where c0: "m c = Some cj0" "job_parent cj0 = Some q"
        and e0: "\<And>qj. job_edge qj cj0 \<longleftrightarrow> job_edge qj cj"
        using c p same by (cases "c = p") (auto simp: job_edge_def split: if_splits)
      obtain qj where q: "m q = Some qj" "job_edge qj cj" using inv(4) [OF c0] e0 by blast
      have "q \<noteq> k" using kids c0 by auto
      with q p same show ?thesis by (cases "q = p") (auto simp: job_edge_def)
    qed
    moreover have "\<forall>i ij. ?m i = Some ij \<longrightarrow> obj_koid ij = i \<and> job_local ij"
      using that inv(1,2) by auto
    ultimately show ?thesis unfolding job_links_def by blast
  qed
qed

lemma JobDispatcher_dtor_inv:
  assumes "job_inv w" "jw_jobs w k = Some j" "job_jobs j = []"
  shows "job_inv (JobDispatcher_dtor k w)"
proof -
  note inv = job_invD [OF assms(1)]
  note links = job_linksD [OF inv(1)]
  have kids: "jw_jobs w c = Some cj \<Longrightarrow> job_parent cj \<noteq> Some k" for c cj
    using links(3) [OF assms(2), of c] assms(3) by auto
  obtain m where m: "jw_jobs (JobDispatcher_dtor k w) = m(k := None)"
    and all: "jw_all_jobs (JobDispatcher_dtor k w) = remove1 k (jw_all_jobs w)"
    and par: "\<forall>c. map_option job_parent (m c) = map_option job_parent (jw_jobs w c)"
    and ok: "job_links (m(k := None))"
  proof (cases "job_parent j")
    case None
    with assms job_links_remove(1) [OF inv(1) assms(2,3)] show ?thesis
      using that [of "jw_jobs w"] by (simp add: JobDispatcher_dtor_def)
  next
    case (Some p)
    then obtain pj where p: "jw_jobs w p = Some pj" using links(4) [OF assms(2)] by blast
    have pk: "p \<noteq> k" using kids [OF assms(2)] Some by auto
    have kin: "k \<in> set (job_jobs pj)" using links(3) [OF p] assms(2) Some by blast
    let ?pj0 = "pj\<lparr> job_jobs := remove1 k (job_jobs pj), job_count := job_count pj - 1 \<rparr>"
    have r: "RemoveChildJob p k w = set_job p (after_decrement ?pj0) (halt_if_empty ?pj0 w)"
      using p kin by (simp add: RemoveChildJob_def UpdateSignalsDecrementLocked_eq)
    have "job_links ((jw_jobs w)(p \<mapsto> after_decrement ?pj0, k := None))"
      by (rule job_links_remove(2) [OF inv(1) assms(2,3) Some p])
        (simp_all add: pk job_local_remove(2) [OF links(2) [OF p] kin, unfolded One_nat_def])
    with that [of "(jw_jobs w)(p \<mapsto> after_decrement ?pj0)"] r Some assms(2) p show ?thesis
      by (simp add: JobDispatcher_dtor_def)
  qed
  have "before (remove1 k (jw_all_jobs w)) c p" if asm: "(m(k := None)) c = Some cj" "job_parent cj = Some p"
    for c cj p
  proof -
    have ck: "c \<noteq> k" and "m c = Some cj" using asm(1) by (auto split: if_splits)
    then obtain cj0 where c0: "jw_jobs w c = Some cj0" "job_parent cj0 = Some p"
      using par asm(2) by (metis (no_types, lifting) map_option_eq_Some)
    have "p \<noteq> k" using kids c0 by auto
    with ck inv(4) [OF c0] show ?thesis by (simp add: before_remove1)
  qed
  moreover have "dom m = dom (jw_jobs w)"
    using par by (metis (no_types, lifting) domIff map_option_is_None subsetI subset_antisym)
  ultimately show ?thesis
    using ok inv(2,3) unfolding job_inv_def m all by auto
qed

section \<open>Kill\<close>

text \<open>All that \<^verbatim>\<open>Kill\<close> does to the jobs: some that were ready are being killed.\<close>

definition kill_rel :: "job_world \<Rightarrow> job_world \<Rightarrow> bool" where
  "kill_rel w v \<longleftrightarrow>
     jw_all_jobs v = jw_all_jobs w \<and> set (jw_log w) \<subseteq> set (jw_log v) \<and>
     (\<forall>k. jw_jobs v k = jw_jobs w k \<or>
        (\<exists>j. jw_jobs w k = Some j \<and> job_state j = READY \<and>
             jw_jobs v k = Some (j\<lparr> job_state := KILLING \<rparr>)))"

lemma kill_rel_refl [simp]: "kill_rel w w"
  by (simp add: kill_rel_def)

lemma kill_relD:
  "kill_rel w v \<Longrightarrow> jw_jobs v k = jw_jobs w k \<or>
     (\<exists>j. jw_jobs w k = Some j \<and> job_state j = READY \<and>
          jw_jobs v k = Some (j\<lparr> job_state := KILLING \<rparr>))"
  by (simp add: kill_rel_def)

lemma kill_rel_trans:
  assumes "kill_rel w v" "kill_rel v u"
  shows "kill_rel w u"
proof -
  have "jw_jobs u k = jw_jobs w k \<or>
     (\<exists>j. jw_jobs w k = Some j \<and> job_state j = READY \<and>
          jw_jobs u k = Some (j\<lparr> job_state := KILLING \<rparr>))" for k
    using kill_relD [OF assms(1), of k]
  proof
    assume "jw_jobs v k = jw_jobs w k"
    with kill_relD [OF assms(2), of k] show ?thesis by simp
  next
    assume "\<exists>j. jw_jobs w k = Some j \<and> job_state j = READY \<and>
          jw_jobs v k = Some (j\<lparr> job_state := KILLING \<rparr>)"
    with kill_relD [OF assms(2), of k] show ?thesis by fastforce
  qed
  with assms show ?thesis unfolding kill_rel_def by auto
qed

text \<open>Everything but the state is as before.\<close>

lemma kill_rel_job:
  assumes "kill_rel w v" "jw_jobs w k = Some j"
  obtains s where "jw_jobs v k = Some (j\<lparr> job_state := s \<rparr>)" "s = job_state j \<or> s = KILLING"
    "job_state j \<noteq> READY \<Longrightarrow> s = job_state j"
  using kill_relD [OF assms(1), of k] assms(2) that [of "job_state j"] that [of KILLING] by auto

lemma kill_rel_job_back:
  assumes "kill_rel w v" "jw_jobs v k = Some j'"
  obtains j where "jw_jobs w k = Some j" "j' = j\<lparr> job_state := job_state j' \<rparr>"
    "job_state j' = job_state j \<or> job_state j' = KILLING"
proof (cases "jw_jobs v k = jw_jobs w k")
  case True
  then show ?thesis using that [of j'] assms(2) by simp
next
  case False
  then show ?thesis using kill_relD [OF assms(1), of k] assms(2) that by auto
qed

lemma job_links_kill_rel:
  assumes "job_links (jw_jobs w)" "kill_rel w v"
  shows "job_links (jw_jobs v)"
proof -
  note inv = job_linksD [OF assms(1)]
  note origin = kill_rel_job_back [OF assms(2)]
  have loc: "obj_koid j' = k \<and> job_local j'" if j': "jw_jobs v k = Some j'" for k j'
  proof -
    obtain j where j: "jw_jobs w k = Some j" "j' = j\<lparr> job_state := job_state j' \<rparr>"
      "job_state j' = job_state j \<or> job_state j' = KILLING" using origin [OF j'] by metis
    from inv(1,2) [OF j(1)] j(3) have "obj_koid (j\<lparr> job_state := job_state j' \<rparr>) = k
        \<and> job_local (j\<lparr> job_state := job_state j' \<rparr>)"
      by (auto simp: job_local_def)
    with j(2) show ?thesis by simp
  qed
  have par: "(\<exists>cj. jw_jobs v c = Some cj \<and> job_parent cj = Some p) \<longleftrightarrow>
             (\<exists>cj. jw_jobs w c = Some cj \<and> job_parent cj = Some p)" for c p
    using kill_relD [OF assms(2), of c] by (elim disjE) (simp, auto)
  have kids: "c \<in> set (job_jobs pj) \<longleftrightarrow> (\<exists>cj. jw_jobs v c = Some cj \<and> job_parent cj = Some p)"
    if "jw_jobs v p = Some pj" for p pj c
    unfolding par using kill_relD [OF assms(2), of p] that inv(3) [of p _ c] by (elim disjE) (simp, auto)
  have edge: "\<exists>pj. jw_jobs v p = Some pj \<and> job_edge pj cj"
    if asm: "jw_jobs v c = Some cj" "job_parent cj = Some p" for c cj p
  proof -
    obtain cj0 where c0: "jw_jobs w c = Some cj0" "job_parent cj0 = Some p"
      and e: "\<And>pj. job_edge pj cj \<longleftrightarrow> job_edge pj cj0"
      using kill_relD [OF assms(2), of c] asm by (elim disjE) (simp, auto simp: job_edge_def)
    obtain pj where "jw_jobs w p = Some pj" "job_edge pj cj0" using inv(4) [OF c0] by blast
    then show ?thesis
      using kill_relD [OF assms(2), of p] unfolding e by (elim disjE) (simp, auto simp: job_edge_def)
  qed
  show ?thesis unfolding job_links_def using loc kids edge by blast
qed

lemma job_inv_kill_rel:
  assumes "job_inv w" "kill_rel w v"
  shows "job_inv v"
proof -
  note inv = job_invD [OF assms(1)]
  have all: "jw_all_jobs v = jw_all_jobs w" using assms(2) by (simp add: kill_rel_def)
  have "dom (jw_jobs v) = dom (jw_jobs w)"
    using kill_relD [OF assms(2)] by (auto simp: dom_def) (metis option.distinct(1))+
  moreover have "before (jw_all_jobs w) c p" if "jw_jobs v c = Some cj" "job_parent cj = Some p" for c cj p
    using kill_relD [OF assms(2), of c] inv(4) [of c _ p] that by (elim disjE) (simp, auto)
  ultimately show ?thesis
    using job_links_kill_rel [OF inv(1) assms(2)] inv(2,3) unfolding job_inv_def all by blast
qed

text \<open>
  The jobs a kill reaches: through ready jobs along live children.  A kill is complete when no
  live child of a killed job is still ready and every live process of it has been killed.
\<close>

inductive kill_reach :: "(zx_koid_t \<Rightarrow> bool) \<Rightarrow> job_world \<Rightarrow> zx_koid_t \<Rightarrow> zx_koid_t \<Rightarrow> bool"
  for alive w where
  kill_reach_self: "jw_jobs w k = Some j \<Longrightarrow> job_state j = READY \<Longrightarrow> kill_reach alive w k k"
| kill_reach_child: "jw_jobs w k = Some j \<Longrightarrow> job_state j = READY \<Longrightarrow> c \<in> set (job_jobs j) \<Longrightarrow> alive c \<Longrightarrow>
     kill_reach alive w c d \<Longrightarrow> kill_reach alive w k d"

definition not_ready :: "job_world \<Rightarrow> zx_koid_t \<Rightarrow> bool" where
  "not_ready w k \<longleftrightarrow> job_state (the_job w k) \<noteq> READY"

definition kill_complete :: "(zx_koid_t \<Rightarrow> bool) \<Rightarrow> job_world \<Rightarrow> job_world \<Rightarrow> bool" where
  "kill_complete alive w v \<longleftrightarrow>
     (\<forall>x j. jw_jobs w x = Some j \<longrightarrow> job_state j = READY \<longrightarrow> not_ready v x \<longrightarrow>
        (\<forall>c \<in> set (job_jobs j). alive c \<longrightarrow> not_ready v c) \<and>
        (\<forall>p \<in> set (job_procs j). alive p \<longrightarrow> ProcessKill p \<in> set (jw_log v)))"

lemma for_each_live_gather:
  "snd (for_each_live alive (\<lambda>c acc. (ZX_OK, c # acc)) cs res acc) = rev (filter alive cs) @ acc"
  by (induction cs arbitrary: acc res) simp_all

lemma gather_eq: "n = length cs \<Longrightarrow> gather alive True n cs = rev (filter alive cs)"
  by (auto simp: gather_def ForEachChildInLocked_def for_each_live_gather)

lemma kill_rel_ready:
  assumes "kill_rel w v" "jw_jobs v k = Some j" "job_state j = READY"
  shows "jw_jobs w k = Some j"
  using kill_relD [OF assms(1), of k] assms(2,3) by (elim disjE) (simp, auto)

lemma not_ready_stable:
  assumes "kill_rel w v" "not_ready w k"
  shows "not_ready v k"
  using kill_relD [OF assms(1), of k] assms(2) unfolding not_ready_def the_job_def by auto

lemma kill_reach_mono:
  assumes "kill_reach alive v k d" "kill_rel w v"
  shows "kill_reach alive w k d"
  using assms(1)
  by induction (use kill_rel_ready [OF assms(2)] in \<open>auto intro: kill_reach.intros\<close>)

lemma kill_complete_trans:
  assumes "kill_rel w v" "kill_rel v u" "kill_complete alive w v" "kill_complete alive v u"
  shows "kill_complete alive w u"
  unfolding kill_complete_def
proof (intro allI impI)
  fix x j
  assume x: "jw_jobs w x = Some j" "job_state j = READY" "not_ready u x"
  have log: "set (jw_log v) \<subseteq> set (jw_log u)" using assms(2) by (simp add: kill_rel_def)
  show "(\<forall>c \<in> set (job_jobs j). alive c \<longrightarrow> not_ready u c) \<and>
        (\<forall>p \<in> set (job_procs j). alive p \<longrightarrow> ProcessKill p \<in> set (jw_log u))"
  proof (cases "not_ready v x")
    case True
    with x assms(3) have "\<forall>c \<in> set (job_jobs j). alive c \<longrightarrow> not_ready v c"
      "\<forall>p \<in> set (job_procs j). alive p \<longrightarrow> ProcessKill p \<in> set (jw_log v)"
      unfolding kill_complete_def by blast+
    with log not_ready_stable [OF assms(2)] show ?thesis by blast
  next
    case False
    then have "jw_jobs v x = Some j"
      using kill_relD [OF assms(1), of x] x unfolding not_ready_def the_job_def by auto
    with x assms(4) show ?thesis unfolding kill_complete_def by blast
  qed
qed

definition kill_post :: "(zx_koid_t \<Rightarrow> bool) \<Rightarrow> job_world \<Rightarrow> zx_koid_t set \<Rightarrow> job_world \<Rightarrow> bool" where
  "kill_post alive w ks v \<longleftrightarrow>
     kill_rel w v \<and> kill_complete alive w v \<and> (\<forall>k \<in> ks. not_ready v k) \<and>
     (\<forall>x. \<not> not_ready w x \<longrightarrow> not_ready v x \<longrightarrow> (\<exists>k \<in> ks. kill_reach alive w k x))"

lemma kill_post_empty: "kill_post alive w {} w"
  by (auto simp: kill_post_def kill_complete_def not_ready_def)

lemma kill_post_insert:
  assumes "kill_post alive w {k} v" "kill_post alive v ks u"
  shows "kill_post alive w (insert k ks) u"
proof -
  have r: "kill_rel w v" "kill_rel v u" using assms by (simp_all add: kill_post_def)
  have "not_ready u k" using assms not_ready_stable [OF r(2)] by (simp add: kill_post_def)
  moreover have "\<exists>k' \<in> insert k ks. kill_reach alive w k' x" if "\<not> not_ready w x" "not_ready u x" for x
  proof (cases "not_ready v x")
    case True
    with that assms(1) show ?thesis by (auto simp: kill_post_def)
  next
    case False
    with that assms(2) obtain k' where "k' \<in> ks" "kill_reach alive v k' x"
      by (auto simp: kill_post_def)
    with kill_reach_mono [OF _ r(1)] show ?thesis by blast
  qed
  ultimately show ?thesis
    using assms kill_rel_trans [OF r] kill_complete_trans [OF r] by (simp add: kill_post_def)
qed

text \<open>The loop over the child jobs, given that killing each of them returns.\<close>

definition kill_loop ::
  "nat \<Rightarrow> (zx_koid_t \<Rightarrow> bool) \<Rightarrow> (zx_koid_t \<Rightarrow> bool \<times> bool) \<Rightarrow> zx_koid_t list \<Rightarrow> job_world option
   \<Rightarrow> job_world option" where
  "kill_loop depth alive alloc cs ow =
     foldl (\<lambda>ow c. case ow of None \<Rightarrow> None
                   | Some v \<Rightarrow> map_option snd (kill_upto depth alive alloc c v)) ow cs"

definition below :: "nat \<Rightarrow> job_world \<Rightarrow> zx_koid_t \<Rightarrow> bool" where
  "below n w c \<longleftrightarrow> (\<exists>j. jw_jobs w c = Some j \<and> job_max_height j < n)"

lemma below_kill_rel:
  assumes "kill_rel w v" "below n w c"
  shows "below n v c"
  using kill_relD [OF assms(1), of c] assms(2) unfolding below_def by auto

lemma kill_loop_post:
  assumes IH: "\<And>v c. job_links (jw_jobs v) \<Longrightarrow> below depth v c \<Longrightarrow>
      \<exists>b u. kill_upto depth alive alloc c v = Some (b, u) \<and> kill_post alive v {c} u"
    and "job_links (jw_jobs v)" "\<forall>c \<in> set cs. below depth v c"
  shows "\<exists>u. kill_loop depth alive alloc cs (Some v) = Some u \<and> kill_post alive v (set cs) u"
  using assms(2,3)
proof (induction cs arbitrary: v)
  case Nil
  then show ?case by (simp add: kill_loop_def kill_post_empty)
next
  case (Cons c cs)
  obtain b v1 where v1: "kill_upto depth alive alloc c v = Some (b, v1)" "kill_post alive v {c} v1"
    using IH [OF Cons.prems(1), of c] Cons.prems(2) by auto
  then have rel: "kill_rel v v1" by (simp add: kill_post_def)
  obtain u where u: "kill_loop depth alive alloc cs (Some v1) = Some u" "kill_post alive v1 (set cs) u"
    using Cons.IH [OF job_links_kill_rel [OF Cons.prems(1) rel]] Cons.prems(2) below_kill_rel [OF rel]
    by auto
  have "kill_loop depth alive alloc (c # cs) (Some v) = Some u"
    using v1(1) u(1) by (simp add: kill_loop_def)
  with kill_post_insert [OF v1(2) u(2)] show ?case by simp
qed

text \<open>Marking the job, the loop over its child jobs and the calls on its processes together.\<close>

lemma kill_post_step:
  assumes j: "jw_jobs w k = Some j" "job_state j = READY"
    and post: "kill_post alive (set_job k (j\<lparr> job_state := KILLING \<rparr>) w)
                 {c \<in> set (job_jobs j). alive c} u"
    and v: "jw_jobs v = jw_jobs u" "jw_all_jobs v = jw_all_jobs u" "set (jw_log u) \<subseteq> set (jw_log v)"
      "\<forall>p \<in> set (job_procs j). alive p \<longrightarrow> ProcessKill p \<in> set (jw_log v)"
  shows "kill_post alive w {k} v"
proof -
  let ?w1 = "set_job k (j\<lparr> job_state := KILLING \<rparr>) w"
  have rel1: "kill_rel w ?w1" using j by (auto simp: kill_rel_def)
  have rel2: "kill_rel ?w1 u" and comp: "kill_complete alive ?w1 u"
    and kids: "c \<in> set (job_jobs j) \<Longrightarrow> alive c \<Longrightarrow> not_ready u c" for c
    using post by (simp_all add: kill_post_def)
  have rel3: "kill_rel u v" using v by (simp add: kill_rel_def)
  have nr: "not_ready v x \<longleftrightarrow> not_ready u x" for x by (simp add: not_ready_def the_job_def v(1))
  have "not_ready ?w1 k" by (simp add: not_ready_def)
  then have k: "not_ready v k" unfolding nr by (rule not_ready_stable [OF rel2])
  have old: "jw_jobs ?w1 x = jw_jobs w x" if "x \<noteq> k" for x using that by simp
  have "(\<forall>c \<in> set (job_jobs xj). alive c \<longrightarrow> not_ready v c) \<and>
        (\<forall>p \<in> set (job_procs xj). alive p \<longrightarrow> ProcessKill p \<in> set (jw_log v))"
    if x: "jw_jobs w x = Some xj" "job_state xj = READY" "not_ready v x" for x xj
  proof (cases "x = k")
    case True
    with x j kids v(4) show ?thesis by (auto simp: nr)
  next
    case False
    then have "jw_jobs ?w1 x = Some xj" using x(1) by simp
    with x comp v(3) show ?thesis unfolding kill_complete_def nr by blast
  qed
  then have "kill_complete alive w v" by (simp add: kill_complete_def)
  moreover have "kill_reach alive w k x" if x: "\<not> not_ready w x" "not_ready v x" for x
  proof (cases "x = k")
    case True
    with j show ?thesis by (auto intro: kill_reach_self)
  next
    case False
    then have "\<not> not_ready ?w1 x" using x(1) by (simp add: not_ready_def)
    with x post obtain c where "c \<in> set (job_jobs j)" "alive c" "kill_reach alive ?w1 c x"
      by (auto simp: kill_post_def nr)
    with j show ?thesis by (blast intro: kill_reach_child kill_reach_mono [OF _ rel1])
  qed
  ultimately show ?thesis
    using k kill_rel_trans [OF kill_rel_trans [OF rel1 rel2] rel3] by (simp add: kill_post_def)
qed

lemma kill_log_fold:
  "jw_jobs (foldl (\<lambda>v p. log_event (ProcessKill p) v) v ps) = jw_jobs v"
  "jw_all_jobs (foldl (\<lambda>v p. log_event (ProcessKill p) v) v ps) = jw_all_jobs v"
  "jw_log (foldl (\<lambda>v p. log_event (ProcessKill p) v) v ps) = jw_log v @ map ProcessKill ps"
  by (induction ps arbitrary: v) simp_all

lemma kill_upto_post:
  assumes "\<forall>k. alloc k = (True, True)" "job_links (jw_jobs w)" "below depth w k"
  shows "\<exists>b u. kill_upto depth alive alloc k w = Some (b, u) \<and> kill_post alive w {k} u
               \<and> b = (\<not> not_ready w k)"
  using assms(2,3)
proof (induction depth arbitrary: k w)
  case 0
  then show ?case by (simp add: below_def)
next
  case (Suc depth)
  obtain j where j: "jw_jobs w k = Some j" "job_max_height j < Suc depth"
    using Suc.prems(2) by (auto simp: below_def)
  note inv = job_linksD [OF Suc.prems(1)]
  show ?case
  proof (cases "job_state j = READY")
    case False
    then show ?thesis
      using j by (auto simp: kill_post_def not_ready_def kill_complete_def)
  next
    case True
    have loc: "process_count j = length (job_procs j)" "job_count j = length (job_jobs j)"
      using inv(2) [OF j(1)] by (simp_all add: job_local_def)
    let ?w1 = "set_job k (j\<lparr> job_state := KILLING \<rparr>) w"
    let ?cs = "rev (filter alive (job_jobs j))" and ?ps = "rev (filter alive (job_procs j))"
    have rel1: "kill_rel w ?w1" using j(1) True by (auto simp: kill_rel_def)
    have links1: "job_links (jw_jobs ?w1)" by (rule job_links_kill_rel [OF Suc.prems(1) rel1])
    have "below depth w c" if "c \<in> set (job_jobs j)" for c
      using inv(3) [OF j(1), of c] inv(4) [of c _ k] that j by (fastforce simp: below_def job_edge_def)
    then have "\<forall>c \<in> set ?cs. below depth ?w1 c" using below_kill_rel [OF rel1] by simp
    from kill_loop_post [OF _ links1 this, of alive alloc] Suc.IH
    obtain u where u: "kill_loop depth alive alloc ?cs (Some ?w1) = Some u"
      "kill_post alive ?w1 (set ?cs) u" by blast
    let ?v = "foldl (\<lambda>v p. log_event (ProcessKill p) v) u ?ps"
    have run: "kill_upto (Suc depth) alive alloc k w = Some (True, ?v)"
      using j(1) True u(1) assms(1) loc by (simp add: kill_loop_def gather_eq)
    have "kill_post alive w {k} ?v"
      by (rule kill_post_step [OF j(1) True, of alive u])
        (use u(2) in \<open>auto simp: kill_log_fold\<close>)
    with j(1) True show ?thesis unfolding run by (auto simp: not_ready_def)
  qed
qed


lemma kill_reach_killed:
  assumes "kill_reach alive w k d" "kill_complete alive w v" "kill_rel w v" "not_ready v k"
  shows "job_state (the_job v d) = KILLING \<and>
    (\<forall>p \<in> set (job_procs (the_job w d)). alive p \<longrightarrow> ProcessKill p \<in> set (jw_log v))"
  using assms(1,4)
proof induction
  case (kill_reach_self k j)
  then show ?case
    using assms(2) kill_relD [OF assms(3), of k]
    unfolding kill_complete_def not_ready_def the_job_def by auto
next
  case (kill_reach_child k j c d)
  then have "not_ready v c" using assms(2) unfolding kill_complete_def by blast
  then show ?case by (rule kill_reach_child.IH)
qed

section \<open>Reachable job trees\<close>

text \<open>
  The operations of the component, each atomic under the locks it takes.  A destructor runs only
  when no job refers to the object as its parent, and a process is linked to one job at a time.
\<close>

inductive job_step :: "job_world \<Rightarrow> job_world \<Rightarrow> bool" where
  step_create: "jw_jobs w p = Some pj \<Longrightarrow> jw_jobs w k = None \<Longrightarrow>
     job_step w (snd (job_Create alloc_ok k p w))"
| step_destroy: "jw_jobs w k = Some j \<Longrightarrow> job_jobs j = [] \<Longrightarrow> job_step w (JobDispatcher_dtor k w)"
| step_add_process: "jw_jobs w k = Some j \<Longrightarrow> p \<notin> set (job_procs j) \<Longrightarrow>
     job_step w (snd (AddChildProcess k p w))"
| step_remove_process: "jw_jobs w k = Some j \<Longrightarrow> job_step w (RemoveChildProcess k p w)"
| step_basic_policy: "jw_jobs w k = Some j \<Longrightarrow> job_step w (snd (SetBasicPolicy k mode es w))"
| step_slack_policy: "jw_jobs w k = Some j \<Longrightarrow> job_step w (snd (SetTimerSlackPolicy k pol w))"
| step_kill: "jw_jobs w k = Some j \<Longrightarrow> job_Kill alive alloc k w = Some (b, v) \<Longrightarrow> job_step w v"
| step_set_port: "jw_jobs w k = Some j \<Longrightarrow> job_step w (snd (SetExceptionPort k e w))"
| step_reset_port: "jw_jobs w k = Some j \<Longrightarrow>
     job_step w (snd (ResetExceptionPort alive alloc k debugger w))"
| step_oom: "jw_jobs w k = Some j \<Longrightarrow> job_step w (set_kill_on_oom k value w)"

inductive job_reachable :: "job_world \<Rightarrow> bool" where
  reach_root: "job_reachable (snd (CreateRootJob alloc_ok k job_world_init))"
| reach_step: "job_reachable w \<Longrightarrow> job_step w v \<Longrightarrow> job_reachable v"

lemma gather_subset: "set (gather alive alloc_ok n cs) \<subseteq> set cs"
  by (auto simp: gather_def ForEachChildInLocked_def for_each_live_gather)

lemma kill_log_fold_rel: "kill_rel v (foldl (\<lambda>v p. log_event (ProcessKill p) v) v ps)"
  by (auto simp: kill_rel_def kill_log_fold)

lemma kill_loop_None [simp]: "kill_loop depth alive alloc cs None = None"
  by (induction cs) (simp_all add: kill_loop_def)

lemma kill_loop_Nil [simp]: "kill_loop depth alive alloc [] ow = ow"
  by (simp add: kill_loop_def)

lemma kill_loop_Cons:
  "kill_loop depth alive alloc (c # cs) (Some v) =
     kill_loop depth alive alloc cs (map_option snd (kill_upto depth alive alloc c v))"
  by (simp add: kill_loop_def)

lemma kill_loop_rel:
  assumes IH: "\<And>k w b v j. kill_upto depth alive alloc k w = Some (b, v) \<Longrightarrow> jw_jobs w k = Some j \<Longrightarrow>
       job_links (jw_jobs w) \<Longrightarrow> kill_rel w v"
    and "kill_loop depth alive alloc cs (Some w) = Some u" "job_links (jw_jobs w)"
      "\<forall>c \<in> set cs. jw_jobs w c \<noteq> None"
  shows "kill_rel w u"
  using assms(2-4)
proof (induction cs arbitrary: w)
  case (Cons c cs)
  then obtain b1 w2 where k: "kill_upto depth alive alloc c w = Some (b1, w2)"
    by (cases "kill_upto depth alive alloc c w") (auto simp: kill_loop_Cons)
  obtain cj where cj: "jw_jobs w c = Some cj" using Cons.prems(3) by auto
  have r: "kill_rel w w2" by (rule IH [OF k cj Cons.prems(2)])
  have "jw_jobs w2 d \<noteq> None" if "d \<in> set cs" for d
    using kill_relD [OF r, of d] Cons.prems(3) that by auto
  then have "kill_rel w2 u"
    using Cons.IH [of w2] Cons.prems(1) k job_links_kill_rel [OF Cons.prems(2) r]
    by (simp add: kill_loop_Cons)
  with r show ?case by (rule kill_rel_trans)
qed simp

lemma kill_upto_rel:
  "kill_upto depth alive alloc k w = Some (b, v) \<Longrightarrow> jw_jobs w k = Some j \<Longrightarrow>
   job_links (jw_jobs w) \<Longrightarrow> kill_rel w v"
proof (induction depth arbitrary: k w b v j)
  case (Suc depth)
  show ?case
  proof (cases "job_state j = READY")
    case True
    let ?w1 = "set_job k (j\<lparr> job_state := KILLING \<rparr>) w"
    let ?cs = "gather alive (fst (alloc k)) (job_count j) (job_jobs j)"
    have rel1: "kill_rel w ?w1" using Suc.prems(2) True by (auto simp: kill_rel_def)
    have kids: "\<forall>c \<in> set ?cs. jw_jobs ?w1 c \<noteq> None"
    proof
      fix c
      assume "c \<in> set ?cs"
      then have "c \<in> set (job_jobs j)" using gather_subset by blast
      then show "jw_jobs ?w1 c \<noteq> None" using job_linksD(3) [OF Suc.prems(3,2), of c] by auto
    qed
    obtain u where u: "kill_loop depth alive alloc ?cs (Some ?w1) = Some u"
      "v = foldl (\<lambda>v p. log_event (ProcessKill p) v) u
             (gather alive (snd (alloc k)) (process_count j) (job_procs j))"
      using Suc.prems(1,2) True by (auto simp: kill_loop_def)
    have "kill_rel ?w1 u"
      by (rule kill_loop_rel [OF Suc.IH u(1) job_links_kill_rel [OF Suc.prems(3) rel1] kids])
    then show ?thesis
      unfolding u(2) by (blast intro: kill_rel_trans rel1 kill_log_fold_rel)
  next
    case False
    then show ?thesis using Suc.prems by simp
  qed
qed simp

lemma CreateRootJob_inv:
  "job_inv (snd (CreateRootJob alloc_ok k job_world_init))"
  by (auto simp: CreateRootJob_def job_world_init_def JobDispatcher_ctor_def job_inv_def
      job_links_def set_job_def JobPolicy_default_def TimerSlack_none_def
      intro: job_local_new_job)

lemma job_step_inv: "job_step w v \<Longrightarrow> job_inv w \<Longrightarrow> job_inv v"
proof (induction rule: job_step.induct)
  case (step_kill w k j alive alloc b v)
  then show ?case
    using kill_upto_rel [OF _ step_kill(1) job_invD(1)] job_inv_kill_rel
    unfolding job_Kill_def by blast
qed (simp_all add: job_Create_inv JobDispatcher_dtor_inv AddChildProcess_inv RemoveChildProcess_inv
    SetBasicPolicy_inv SetTimerSlackPolicy_inv SetExceptionPort_inv ResetExceptionPort_inv
    set_kill_on_oom_inv)

lemma job_reachable_inv: "job_reachable w \<Longrightarrow> job_inv w"
  by (induction rule: job_reachable.induct) (simp_all add: CreateRootJob_inv job_step_inv)

section \<open>Properties of the job tree\<close>

text \<open>
  C16: Counters, lists, signals and parent pointers of the job tree agree.  In every reachable
  state, for every job: the two counters are the lengths of the child lists,
  \<^verbatim>\<open>ZX_JOB_NO_PROCESSES\<close> and \<^verbatim>\<open>ZX_JOB_NO_JOBS\<close> are asserted exactly when the respective
  list is empty, a dead job has no children, the list of child jobs holds exactly the jobs whose
  parent it is, and a child's height is one less.
\<close>

theorem job_tree_consistent:
  assumes "job_reachable w" "jw_jobs w k = Some j"
  shows "process_count j = length (job_procs j) \<and> job_count j = length (job_jobs j)
    \<and> has_sig (obj_signals j) ZX_JOB_NO_PROCESSES = (job_procs j = [])
    \<and> has_sig (obj_signals j) ZX_JOB_NO_JOBS = (job_jobs j = [])
    \<and> (job_state j = DEAD \<longrightarrow> job_procs j = [] \<and> job_jobs j = [])
    \<and> (\<forall>c. c \<in> set (job_jobs j) \<longleftrightarrow> (\<exists>cj. jw_jobs w c = Some cj \<and> job_parent cj = Some k
              \<and> job_max_height j = Suc (job_max_height cj)))"
proof -
  note links = job_linksD [OF job_invD(1) [OF job_reachable_inv [OF assms(1)]]]
  have "\<exists>cj. jw_jobs w c = Some cj \<and> job_parent cj = Some k
          \<and> job_max_height j = Suc (job_max_height cj)"
    if c: "c \<in> set (job_jobs j)" for c
  proof -
    obtain cj where c: "jw_jobs w c = Some cj" "job_parent cj = Some k"
      using links(3) [OF assms(2)] c by blast
    then show ?thesis using links(4) [OF c] assms(2) by (auto simp: job_edge_def)
  qed
  moreover have "job_local j" using links(2) [OF assms(2)] .
  ultimately show ?thesis
    using links(3) [OF assms(2)] by (auto simp: job_local_def sig_bits)
qed

text \<open>A world with a root job 1, a child job 2 and a process 3 in the child.\<close>

definition example_root :: job_world where
  "example_root = snd (CreateRootJob True 1 job_world_init)"

definition example_jobs :: job_world where
  "example_jobs = snd (AddChildProcess 2 3 (snd (job_Create True 2 1 example_root)))"

lemmas job_example_defs =
  example_root_def example_jobs_def CreateRootJob_def job_world_init_def JobDispatcher_ctor_def
  job_Create_def Create_begin_def Create_link_def AddChildJob_def AddChildProcess_def
  UpdateSignalsIncrementLocked_def GetPolicy_def the_job_def set_job_def new_job_def
  new_dispatcher_def dispatcher.defs UpdateStateLocked_def kRootJobMaxHeight_def Let_def

lemma example_root_reachable: "job_reachable example_root"
  unfolding example_root_def by (rule reach_root)

lemma example_root_job: "jw_jobs example_root 1 = Some (new_job 1 None 32 JobPolicy_default)"
  by (simp add: example_root_def CreateRootJob_def JobDispatcher_ctor_def kRootJobMaxHeight_def
      job_world_init_def set_job_def)

lemma example_root_other: "k \<noteq> 1 \<Longrightarrow> jw_jobs example_root k = None"
  by (simp add: example_root_def CreateRootJob_def JobDispatcher_ctor_def job_world_init_def
      set_job_def)

lemma example_child: "\<exists>j. jw_jobs (snd (job_Create True 2 1 example_root)) 2 = Some j
    \<and> job_procs j = [] \<and> job_jobs j = [] \<and> job_parent j = Some 1 \<and> job_state j = READY
    \<and> job_policy j = JobPolicy_default"
  using job_Create_cases [OF example_root_job, of 2 True]
  by (simp add: Let_def)

lemma example_jobs_reachable: "job_reachable example_jobs"
proof -
  have r: "job_reachable (snd (job_Create True 2 1 example_root))"
    by (rule reach_step [OF example_root_reachable], rule step_create [OF example_root_job])
      (simp add: example_root_other)
  obtain j where j: "jw_jobs (snd (job_Create True 2 1 example_root)) 2 = Some j" "job_procs j = []"
    using example_child by blast
  show ?thesis
    unfolding example_jobs_def by (rule reach_step [OF r step_add_process [OF j(1)]]) (simp add: j(2))
qed

lemma example_jobs_child:
  "\<exists>j. jw_jobs example_jobs 2 = Some j \<and> job_procs j = [3] \<and> job_jobs j = []
     \<and> job_parent j = Some 1 \<and> job_state j = READY \<and> job_max_height j = 31"
  by (simp add: job_example_defs)

lemma example_jobs_root:
  "\<exists>j. jw_jobs example_jobs 1 = Some j \<and> job_procs j = [] \<and> job_jobs j = [2]
     \<and> job_parent j = None \<and> job_state j = READY \<and> job_max_height j = 32"
  by (simp add: job_example_defs)

theorem job_tree_consistent_witness:
  "\<exists>j. jw_jobs example_jobs 2 = Some j \<and> process_count j = 1
     \<and> \<not> has_sig (obj_signals j) ZX_JOB_NO_PROCESSES \<and> has_sig (obj_signals j) ZX_JOB_NO_JOBS"
  using example_jobs_child job_tree_consistent [OF example_jobs_reachable, of 2] by auto

inductive job_descendant :: "job_world \<Rightarrow> zx_koid_t \<Rightarrow> zx_koid_t \<Rightarrow> bool" for w k where
  descendant_self: "job_descendant w k k"
| descendant_child: "job_descendant w k p \<Longrightarrow> jw_jobs w c = Some cj \<Longrightarrow> job_parent cj = Some p \<Longrightarrow>
    job_descendant w k c"

lemma job_descendant_policy:
  assumes "job_inv w" "job_descendant w k c" "jw_jobs w k = Some j"
  shows "\<exists>cj. jw_jobs w c = Some cj \<and> policy_extends (job_policy j) (job_policy cj)"
  using assms(2)
proof induction
  case descendant_self
  then show ?case using assms(3) by simp
next
  case (descendant_child p c cj)
  obtain pj where "jw_jobs w p = Some pj" "job_edge pj cj"
    using job_linksD(4) [OF job_invD(1) [OF assms(1)] descendant_child.hyps(2,3)] by blast
  with descendant_child show ?case
    unfolding job_edge_def by (auto intro: policy_extends_trans)
qed


text \<open>The root job denies new fifos, then a child job is created.\<close>

definition example_policy_world :: job_world where
  "example_policy_world =
     snd (job_Create True 2 1 (snd (SetBasicPolicy 1 ZX_JOB_POL_ABSOLUTE
       [\<lparr> pol_condition = ZX_POL_NEW_FIFO, pol_policy = ZX_POL_ACTION_DENY \<rparr>] example_root)))"

lemma example_policy_view:
  "policy_view (jp_cookie (snd (AddBasicPolicy ZX_JOB_POL_ABSOLUTE
     [\<lparr> pol_condition = ZX_POL_NEW_FIFO, pol_policy = ZX_POL_ACTION_DENY \<rparr>] JobPolicy_default)))
     new_fifo = Some ZX_POL_ACTION_DENY"
  using AddBasicPolicy_cases(2) [of JobPolicy_default
      "[\<lparr> pol_condition = ZX_POL_NEW_FIFO, pol_policy = ZX_POL_ACTION_DENY \<rparr>]" ZX_JOB_POL_ABSOLUTE]
  by (simp add: policy_merge_def conflicts_def entry_fields_def cond_field_def)

lemma SetBasicPolicy_eq:
  assumes "jw_jobs w k = Some j" "job_procs j = []" "job_jobs j = []"
  shows "snd (SetBasicPolicy k mode es w)
         = set_job k (j\<lparr> job_policy := snd (AddBasicPolicy mode es (job_policy j)) \<rparr>) w"
  using assms by (simp add: SetBasicPolicy_def CanSetPolicy_def split: prod.split)




text \<open>A job that is being killed and has no children.\<close>

definition killing_empty :: "job_world \<Rightarrow> zx_koid_t \<Rightarrow> bool" where
  "killing_empty w k \<longleftrightarrow>
     (\<exists>j. jw_jobs w k = Some j \<and> job_state j = KILLING \<and> job_procs j = [] \<and> job_jobs j = [])"

lemma killing_emptyI:
  "jw_jobs w k = Some j \<Longrightarrow> job_state j = KILLING \<Longrightarrow> job_procs j = [] \<Longrightarrow> job_jobs j = [] \<Longrightarrow> killing_empty w k"
  by (simp add: killing_empty_def)

lemma killing_empty_same: "killing_empty w k \<Longrightarrow> jw_jobs v k = jw_jobs w k \<Longrightarrow> killing_empty v k"
  by (simp add: killing_empty_def)

lemma job_Create_other:
  assumes "job_inv w" "jw_jobs w p = Some pj" "jw_jobs w c = None" "killing_empty w k"
  shows "killing_empty (snd (job_Create alloc_ok c p w)) k"
proof (cases "fst (job_Create alloc_ok c p w) = ZX_OK")
  case False
  then show ?thesis using job_Create_failed [OF assms(1-3)] assms(4) by simp
next
  case True
  have cp: "c \<noteq> p" and ck: "c \<noteq> k" using assms by (auto simp: killing_empty_def)
  from True have "job_state pj = READY"
    by (auto simp: job_Create_cases [OF assms(2) cp] Let_def split: if_splits)
  with assms have "p \<noteq> k" by (auto simp: killing_empty_def)
  with ck True have "jw_jobs (snd (job_Create alloc_ok c p w)) k = jw_jobs w k"
    by (auto simp: job_Create_cases [OF assms(2) cp] Let_def split: if_splits)
  then show ?thesis by (rule killing_empty_same [OF assms(4)])
qed

lemma JobDispatcher_dtor_other:
  assumes "job_inv w" "jw_jobs w c = Some cj" "c \<noteq> k" "killing_empty w k"
  shows "killing_empty (JobDispatcher_dtor c w) k"
proof -
  have "job_parent cj \<noteq> Some k"
    using job_linksD(3) [OF job_invD(1) [OF assms(1)], of k _ c] assms(2,4)
    by (auto simp: killing_empty_def)
  then show ?thesis
    using assms(2,3)
    by (intro killing_empty_same [OF assms(4)])
      (auto simp: JobDispatcher_dtor_def RemoveChildJob_def UpdateSignalsDecrementLocked_def Let_def
        split: option.split)
qed

lemma job_step_killing_empty:
  assumes "job_step w v" "job_inv w" "killing_empty w k"
  shows "jw_jobs v k = None \<or> killing_empty v k"
  using assms
proof (induction rule: job_step.induct)
  case (step_create w p pj c alloc_ok)
  then show ?case by (simp add: job_Create_other)
next
  case (step_destroy w c cj)
  then show ?case
    by (cases "c = k") (simp add: JobDispatcher_dtor_def Let_def, simp add: JobDispatcher_dtor_other)
next
  case (step_kill w c j alive alloc b v)
  have "kill_rel w v"
    using kill_upto_rel [OF _ step_kill(1) job_invD(1)] step_kill unfolding job_Kill_def by blast
  from kill_relD [OF this, of k] step_kill show ?case
    by (auto simp: killing_empty_def)
next
  case (step_add_process w c j p)
  then show ?case
    by (cases "c = k")
      (auto simp: AddChildProcess_def UpdateSignalsIncrementLocked_def Let_def killing_empty_def)
next
  case (step_remove_process w c j p)
  then show ?case
    by (cases "c = k")
      (auto simp: RemoveChildProcess_def UpdateSignalsDecrementLocked_def Let_def killing_empty_def)
next
  case (step_basic_policy w c j mode es)
  then show ?case
    by (cases "c = k") (auto simp: SetBasicPolicy_def Let_def killing_empty_def split: prod.split)
next
  case (step_slack_policy w c j pol)
  then show ?case
    by (cases "c = k") (auto simp: SetTimerSlackPolicy_def Let_def killing_empty_def split: if_splits)
next
  case (step_set_port w c j e)
  then show ?case
    by (cases "c = k") (auto simp: SetExceptionPort_def Let_def killing_empty_def)
next
  case (step_reset_port w c j alive alloc debugger)
  then show ?case
    by (cases "c = k") (auto simp: ResetExceptionPort_def Let_def killing_empty_def split: option.split)
next
  case (step_oom w c j b)
  then show ?case
    by (cases "c = k") (auto simp: set_kill_on_oom_def killing_empty_def)
qed

text \<open>
  A job killed while it has no children never becomes dead.  \<^verbatim>\<open>Kill\<close> moves it to
  \<^verbatim>\<open>KILLING\<close>; the transition to \<^verbatim>\<open>DEAD\<close> is only made when a last child leaves, and from
  that state on every operation either leaves the job in \<^verbatim>\<open>KILLING\<close> without children or
  destroys it.
\<close>

theorem killed_empty_job_stays_killing:
  assumes "job_reachable w" "jw_jobs w k = Some j" "job_state j = READY"
    "job_procs j = []" "job_jobs j = []"
  shows "\<exists>v. job_Kill alive alloc k w = Some (True, v) \<and> killing_empty v k
    \<and> (\<forall>u u'. job_reachable u \<longrightarrow> killing_empty u k \<longrightarrow> job_step u u' \<longrightarrow>
         jw_jobs u' k = None \<or> killing_empty u' k)"
proof -
  have "job_local j" by (rule job_linksD(2) [OF job_invD(1) [OF job_reachable_inv [OF assms(1)]] assms(2)])
  then have "process_count j = 0" "job_count j = 0" using assms(4,5) by (simp_all add: job_local_def)
  then have "job_Kill alive alloc k w = Some (True, set_job k (j\<lparr> job_state := KILLING \<rparr>) w)"
    using assms(2,3) by (simp add: job_Kill_def gather_def ForEachChildInLocked_def)
  moreover have "killing_empty (set_job k (j\<lparr> job_state := KILLING \<rparr>) w) k"
    using assms(4,5) by (simp add: killing_empty_def)
  ultimately show ?thesis using job_step_killing_empty job_reachable_inv by blast
qed

theorem killed_empty_job_stays_killing_witness:
  "\<exists>v. job_Kill (\<lambda>_. True) (\<lambda>_. (True, True)) 1 example_root = Some (True, v) \<and> killing_empty v 1"
  using killed_empty_job_stays_killing [OF example_root_reachable example_root_job] by fastforce

text \<open>
  C39: The policy race in \<^verbatim>\<open>Create\<close>.  The policy of the parent is copied and the child is
  linked under two separate acquisitions of the parent's lock.  When the parent's policy is set in
  between, which is allowed since the parent still has no children, creation succeeds and the child
  is linked with a policy that allows what its parent denies.
\<close>

definition create_race :: "zx_status_t \<times> zx_status_t \<times> zx_status_t \<times> job_world" where
  "create_race =
     (let (st1, w1) = Create_begin True 2 1 example_root;
          (st2, w2) = SetBasicPolicy 1 ZX_JOB_POL_ABSOLUTE
             [\<lparr> pol_condition = ZX_POL_NEW_FIFO, pol_policy = ZX_POL_ACTION_DENY \<rparr>] w1;
          (st3, w3) = Create_link 2 1 w2
      in (st1, st2, st3, w3))"


text \<open>
  The enumeration of all jobs lists every job before its parent.  In every reachable state
  the global list holds exactly the jobs, each once, and a job always stands in front of the job it
  was created under, so the root job comes last.
\<close>

theorem jobs_enumerated_before_parent:
  assumes "job_reachable w"
  shows "distinct (jw_all_jobs w) \<and> set (jw_all_jobs w) = dom (jw_jobs w)
    \<and> (\<forall>c cj p. jw_jobs w c = Some cj \<longrightarrow> job_parent cj = Some p \<longrightarrow> before (jw_all_jobs w) c p)"
  using job_invD [OF job_reachable_inv [OF assms]] by blast

theorem jobs_enumerated_before_parent_witness:
  "jw_all_jobs example_jobs = [2, 1] \<and> before (jw_all_jobs example_jobs) 2 1"
proof -
  have "jw_all_jobs example_jobs = [2, 1]" by (simp add: job_example_defs)
  with jobs_enumerated_before_parent [OF example_jobs_reachable] example_jobs_child show ?thesis
    by blast
qed

end
