(* ===== verification/Timer.thy ===== *)
theory Timer
  imports Kernel_Time
begin

text \<open>
  Kernel timers: \<^verbatim>\<open>kernel/kernel/timer.cpp\<close>.  Timers are numbered; the state holds the timer
  structures, the per-cpu queues with their deadlines, and what the platform timer of each cpu
  was last told.  \<open>t_queue\<close> tells which queue a timer's list node is linked into.  The
  current cpu is an argument, and so are the callbacks, as functions on the state.  The lemmas
  show that insertion keeps the queues sorted and respects the slack window, that the platform
  timer is always armed for the earliest deadline, and which timers a tick fires.
\<close>

section \<open>State\<close>

type_synonym timer_id = nat
type_synonym cpu_num = nat

record ktimer =
  scheduled_time :: zx_time_t
  t_slack :: zx_duration_t
  t_callback :: "nat option"
  t_arg :: "nat option"
  active_cpu :: int
  t_cancel :: bool
  t_queue :: "cpu_num option"

record percpu =
  timer_queue :: "timer_id list"
  preempt_timer_deadline :: zx_time_t
  next_timer_deadline :: zx_time_t

record timers =
  tm_timer :: "timer_id \<Rightarrow> ktimer"
  tm_cpu :: "cpu_num \<Rightarrow> percpu"
  tm_oneshot :: "cpu_num \<Rightarrow> zx_time_t option"

definition TIMER_INITIAL_VALUE :: ktimer where
  "TIMER_INITIAL_VALUE =
     \<lparr> scheduled_time = 0, t_slack = 0, t_callback = None, t_arg = None, active_cpu = -1,
       t_cancel = False, t_queue = None \<rparr>"

definition upd_timer :: "timer_id \<Rightarrow> (ktimer \<Rightarrow> ktimer) \<Rightarrow> timers \<Rightarrow> timers" where
  "upd_timer t f s = s\<lparr> tm_timer := (tm_timer s)(t := f (tm_timer s t)) \<rparr>"

definition upd_cpu :: "cpu_num \<Rightarrow> (percpu \<Rightarrow> percpu) \<Rightarrow> timers \<Rightarrow> timers" where
  "upd_cpu c f s = s\<lparr> tm_cpu := (tm_cpu s)(c := f (tm_cpu s c)) \<rparr>"

definition timer_init :: "timer_id \<Rightarrow> timers \<Rightarrow> timers" where
  "timer_init t s = upd_timer t (\<lambda>_. TIMER_INITIAL_VALUE) s"

definition platform_set_oneshot_timer :: "cpu_num \<Rightarrow> zx_time_t \<Rightarrow> timers \<Rightarrow> timers" where
  "platform_set_oneshot_timer cpu d s = s\<lparr> tm_oneshot := (tm_oneshot s)(cpu := Some d) \<rparr>"

definition platform_stop_timer :: "cpu_num \<Rightarrow> timers \<Rightarrow> timers" where
  "platform_stop_timer cpu s = s\<lparr> tm_oneshot := (tm_oneshot s)(cpu := None) \<rparr>"

definition timer_queue_init :: "timers \<Rightarrow> timers" where
  "timer_queue_init s =
     s\<lparr> tm_cpu := (\<lambda>_. \<lparr> timer_queue = [], preempt_timer_deadline = ZX_TIME_INFINITE,
                          next_timer_deadline = ZX_TIME_INFINITE \<rparr>) \<rparr>"

section \<open>Inserting\<close>

definition update_platform_timer :: "cpu_num \<Rightarrow> zx_time_t \<Rightarrow> timers \<Rightarrow> timers" where
  "update_platform_timer cpu new_deadline s =
     (if sint new_deadline < sint (next_timer_deadline (tm_cpu s cpu))
      then upd_cpu cpu (\<lambda>p. p\<lparr> next_timer_deadline := new_deadline \<rparr>)
             (platform_set_oneshot_timer cpu new_deadline s)
      else s)"

text \<open>
  The walk over the queue.  \<open>sched\<close> gives the scheduled time of the entries and \<open>t\<close> the one of
  the new timer; the result is the queue with the new timer and the new timer's scheduled time
  and slack.
\<close>

fun insert_walk ::
  "(timer_id \<Rightarrow> zx_time_t) \<Rightarrow> timer_id \<Rightarrow> zx_time_t \<Rightarrow> zx_time_t \<Rightarrow> zx_time_t \<Rightarrow> timer_id list
   \<Rightarrow> timer_id list \<times> zx_time_t \<times> zx_duration_t" where
  "insert_walk sched timer t earliest_deadline latest_deadline [] = ([timer], t, 0)"
| "insert_walk sched timer t earliest_deadline latest_deadline (entry # rest) =
     (let continue = (case insert_walk sched timer t earliest_deadline latest_deadline rest of
                        (q, tm, sl) \<Rightarrow> (entry # q, tm, sl));
          coalesce = (entry # timer # rest, sched entry, zx_time_sub_time (sched entry) t)
      in if sint (sched entry) > sint latest_deadline then (timer # entry # rest, t, 0)
         else if sint (sched entry) \<ge> sint t then coalesce
         else if sint (sched entry) < sint earliest_deadline then continue
         else case rest of
                [] \<Rightarrow> coalesce
              | nxt # _ \<Rightarrow>
                  if sint (sched nxt) \<le> sint t then continue
                  else if sint (sched nxt) < sint latest_deadline
                          \<and> sint (zx_time_sub_time (sched nxt) t)
                              < sint (zx_time_sub_time t (sched entry))
                  then continue
                  else coalesce)"

definition insert_timer_in_queue ::
  "cpu_num \<Rightarrow> timer_id \<Rightarrow> zx_time_t \<Rightarrow> zx_time_t \<Rightarrow> timers \<Rightarrow> timers" where
  "insert_timer_in_queue cpu timer earliest_deadline latest_deadline s =
     (case insert_walk (\<lambda>e. scheduled_time (tm_timer s e)) timer (scheduled_time (tm_timer s timer))
             earliest_deadline latest_deadline (timer_queue (tm_cpu s cpu)) of
        (q, tm, sl) \<Rightarrow>
          upd_cpu cpu (\<lambda>p. p\<lparr> timer_queue := q \<rparr>)
            (upd_timer timer (\<lambda>x. x\<lparr> scheduled_time := tm, t_slack := sl, t_queue := Some cpu \<rparr>) s))"

definition head_is :: "timer_id \<Rightarrow> timer_id list \<Rightarrow> bool" where
  "head_is t q \<longleftrightarrow> (case q of [] \<Rightarrow> False | h # _ \<Rightarrow> h = t)"

text \<open>\<^const>\<open>None\<close> is the kernel panic.\<close>

definition timer_set ::
  "cpu_num \<Rightarrow> timer_id \<Rightarrow> Deadline \<Rightarrow> nat option \<Rightarrow> nat option \<Rightarrow> timers \<Rightarrow> timers option" where
  "timer_set cpu timer deadline callback arg s =
     (if t_queue (tm_timer s timer) \<noteq> None then None
      else
        let latest_deadline = latest deadline;
            earliest_deadline = earliest deadline;
            x = tm_timer s timer;
            currently_active = (active_cpu x = int cpu)
        in if currently_active \<and> t_cancel x then Some s
           else if \<not> currently_active \<and> active_cpu x \<ge> 0 then None
           else
             let s1 = upd_timer timer (\<lambda>x. x\<lparr> scheduled_time := dl_when deadline,
                         t_callback := callback, t_arg := arg, t_cancel := False \<rparr>) s;
                 s2 = insert_timer_in_queue cpu timer earliest_deadline latest_deadline s1
             in Some (if head_is timer (timer_queue (tm_cpu s2 cpu))
                      then update_platform_timer cpu (dl_when deadline) s2 else s2))"

section \<open>Preemption timers\<close>

definition timer_preempt_reset :: "cpu_num \<Rightarrow> zx_time_t \<Rightarrow> timers \<Rightarrow> timers" where
  "timer_preempt_reset cpu deadline s =
     update_platform_timer cpu deadline
       (upd_cpu cpu (\<lambda>p. p\<lparr> preempt_timer_deadline := deadline \<rparr>) s)"

definition timer_preempt_cancel :: "cpu_num \<Rightarrow> timers \<Rightarrow> timers" where
  "timer_preempt_cancel cpu s =
     upd_cpu cpu (\<lambda>p. p\<lparr> preempt_timer_deadline := ZX_TIME_INFINITE \<rparr>) s"

section \<open>Cancelling\<close>

text \<open>\<^verbatim>\<open>list_delete\<close>: the node leaves whichever queue it is linked into.\<close>

definition unlink :: "timer_id \<Rightarrow> timers \<Rightarrow> timers" where
  "unlink timer s =
     (case t_queue (tm_timer s timer) of
        None \<Rightarrow> s
      | Some c \<Rightarrow> upd_timer timer (\<lambda>x. x\<lparr> t_queue := None \<rparr>)
                   (upd_cpu c (\<lambda>p. p\<lparr> timer_queue := remove1 timer (timer_queue p) \<rparr>) s))"

text \<open>
  \<^verbatim>\<open>timer_cancel\<close> in two parts: what is done under the lock, and, once no callback of the timer
  is active on another cpu, the rest.  The first part returns the final answer when the timer is
  being handled by this very cpu.
\<close>

datatype cancel_result = CancelReturn bool | CancelWait bool

definition timer_cancel_locked :: "cpu_num \<Rightarrow> timer_id \<Rightarrow> timers \<Rightarrow> cancel_result \<times> timers" where
  "timer_cancel_locked cpu timer s =
     (let s1 = upd_timer timer (\<lambda>x. x\<lparr> t_cancel := True \<rparr>) s;
          x = tm_timer s1 timer
      in if active_cpu x = int cpu
         then (CancelReturn False, upd_timer timer (\<lambda>x. x\<lparr> t_callback := None, t_arg := None \<rparr>) s1)
         else if t_queue x \<noteq> None
         then
           let oldhead = timer_queue (tm_cpu s1 cpu);
               s2 = unlink timer s1
           in (CancelWait True,
               if head_is timer oldhead
               then (case timer_queue (tm_cpu s2 cpu) of
                       newhead # _ \<Rightarrow>
                         update_platform_timer cpu (scheduled_time (tm_timer s2 newhead)) s2
                     | [] \<Rightarrow> if next_timer_deadline (tm_cpu s2 cpu) = ZX_TIME_INFINITE
                             then platform_stop_timer cpu s2 else s2)
               else s2)
         else (CancelWait False, s1))"

definition timer_cancel_finish :: "timer_id \<Rightarrow> timers \<Rightarrow> timers option" where
  "timer_cancel_finish timer s =
     (if active_cpu (tm_timer s timer) \<ge> 0 then None
      else Some (upd_timer timer (\<lambda>x. x\<lparr> t_callback := None, t_arg := None \<rparr>) s))"

section \<open>The tick\<close>

text \<open>
  \<open>cb\<close> is the effect of a callback on the state, called with the timer, the time and the
  argument; \<open>fuel\<close> bounds the number of rounds, since a callback may set timers that are due
  at once, and running out of it is \<^const>\<open>None\<close>.  The list of fired timers is returned with the
  state.
\<close>

primrec tick_loop ::
  "nat \<Rightarrow> (nat option \<Rightarrow> timer_id \<Rightarrow> zx_time_t \<Rightarrow> nat option \<Rightarrow> timers \<Rightarrow> timers) \<Rightarrow> cpu_num
   \<Rightarrow> zx_time_t \<Rightarrow> timers \<Rightarrow> (timer_id list \<times> timers) option" where
  "tick_loop 0 cb cpu now s = None"
| "tick_loop (Suc fuel) cb cpu now s =
     (case timer_queue (tm_cpu s cpu) of
        [] \<Rightarrow> Some ([], s)
      | timer # _ \<Rightarrow>
          if sint now < sint (scheduled_time (tm_timer s timer)) then Some ([], s)
          else
            let s1 = upd_timer timer (\<lambda>x. x\<lparr> active_cpu := int cpu \<rparr>) (unlink timer s);
                x = tm_timer s1 timer;
                s2 = cb (t_callback x) timer now (t_arg x) s1;
                s3 = upd_timer timer (\<lambda>x. x\<lparr> active_cpu := -1 \<rparr>) s2
            in map_option (\<lambda>(fired, s'). (timer # fired, s')) (tick_loop fuel cb cpu now s3))"

definition tick_finish :: "cpu_num \<Rightarrow> timers \<Rightarrow> timers" where
  "tick_finish cpu s =
     (let deadline = (case timer_queue (tm_cpu s cpu) of
                        [] \<Rightarrow> ZX_TIME_INFINITE
                      | timer # _ \<Rightarrow> scheduled_time (tm_timer s timer));
          deadline' = (if sint (preempt_timer_deadline (tm_cpu s cpu)) < sint deadline
                       then preempt_timer_deadline (tm_cpu s cpu) else deadline)
      in update_platform_timer cpu deadline' s)"

definition timer_tick ::
  "nat \<Rightarrow> (nat option \<Rightarrow> timer_id \<Rightarrow> zx_time_t \<Rightarrow> nat option \<Rightarrow> timers \<Rightarrow> timers)
   \<Rightarrow> (zx_time_t \<Rightarrow> timers \<Rightarrow> timers) \<Rightarrow> cpu_num \<Rightarrow> zx_time_t \<Rightarrow> timers
   \<Rightarrow> (timer_id list \<times> timers) option" where
  "timer_tick fuel cb sched_preempt_timer_tick cpu now s =
     (let s1 = upd_cpu cpu (\<lambda>p. p\<lparr> next_timer_deadline := ZX_TIME_INFINITE \<rparr>) s;
          s2 = (if sint now \<ge> sint (preempt_timer_deadline (tm_cpu s1 cpu))
                then sched_preempt_timer_tick now
                       (upd_cpu cpu (\<lambda>p. p\<lparr> preempt_timer_deadline := ZX_TIME_INFINITE \<rparr>) s1)
                else s1)
      in map_option (\<lambda>(fired, s3). (fired, tick_finish cpu s3)) (tick_loop fuel cb cpu now s2))"

text \<open>
  The spin of \<^verbatim>\<open>timer_trylock_or_cancel\<close> on what it observes in successive rounds: whether the
  lock was busy, and the timer's cancel flag.  \<^const>\<open>None\<close>: still spinning.
\<close>

fun timer_trylock_or_cancel :: "(bool \<times> bool) list \<Rightarrow> zx_status_t option" where
  "timer_trylock_or_cancel [] = None"
| "timer_trylock_or_cancel ((busy, cancel) # rest) =
     (if busy then (if cancel then Some ZX_ERR_TIMED_OUT else timer_trylock_or_cancel rest)
      else Some ZX_OK)"

section \<open>Cpus going off line and coming back\<close>

fun move_timers :: "cpu_num \<Rightarrow> timer_id list \<Rightarrow> timers \<Rightarrow> timers" where
  "move_timers cpu [] s = s"
| "move_timers cpu (entry # rest) s =
     (let s1 = unlink entry s;
          tm = scheduled_time (tm_timer s1 entry)
      in move_timers cpu rest (insert_timer_in_queue cpu entry tm tm s1))"

definition timer_transition_off_cpu :: "cpu_num \<Rightarrow> cpu_num \<Rightarrow> timers \<Rightarrow> timers" where
  "timer_transition_off_cpu cpu old_cpu s =
     (let old_head = timer_queue (tm_cpu s cpu);
          s1 = move_timers cpu (timer_queue (tm_cpu s old_cpu)) s;
          s2 = (case timer_queue (tm_cpu s1 cpu) of
                  [] \<Rightarrow> s1
                | new_head # _ \<Rightarrow>
                    if head_is new_head old_head then s1
                    else update_platform_timer cpu (scheduled_time (tm_timer s1 new_head)) s1)
      in upd_cpu old_cpu (\<lambda>p. p\<lparr> preempt_timer_deadline := ZX_TIME_INFINITE,
                                next_timer_deadline := ZX_TIME_INFINITE \<rparr>) s2)"

definition timer_thaw_percpu :: "cpu_num \<Rightarrow> timers \<Rightarrow> timers" where
  "timer_thaw_percpu cpu s =
     (let s1 = upd_cpu cpu (\<lambda>p. p\<lparr> next_timer_deadline := ZX_TIME_INFINITE \<rparr>) s;
          deadline = preempt_timer_deadline (tm_cpu s1 cpu);
          deadline' = (case timer_queue (tm_cpu s1 cpu) of
                         [] \<Rightarrow> deadline
                       | t # _ \<Rightarrow> if sint (scheduled_time (tm_timer s1 t)) < sint deadline
                                   then scheduled_time (tm_timer s1 t) else deadline)
      in update_platform_timer cpu deadline' s1)"

section \<open>The walk\<close>

definition sorted_by :: "(timer_id \<Rightarrow> zx_time_t) \<Rightarrow> timer_id list \<Rightarrow> bool" where
  "sorted_by sched q \<longleftrightarrow> sorted_wrt (\<lambda>a b. sint (sched a) \<le> sint (sched b)) q"

lemma sorted_by_simps [simp]:
  "sorted_by sched []"
  "sorted_by sched (x # q) \<longleftrightarrow> (\<forall>y \<in> set q. sint (sched x) \<le> sint (sched y)) \<and> sorted_by sched q"
  by (simp_all add: sorted_by_def)

lemma sorted_by_cong: "(\<And>x. x \<in> set q \<Longrightarrow> f x = g x) \<Longrightarrow> sorted_by f q = sorted_by g q"
  by (induction q) auto

text \<open>Where the walk stops, as a case rule: every branch is the front, one coalescing with the
  entry, or going on.\<close>

definition stops_at :: "(timer_id \<Rightarrow> zx_time_t) \<Rightarrow> zx_time_t \<Rightarrow> zx_time_t \<Rightarrow> zx_time_t \<Rightarrow> timer_id \<Rightarrow> timer_id list \<Rightarrow> bool" where
  "stops_at sched t e l x rest \<longleftrightarrow>
     sint t \<le> sint (sched x) \<or>
     sint e \<le> sint (sched x) \<and>
       (rest = [] \<or> sint t < sint (sched (hd rest)) \<and>
          \<not> (sint (sched (hd rest)) < sint l \<and>
             sint (zx_time_sub_time (sched (hd rest)) t) < sint (zx_time_sub_time t (sched x))))"

lemma insert_walk_Cons:
  "insert_walk sched timer t e l (x # rest) =
     (if sint l < sint (sched x) then (timer # x # rest, t, 0)
      else if stops_at sched t e l x rest
      then (x # timer # rest, sched x, zx_time_sub_time (sched x) t)
      else case insert_walk sched timer t e l rest of (q, tm, sl) \<Rightarrow> (x # q, tm, sl))"
  unfolding insert_walk.simps(2) Let_def stops_at_def
  by (cases rest) (auto simp del: insert_walk.simps(2))

declare insert_walk.simps(2) [simp del]

lemma insert_walk_cases:
  assumes "insert_walk sched timer t e l (x # rest) = (q', tm, sl)"
  obtains (front) "sint l < sint (sched x)" "q' = timer # x # rest" "tm = t" "sl = 0"
  | (stop) "sint (sched x) \<le> sint l" "stops_at sched t e l x rest" "q' = x # timer # rest"
      "tm = sched x" "sl = zx_time_sub_time (sched x) t"
  | (go) r where "sint (sched x) \<le> sint l" "\<not> stops_at sched t e l x rest"
      "insert_walk sched timer t e l rest = (r, tm, sl)" "q' = x # r"
proof -
  obtain r tm' sl' where r: "insert_walk sched timer t e l rest = (r, tm', sl')"
    by (cases "insert_walk sched timer t e l rest")
  show ?thesis
  proof (cases "sint l < sint (sched x)")
    case True
    with assms show ?thesis by (intro front) (auto simp: insert_walk_Cons)
  next
    case False
    show ?thesis
    proof (cases "stops_at sched t e l x rest")
      case True
      with False assms show ?thesis by (intro stop) (auto simp: insert_walk_Cons)
    next
      case nostop: False
      with False assms r show ?thesis by (intro go [of r]) (auto simp: insert_walk_Cons)
    qed
  qed
qed

lemma insert_walk_queue:
  assumes "insert_walk sched timer t e l q = (q', tm, sl)" "timer \<notin> set q"
  shows "remove1 timer q' = q \<and> set q' = insert timer (set q) \<and> (distinct q \<longrightarrow> distinct q')"
  using assms
proof (induction q arbitrary: q')
  case Nil
  then show ?case by auto
next
  case (Cons x rest)
  from Cons.prems(1) show ?case
  proof (cases rule: insert_walk_cases)
    case (go r)
    with Cons.IH [of r] Cons.prems(2) show ?thesis by auto
  qed (use Cons.prems(2) in auto)
qed

lemma insert_walk_time:
  assumes "insert_walk sched timer t e l q = (q', tm, sl)"
  shows "tm = t \<and> sl = 0 \<or> tm \<in> sched ` set q \<and> sl = zx_time_sub_time tm t"
  using assms
proof (induction q arbitrary: q')
  case (Cons x rest)
  from Cons.prems show ?case
  proof (cases rule: insert_walk_cases)
    case (go r)
    with Cons.IH [of r] show ?thesis by auto
  qed auto
qed simp

lemma insert_walk_window:
  assumes "insert_walk sched timer t e l q = (q', tm, sl)" "sint e \<le> sint t" "sint t \<le> sint l"
  shows "sint e \<le> sint tm \<and> sint tm \<le> sint l"
  using assms(1)
proof (induction q arbitrary: q')
  case (Cons x rest)
  from Cons.prems show ?case
  proof (cases rule: insert_walk_cases)
    case (go r)
    with Cons.IH [of r] show ?thesis by simp
  qed (use assms(2,3) in \<open>auto simp: stops_at_def\<close>)
qed (use assms(2,3) in auto)

lemma insert_walk_sorted:
  assumes "insert_walk sched timer t e l q = (q', tm, sl)" "timer \<notin> set q" "sorted_by sched q"
    "sint e \<le> sint t" "sint t \<le> sint l"
  shows "sorted_by (sched(timer := tm)) q'"
  using assms(1-3)
proof (induction q arbitrary: q')
  case Nil
  then show ?case by auto
next
  case (Cons x rest)
  have same: "sorted_by (sched(timer := tm)) rest = sorted_by sched rest"
    using Cons.prems(2) by (intro sorted_by_cong) auto
  from Cons.prems(1) show ?case
  proof (cases rule: insert_walk_cases)
    case front
    have "sint t \<le> sint (sched y)" if "y \<in> set (x # rest)" for y
      using that front(1) Cons.prems(3) assms(5) by (auto intro: order_trans)
    moreover have "y \<noteq> timer" if "y \<in> set (x # rest)" for y using that Cons.prems(2) by auto
    ultimately show ?thesis using Cons.prems(3) same by (simp add: front fun_upd_def)
  next
    case stop
    with Cons.prems(2,3) same show ?thesis by (auto simp: fun_upd_def)
  next
    case (go r)
    have sr: "sorted_by (sched(timer := tm)) r" 
      by (rule Cons.IH [OF go(3)]) (use Cons.prems(2,3) in simp_all)
    have "sint (sched x) \<le> sint tm"
      using insert_walk_time [OF go(3)] go(2) Cons.prems(3) by (auto simp: stops_at_def)
    then have "\<forall>y \<in> set r. sint (sched x) \<le> sint ((sched(timer := tm)) y)"
      using insert_walk_queue [OF go(3)] Cons.prems(2,3) by auto
    with sr go(4) Cons.prems(2) show ?thesis by (auto simp: fun_upd_def)
  qed
qed

text \<open>An entry inside the window is enough for the new timer to be coalesced.\<close>

lemma insert_walk_coalesces:
  assumes "insert_walk sched timer t e l q = (q', tm, sl)" "sorted_by sched q"
    "sint e \<le> sint t" "sint t \<le> sint l"
    "x \<in> set q" "sint e \<le> sint (sched x)" "sint (sched x) \<le> sint l"
  shows "tm \<in> sched ` set q"
  using assms(1,2,5-7)
proof (induction q arbitrary: q' x)
  case (Cons y rest)
  from Cons.prems(1) show ?case
  proof (cases rule: insert_walk_cases)
    case front
    with Cons.prems(2-) have False by auto
    then show ?thesis ..
  next
    case stop
    then show ?thesis by simp
  next
    case (go r)
    have "\<exists>z \<in> set rest. sint e \<le> sint (sched z) \<and> sint (sched z) \<le> sint l"
    proof (cases "x = y")
      case True
      with go(2) Cons.prems(2-) assms(4) show ?thesis
        by (cases rest) (auto simp: stops_at_def)
    next
      case False
      with Cons.prems show ?thesis by auto
    qed
    then show ?thesis using Cons.IH [OF go(3)] Cons.prems(2) by auto
  qed
qed simp

lemma insert_walk_alone:
  assumes "insert_walk sched timer t e l q = (q', tm, sl)" "sint e \<le> sint t" "sint t \<le> sint l"
    "\<forall>x \<in> set q. \<not> (sint e \<le> sint (sched x) \<and> sint (sched x) \<le> sint l)"
  shows "tm = t \<and> sl = 0"
  using assms(4) insert_walk_time [OF assms(1)] insert_walk_window [OF assms(1-3)] by auto

text \<open>Among the entries of the window the nearest is chosen (an entry exactly at the end of the
  window counts only if there is none before it), as long as no time is negative.\<close>

lemma time_diff_nonneg:
  assumes "0 \<le> sint a" "0 \<le> sint b"
  shows "sint (zx_time_sub_time a b) = sint a - sint b"
  using assms sint64_bounds [of a] sint64_bounds [of b]
  by (simp add: time_diff_saturates clamp64_def)

lemma insert_walk_nearest:
  assumes "insert_walk sched timer t e l q = (q', tm, sl)" "sorted_by sched q"
    "sint e \<le> sint t" "sint t \<le> sint l" "0 \<le> sint t" "\<forall>x \<in> set q. 0 \<le> sint (sched x)"
    "x \<in> set q" "sint e \<le> sint (sched x)" "sint (sched x) < sint l \<or> sint (sched x) \<le> sint t"
  shows "\<bar>sint tm - sint t\<bar> \<le> \<bar>sint (sched x) - sint t\<bar>"
  using assms(1,2,6-9)
proof (induction q arbitrary: q' x)
  case (Cons y rest)
  note nn = time_diff_nonneg [OF _ assms(5)] time_diff_nonneg [OF assms(5)]
  from Cons.prems(1) show ?case
  proof (cases rule: insert_walk_cases)
    case front
    then show ?thesis by simp
  next
    case stop
    show ?thesis
    proof (cases "x = y")
      case False
      then have x: "x \<in> set rest" "sint (sched y) \<le> sint (sched x)"
        using Cons.prems(2,4) by auto
      show ?thesis
      proof (cases "sint t \<le> sint (sched y)")
        case True
        with x stop show ?thesis by simp
      next
        case left: False
        from x obtain n where n: "rest \<noteq> []" "n = hd rest" "sint (sched n) \<le> sint (sched x)"
            "n \<in> set rest"
          using Cons.prems(2) by (cases rest) auto
        with stop(2) left nn [of "sched n"] nn [of "sched y"] Cons.prems(3,6) x show ?thesis
          unfolding stops_at_def stop(4) by auto
      qed
    qed (simp add: stop)
  next
    case (go r)
    note IH = Cons.IH [OF go(3)]
    show ?thesis
    proof (cases "x = y")
      case False
      with IH Cons.prems show ?thesis by auto
    next
      case True
      have "sint e \<le> sint (sched y)" using True Cons.prems(5) by simp
      with go(2) obtain n where n: "n \<in> set rest" "n = hd rest"
        and left: "sint (sched y) < sint t"
        and c: "sint (sched n) \<le> sint t \<or> sint (sched n) < sint l
           \<and> sint (zx_time_sub_time (sched n) t) < sint (zx_time_sub_time t (sched y))"
        unfolding stops_at_def by (cases rest) auto
      have le: "sint (sched y) \<le> sint (sched n)" using n Cons.prems(2) by auto
      have "\<bar>sint tm - sint t\<bar> \<le> \<bar>sint (sched n) - sint t\<bar>"
        using IH [of n] Cons.prems(2,3) n(1) le \<open>sint e \<le> sint (sched y)\<close> c by auto
      with c le left nn [of "sched n"] nn [of "sched y"] Cons.prems(3) n(1) True show ?thesis by auto
    qed
  qed
qed simp

section \<open>The invariant of the queues\<close>

definition sched_of :: "timers \<Rightarrow> timer_id \<Rightarrow> zx_time_t" where
  "sched_of s t = scheduled_time (tm_timer s t)"

text \<open>Queues are sorted by scheduled time and hold exactly the timers linked into them.\<close>

definition q_inv :: "timers \<Rightarrow> bool" where
  "q_inv s \<longleftrightarrow> (\<forall>c. distinct (timer_queue (tm_cpu s c)) \<and> sorted_by (sched_of s) (timer_queue (tm_cpu s c))
     \<and> (\<forall>t. t \<in> set (timer_queue (tm_cpu s c)) \<longleftrightarrow> t_queue (tm_timer s t) = Some c))"

text \<open>A cpu is armed when its platform timer will fire no later than its preemption deadline and
  than any timer of its queue.\<close>

definition armed :: "timers \<Rightarrow> cpu_num \<Rightarrow> bool" where
  "armed s c \<longleftrightarrow>
     sint (next_timer_deadline (tm_cpu s c)) \<le> sint (preempt_timer_deadline (tm_cpu s c)) \<and>
     (\<forall>t \<in> set (timer_queue (tm_cpu s c)). sint (next_timer_deadline (tm_cpu s c)) \<le> sint (sched_of s t))"

definition keeps_timers :: "timers \<Rightarrow> timers \<Rightarrow> bool" where
  "keeps_timers s s' \<longleftrightarrow> q_inv s' \<and> (\<forall>c. armed s c \<longrightarrow> armed s' c)"

lemma keeps_timers_trans: "keeps_timers s s' \<Longrightarrow> keeps_timers s' s'' \<Longrightarrow> keeps_timers s s''"
  by (simp add: keeps_timers_def)

lemma q_invD:
  assumes "q_inv s"
  shows "distinct (timer_queue (tm_cpu s c))" "sorted_by (sched_of s) (timer_queue (tm_cpu s c))"
    "t \<in> set (timer_queue (tm_cpu s c)) \<longleftrightarrow> t_queue (tm_timer s t) = Some c"
  using assms unfolding q_inv_def by blast+

lemma upd_timer_simps [simp]:
  "tm_cpu (upd_timer t f s) = tm_cpu s" "tm_oneshot (upd_timer t f s) = tm_oneshot s"
  "tm_timer (upd_timer t f s) = (tm_timer s)(t := f (tm_timer s t))"
  by (simp_all add: upd_timer_def)

lemma upd_cpu_simps [simp]:
  "tm_timer (upd_cpu c f s) = tm_timer s" "tm_oneshot (upd_cpu c f s) = tm_oneshot s"
  "tm_cpu (upd_cpu c f s) = (tm_cpu s)(c := f (tm_cpu s c))"
  by (simp_all add: upd_cpu_def)

lemma platform_simps [simp]:
  "tm_timer (platform_set_oneshot_timer c d s) = tm_timer s"
  "tm_cpu (platform_set_oneshot_timer c d s) = tm_cpu s"
  "tm_timer (platform_stop_timer c s) = tm_timer s" "tm_cpu (platform_stop_timer c s) = tm_cpu s"
  by (simp_all add: platform_set_oneshot_timer_def platform_stop_timer_def)

text \<open>\<^verbatim>\<open>update_platform_timer\<close> lowers the deadline of the cpu, and changes nothing else.\<close>

lemma update_platform_timer_simps [simp]:
  "tm_timer (update_platform_timer c d s) = tm_timer s"
  "timer_queue (tm_cpu (update_platform_timer c d s) c') = timer_queue (tm_cpu s c')"
  "preempt_timer_deadline (tm_cpu (update_platform_timer c d s) c') = preempt_timer_deadline (tm_cpu s c')"
  "sint (next_timer_deadline (tm_cpu (update_platform_timer c d s) c')) =
     (if c' = c then min (sint d) (sint (next_timer_deadline (tm_cpu s c')))
      else sint (next_timer_deadline (tm_cpu s c')))"
  by (simp_all add: update_platform_timer_def)

text \<open>The two conditions only look at queues, deadlines and the scheduled times and links of
  timers.\<close>

lemma q_inv_cong:
  assumes "\<And>c. timer_queue (tm_cpu s' c) = timer_queue (tm_cpu s c)"
    "\<And>t. t_queue (tm_timer s' t) = t_queue (tm_timer s t)"
    "\<And>t. t_queue (tm_timer s t) \<noteq> None \<Longrightarrow> sched_of s' t = sched_of s t"
    "q_inv s"
  shows "q_inv s'"
proof -
  have "sorted_by (sched_of s') (timer_queue (tm_cpu s c)) = sorted_by (sched_of s) (timer_queue (tm_cpu s c))" for c
    using q_invD(3) [OF assms(4), of _ c] assms(3) by (intro sorted_by_cong) auto
  with assms show ?thesis unfolding q_inv_def by simp
qed

lemma armed_cong:
  assumes "timer_queue (tm_cpu s' c) = timer_queue (tm_cpu s c)"
    "\<And>t. t \<in> set (timer_queue (tm_cpu s c)) \<Longrightarrow> sched_of s' t = sched_of s t"
    "sint (next_timer_deadline (tm_cpu s' c)) \<le> sint (next_timer_deadline (tm_cpu s c))"
    "sint (preempt_timer_deadline (tm_cpu s c)) \<le> sint (preempt_timer_deadline (tm_cpu s' c))"
    "armed s c"
  shows "armed s' c"
  using assms unfolding armed_def by force

lemma keeps_update_platform_timer: "q_inv s \<Longrightarrow> keeps_timers s (update_platform_timer c d s)"
  unfolding keeps_timers_def
  by (auto intro: q_inv_cong armed_cong simp: sched_of_def)

lemma keeps_upd_timer:
  assumes "q_inv s" "t_queue (f (tm_timer s t)) = t_queue (tm_timer s t)"
    "t_queue (tm_timer s t) = None \<or> scheduled_time (f (tm_timer s t)) = scheduled_time (tm_timer s t)"
  shows "keeps_timers s (upd_timer t f s)"
proof -
  have same: "sched_of (upd_timer t f s) u = sched_of s u" if "t_queue (tm_timer s u) \<noteq> None" for u
    using that assms(3) by (auto simp: sched_of_def)
  have "q_inv (upd_timer t f s)"
    by (rule q_inv_cong [OF _ _ _ assms(1)]) (use assms(2) same in auto)
  moreover have "armed (upd_timer t f s) c" if "armed s c" for c
    by (rule armed_cong [OF _ _ _ _ that]) (use same q_invD(3) [OF assms(1), of _ c] in auto)
  ultimately show ?thesis by (simp add: keeps_timers_def)
qed

section \<open>Inserting and removing\<close>

lemma insert_walk_head:
  assumes "insert_walk sched timer t e l q = (timer # q', tm, sl)" "timer \<notin> set q"
  shows "tm = t"
proof (cases q)
  case (Cons x rest)
  from assms(1) [unfolded Cons] show ?thesis
    by (cases rule: insert_walk_cases) (use assms(2) Cons in auto)
qed (use assms in simp)

text \<open>The state after an insertion.\<close>

lemma insert_timer_state:
  assumes "q_inv s" "t_queue (tm_timer s timer) = None"
    "sint e \<le> sint (sched_of s timer)" "sint (sched_of s timer) \<le> sint l"
  obtains q tm sl where
    "insert_walk (sched_of s) timer (sched_of s timer) e l (timer_queue (tm_cpu s cpu)) = (q, tm, sl)"
    "insert_timer_in_queue cpu timer e l s =
       upd_cpu cpu (\<lambda>p. p\<lparr> timer_queue := q \<rparr>)
         (upd_timer timer (\<lambda>x. x\<lparr> scheduled_time := tm, t_slack := sl, t_queue := Some cpu \<rparr>) s)"
    "q_inv (insert_timer_in_queue cpu timer e l s)"
    "set q = insert timer (set (timer_queue (tm_cpu s cpu)))" "sint e \<le> sint tm" "sint tm \<le> sint l"
proof -
  let ?q = "timer_queue (tm_cpu s cpu)"
  obtain q tm sl where w: "insert_walk (sched_of s) timer (sched_of s timer) e l ?q = (q, tm, sl)"
    by (cases "insert_walk (sched_of s) timer (sched_of s timer) e l ?q")
  have fresh: "timer \<notin> set (timer_queue (tm_cpu s c))" for c
    using q_invD(3) [OF assms(1)] assms(2) by simp
  note walk = insert_walk_queue [OF w fresh]
  let ?s = "insert_timer_in_queue cpu timer e l s"
  have eq: "?s = upd_cpu cpu (\<lambda>p. p\<lparr> timer_queue := q \<rparr>)
         (upd_timer timer (\<lambda>x. x\<lparr> scheduled_time := tm, t_slack := sl, t_queue := Some cpu \<rparr>) s)"
    using w by (simp add: insert_timer_in_queue_def sched_of_def [abs_def])
  have sched: "sched_of ?s = (sched_of s)(timer := tm)"
    unfolding eq by (auto simp: sched_of_def fun_eq_iff)
  have "sorted_by (sched_of ?s) (timer_queue (tm_cpu ?s c))" for c
  proof (cases "c = cpu")
    case True
    then show ?thesis
      using insert_walk_sorted [OF w fresh q_invD(2) [OF assms(1)] assms(3,4)]
      unfolding sched by (simp add: eq)
  next
    case False
    have "sorted_by ((sched_of s)(timer := tm)) (timer_queue (tm_cpu s c))
          = sorted_by (sched_of s) (timer_queue (tm_cpu s c))"
      using fresh by (intro sorted_by_cong) auto
    with False q_invD(2) [OF assms(1), of c] show ?thesis unfolding sched by (simp add: eq)
  qed
  moreover have "distinct (timer_queue (tm_cpu ?s c))" for c
    using walk q_invD(1) [OF assms(1)] by (simp add: eq)
  moreover have "t \<in> set (timer_queue (tm_cpu ?s c)) \<longleftrightarrow> t_queue (tm_timer ?s t) = Some c" for t c
    using walk q_invD(3) [OF assms(1), of t c] fresh [of c] by (auto simp: eq)
  ultimately have "q_inv ?s" unfolding q_inv_def by blast
  with that [OF w eq] walk insert_walk_window [OF w assms(3,4)] show ?thesis by blast
qed

lemma unlink_simps [simp]:
  "scheduled_time (tm_timer (unlink t s) u) = scheduled_time (tm_timer s u)"
  "t_queue (tm_timer (unlink t s) t) = None"
  "u \<noteq> t \<Longrightarrow> tm_timer (unlink t s) u = tm_timer s u"
  "next_timer_deadline (tm_cpu (unlink t s) c) = next_timer_deadline (tm_cpu s c)"
  "preempt_timer_deadline (tm_cpu (unlink t s) c) = preempt_timer_deadline (tm_cpu s c)"
  by (simp_all add: unlink_def split: option.split)

lemma unlink_queue:
  assumes "q_inv s"
  shows "timer_queue (tm_cpu (unlink t s) c) = remove1 t (timer_queue (tm_cpu s c))"
  using q_invD(3) [OF assms, of t c]
  by (auto simp: unlink_def remove1_idem split: option.split)

lemma sorted_by_remove1: "sorted_by f q \<Longrightarrow> sorted_by f (remove1 t q)"
  by (induction q) (auto dest: notin_set_remove1 set_mp [OF set_remove1_subset])

lemma keeps_unlink:
  assumes "q_inv s"
  shows "keeps_timers s (unlink t s)"
proof -
  have sched: "sched_of (unlink t s) = sched_of s" by (simp add: sched_of_def fun_eq_iff)
  have "sorted_by (sched_of s) (remove1 t (timer_queue (tm_cpu s c)))" for c
    by (rule sorted_by_remove1 [OF q_invD(2) [OF assms]])
  moreover have "u \<in> set (remove1 t (timer_queue (tm_cpu s c)))
      \<longleftrightarrow> t_queue (tm_timer (unlink t s) u) = Some c" for u c
    using q_invD(1) [OF assms, of c] q_invD(3) [OF assms, of u c] by (cases "u = t") auto
  ultimately have "q_inv (unlink t s)"
    using q_invD(1) [OF assms] unfolding q_inv_def unlink_queue [OF assms] sched by simp
  moreover have "armed (unlink t s) c" if "armed s c" for c
    using that set_remove1_subset [of t] unfolding armed_def unlink_queue [OF assms] sched by force
  ultimately show ?thesis by (simp add: keeps_timers_def)
qed

section \<open>The operations keep the cpus armed\<close>

lemma head_is_iff: "head_is t q \<longleftrightarrow> (\<exists>r. q = t # r)"
  by (cases q) (auto simp: head_is_def)

text \<open>On a sorted queue it is enough to be armed for the head.\<close>

lemma armedI_head:
  assumes "q_inv s" "sint (next_timer_deadline (tm_cpu s c)) \<le> sint (preempt_timer_deadline (tm_cpu s c))"
    "\<And>h r. timer_queue (tm_cpu s c) = h # r \<Longrightarrow> sint (next_timer_deadline (tm_cpu s c)) \<le> sint (sched_of s h)"
  shows "armed s c"
proof -
  have "sint (next_timer_deadline (tm_cpu s c)) \<le> sint (sched_of s t)"
    if t: "t \<in> set (timer_queue (tm_cpu s c))" for t
  proof -
    obtain h r where q: "timer_queue (tm_cpu s c) = h # r" using t by (cases "timer_queue (tm_cpu s c)") auto
    have "sint (sched_of s h) \<le> sint (sched_of s t)"
      using q_invD(2) [OF assms(1), of c] t unfolding q by auto
    with assms(3) [OF q] show ?thesis by simp
  qed
  with assms(2) show ?thesis by (simp add: armed_def)
qed

lemma keeps_timer_set:
  assumes "q_inv s" "0 \<le> sint (slack_amount (dl_slack deadline))"
    "timer_set cpu timer deadline callback arg s = Some s'"
  shows "keeps_timers s s'"
proof -
  let ?s1 = "upd_timer timer (\<lambda>x. x\<lparr> scheduled_time := dl_when deadline,
                 t_callback := callback, t_arg := arg, t_cancel := False \<rparr>) s"
  let ?s2 = "insert_timer_in_queue cpu timer (earliest deadline) (latest deadline) ?s1"
  have unq: "t_queue (tm_timer s timer) = None"
    and res: "s' = s \<or> s' = (if head_is timer (timer_queue (tm_cpu ?s2 cpu))
                      then update_platform_timer cpu (dl_when deadline) ?s2 else ?s2)"
    using assms(3) by (auto simp: timer_set_def Let_def split: if_splits)
  have k1: "keeps_timers s ?s1" by (rule keeps_upd_timer [OF assms(1)]) (simp_all add: unq)
  then have inv1: "q_inv ?s1" by (simp add: keeps_timers_def)
  have t1: "sched_of ?s1 timer = dl_when deadline" "t_queue (tm_timer ?s1 timer) = None"
    by (simp_all add: sched_of_def unq)
  have win: "sint (earliest deadline) \<le> sint (sched_of ?s1 timer)"
    "sint (sched_of ?s1 timer) \<le> sint (latest deadline)"
    unfolding t1(1) by (rule deadline_window [OF assms(2)])+
  obtain q tm sl where w: "insert_walk (sched_of ?s1) timer (dl_when deadline) (earliest deadline)
        (latest deadline) (timer_queue (tm_cpu ?s1 cpu)) = (q, tm, sl)"
    and s2: "?s2 = upd_cpu cpu (\<lambda>p. p\<lparr> timer_queue := q \<rparr>)
         (upd_timer timer (\<lambda>x. x\<lparr> scheduled_time := tm, t_slack := sl, t_queue := Some cpu \<rparr>) ?s1)"
    and inv2: "q_inv ?s2" and q: "set q = insert timer (set (timer_queue (tm_cpu ?s1 cpu)))"
    and "sint (earliest deadline) \<le> sint tm" "sint tm \<le> sint (latest deadline)"
    by (rule insert_timer_state [OF inv1 t1(2) win, where cpu = cpu, unfolded t1(1)]) (rule that)
  have fresh: "timer \<notin> set (timer_queue (tm_cpu s c))" for c
    using q_invD(3) [OF assms(1)] unq by simp
  have sched2: "sched_of ?s2 u = sched_of ?s1 u" if "u \<noteq> timer" for u
    using that by (simp add: s2 sched_of_def)
  let ?s3 = "if head_is timer (timer_queue (tm_cpu ?s2 cpu))
             then update_platform_timer cpu (dl_when deadline) ?s2 else ?s2"
  have inv3: "q_inv ?s3" using inv2 keeps_update_platform_timer by (simp add: keeps_timers_def)
  have "armed ?s3 c" if arm: "armed ?s1 c" for c
  proof (cases "c = cpu")
    case False
    show ?thesis
      by (rule armed_cong [OF _ _ _ _ arm])
        (use False fresh [of c] sched2 in \<open>auto simp: s2 sched_of_def\<close>)
  next
    case True
    have tmq: "timer_queue (tm_cpu ?s2 cpu) = q" by (simp add: s2)
    show ?thesis
    proof (rule armedI_head [OF inv3])
      show "sint (next_timer_deadline (tm_cpu ?s3 c)) \<le> sint (preempt_timer_deadline (tm_cpu ?s3 c))"
        using arm True by (auto simp: armed_def s2)
      fix h r
      assume h: "timer_queue (tm_cpu ?s3 c) = h # r"
      have hq: "q = h # r" using h True tmq by (simp split: if_splits)
      show "sint (next_timer_deadline (tm_cpu ?s3 c)) \<le> sint (sched_of ?s3 h)"
      proof (cases "h = timer")
        case head: True
        then have "tm = dl_when deadline"
          using insert_walk_head [OF w [unfolded hq head]] fresh by simp
        then show ?thesis
          using head True hq tmq by (auto simp: head_is_iff sched_of_def s2)
      next
        case other: False
        then have "h \<in> set (timer_queue (tm_cpu ?s1 cpu))" using q hq by auto
        then show ?thesis
          using arm True other hq tmq sched2 [OF other]
          by (auto simp: armed_def head_is_iff s2 sched_of_def)
      qed
    qed
  qed
  then have "keeps_timers ?s1 ?s3" using inv3 by (simp add: keeps_timers_def)
  with res k1 assms(1) show ?thesis by (auto intro: keeps_timers_trans simp: keeps_timers_def)
qed

lemma sint_le_infinite [simp]: "sint (d :: zx_time_t) \<le> sint ZX_TIME_INFINITE"
  using sint64_bounds(2) [of d] by simp

lemma keeps_preempt_reset: "q_inv s \<Longrightarrow> keeps_timers s (timer_preempt_reset cpu d s)"
  unfolding keeps_timers_def timer_preempt_reset_def
  by (auto intro: q_inv_cong simp: armed_def sched_of_def)

lemma keeps_preempt_cancel: "q_inv s \<Longrightarrow> keeps_timers s (timer_preempt_cancel cpu s)"
  unfolding keeps_timers_def timer_preempt_cancel_def
  by (auto intro: q_inv_cong simp: armed_def sched_of_def simp del: sint_infinities)

lemma keeps_platform_stop: "q_inv s \<Longrightarrow> keeps_timers s (platform_stop_timer cpu s)"
  unfolding keeps_timers_def by (auto intro: q_inv_cong simp: armed_def sched_of_def)

lemma keeps_q_inv: "keeps_timers s s' \<Longrightarrow> q_inv s'"
  by (simp add: keeps_timers_def)

lemma keeps_timers_refl: "q_inv s \<Longrightarrow> keeps_timers s s"
  by (simp add: keeps_timers_def)

lemma keeps_timer_cancel_locked:
  assumes "q_inv s"
  shows "keeps_timers s (snd (timer_cancel_locked cpu timer s))"
proof -
  let ?s1 = "upd_timer timer (\<lambda>x. x\<lparr> t_cancel := True \<rparr>) s"
  let ?s2 = "unlink timer ?s1"
  have k1: "keeps_timers s ?s1" by (rule keeps_upd_timer [OF assms]) simp_all
  note inv1 = keeps_q_inv [OF k1]
  have k2: "keeps_timers s ?s2" by (rule keeps_timers_trans [OF k1 keeps_unlink [OF inv1]])
  note inv2 = keeps_q_inv [OF k2]
  have "keeps_timers ?s1 (upd_timer timer (\<lambda>x. x\<lparr> t_callback := None, t_arg := None \<rparr>) ?s1)"
    by (rule keeps_upd_timer [OF inv1]) simp_all
  with k1 have k3: "keeps_timers s (upd_timer timer (\<lambda>x. x\<lparr> t_callback := None, t_arg := None \<rparr>) ?s1)"
    by (rule keeps_timers_trans)
  have k4: "keeps_timers s (update_platform_timer cpu d ?s2)" for d
    by (rule keeps_timers_trans [OF k2 keeps_update_platform_timer [OF inv2]])
  have k5: "keeps_timers s (platform_stop_timer cpu ?s2)"
    by (rule keeps_timers_trans [OF k2 keeps_platform_stop [OF inv2]])
  show ?thesis
    using k1 k2 k3 k4 k5 unfolding timer_cancel_locked_def Let_def
    by (simp split: list.split)
qed

lemma keeps_timer_cancel_finish:
  "q_inv s \<Longrightarrow> timer_cancel_finish timer s = Some s' \<Longrightarrow> keeps_timers s s'"
  by (auto simp: timer_cancel_finish_def split: if_splits intro!: keeps_upd_timer)

text \<open>After a tick or a thaw the cpu is armed, whatever its deadline was before.\<close>

lemma min_deadline_arms:
  assumes "q_inv s"
    "sint d \<le> sint (preempt_timer_deadline (tm_cpu s cpu))"
    "\<And>h r. timer_queue (tm_cpu s cpu) = h # r \<Longrightarrow> sint d \<le> sint (sched_of s h)"
  shows "armed (update_platform_timer cpu d s) cpu"
proof (rule armedI_head)
  show "q_inv (update_platform_timer cpu d s)"
    using keeps_update_platform_timer [OF assms(1)] by (rule keeps_q_inv)
qed (use assms(2,3) in \<open>auto simp: sched_of_def min.coboundedI1\<close>)

lemma timer_thaw_arms:
  assumes "q_inv s"
  shows "q_inv (timer_thaw_percpu cpu s)" "armed (timer_thaw_percpu cpu s) cpu"
    "c \<noteq> cpu \<Longrightarrow> armed s c \<Longrightarrow> armed (timer_thaw_percpu cpu s) c"
proof -
  let ?s1 = "upd_cpu cpu (\<lambda>p. p\<lparr> next_timer_deadline := ZX_TIME_INFINITE \<rparr>) s"
  obtain d where eq: "timer_thaw_percpu cpu s = update_platform_timer cpu d ?s1"
    and d: "sint d \<le> sint (preempt_timer_deadline (tm_cpu s cpu))"
      "\<And>h r. timer_queue (tm_cpu s cpu) = h # r \<Longrightarrow> sint d \<le> sint (sched_of s h)"
    by (cases "timer_queue (tm_cpu s cpu)")
      (auto simp: timer_thaw_percpu_def Let_def sched_of_def)
  have inv1: "q_inv ?s1" by (rule q_inv_cong [OF _ _ _ assms]) (simp_all add: sched_of_def)
  show "q_inv (timer_thaw_percpu cpu s)"
    unfolding eq by (rule keeps_q_inv [OF keeps_update_platform_timer [OF inv1]])
  show "armed (timer_thaw_percpu cpu s) cpu"
    unfolding eq by (rule min_deadline_arms [OF inv1]) (use d in \<open>auto simp: sched_of_def\<close>)
  show "armed (timer_thaw_percpu cpu s) c" if "c \<noteq> cpu" "armed s c"
    by (rule armed_cong [OF _ _ _ _ that(2)]) (use that(1) in \<open>auto simp: eq sched_of_def\<close>)
qed

lemma tick_finish_arms:
  assumes "q_inv s"
  shows "q_inv (tick_finish cpu s)" "armed (tick_finish cpu s) cpu"
    "armed s c \<Longrightarrow> armed (tick_finish cpu s) c"
proof -
  obtain d where eq: "tick_finish cpu s = update_platform_timer cpu d s"
    and d: "sint d \<le> sint (preempt_timer_deadline (tm_cpu s cpu))"
      "\<And>h r. timer_queue (tm_cpu s cpu) = h # r \<Longrightarrow> sint d \<le> sint (sched_of s h)"
    by (cases "timer_queue (tm_cpu s cpu)")
      (auto simp: tick_finish_def Let_def sched_of_def simp del: sint_infinities)
  have k: "keeps_timers s (update_platform_timer cpu d s)"
    by (rule keeps_update_platform_timer [OF assms])
  then show "q_inv (tick_finish cpu s)" "armed s c \<Longrightarrow> armed (tick_finish cpu s) c"
    unfolding eq by (simp_all add: keeps_timers_def)
  show "armed (tick_finish cpu s) cpu"
    unfolding eq by (rule min_deadline_arms [OF assms]) (use d in auto)
qed

lemma keeps_tick_loop:
  assumes cb: "\<And>f t n a s. q_inv s \<Longrightarrow> keeps_timers s (cb f t n a s)"
    and "q_inv s" "tick_loop fuel cb cpu now s = Some (fired, s')"
  shows "keeps_timers s s'"
  using assms(2,3)
proof (induction fuel arbitrary: s fired)
  case (Suc fuel)
  show ?case
  proof (cases "s' = s")
    case True
    with Suc.prems(1) show ?thesis by (simp add: keeps_timers_refl)
  next
    case False
    obtain t q where q: "timer_queue (tm_cpu s cpu) = t # q"
      using Suc.prems(2) False by (auto split: list.splits)
    let ?s1 = "upd_timer t (\<lambda>x. x\<lparr> active_cpu := int cpu \<rparr>) (unlink t s)"
    let ?s2 = "cb (t_callback (tm_timer ?s1 t)) t now (t_arg (tm_timer ?s1 t)) ?s1"
    let ?s3 = "upd_timer t (\<lambda>x. x\<lparr> active_cpu := -1 \<rparr>) ?s2"
    obtain fired' where rec: "tick_loop fuel cb cpu now ?s3 = Some (fired', s')"
      using Suc.prems(2) q False by (auto simp: Let_def split: if_splits)
    have k0: "keeps_timers s (unlink t s)" by (rule keeps_unlink [OF Suc.prems(1)])
    have k1: "keeps_timers (unlink t s) ?s1" by (rule keeps_upd_timer [OF keeps_q_inv [OF k0]]) simp_all
    have k2: "keeps_timers ?s1 ?s2" by (rule cb [OF keeps_q_inv [OF k1]])
    have k3: "keeps_timers ?s2 ?s3" by (rule keeps_upd_timer [OF keeps_q_inv [OF k2]]) simp_all
    have "keeps_timers ?s3 s'" by (rule Suc.IH [OF keeps_q_inv [OF k3] rec])
    with k0 k1 k2 k3 show ?thesis by (meson keeps_timers_trans)
  qed
qed simp

lemma timer_tick_arms:
  assumes cb: "\<And>f t n a s. q_inv s \<Longrightarrow> keeps_timers s (cb f t n a s)"
    and pre: "\<And>n s. q_inv s \<Longrightarrow> keeps_timers s (preempt n s)"
    and inv: "q_inv s" and run: "timer_tick fuel cb preempt cpu now s = Some (fired, s')"
  shows "q_inv s'" "armed s' cpu" "c \<noteq> cpu \<Longrightarrow> armed s c \<Longrightarrow> armed s' c"
proof -
  let ?s1 = "upd_cpu cpu (\<lambda>p. p\<lparr> next_timer_deadline := ZX_TIME_INFINITE \<rparr>) s"
  let ?s1' = "upd_cpu cpu (\<lambda>p. p\<lparr> preempt_timer_deadline := ZX_TIME_INFINITE \<rparr>) ?s1"
  let ?s2 = "if sint now \<ge> sint (preempt_timer_deadline (tm_cpu ?s1 cpu)) then preempt now ?s1' else ?s1"
  obtain s3 where loop: "tick_loop fuel cb cpu now ?s2 = Some (fired, s3)" and s': "s' = tick_finish cpu s3"
    using run unfolding timer_tick_def Let_def by auto
  have inv1: "q_inv ?s1" by (rule q_inv_cong [OF _ _ _ inv]) (simp_all add: sched_of_def)
  have inv1': "q_inv ?s1'" by (rule q_inv_cong [OF _ _ _ inv]) (simp_all add: sched_of_def)
  have inv2: "q_inv ?s2" using inv1 keeps_q_inv [OF pre [OF inv1']] by simp
  have arm2: "armed ?s2 c" if "c \<noteq> cpu" "armed s c" for c
  proof -
    have "armed ?s1 c" "armed ?s1' c" using that by (simp_all add: armed_def sched_of_def)
    with pre [OF inv1'] show ?thesis by (simp add: keeps_timers_def)
  qed
  have k: "keeps_timers ?s2 s3" by (rule keeps_tick_loop [OF cb inv2 loop])
  then have inv3: "q_inv s3" by (rule keeps_q_inv)
  show "q_inv s'" "armed s' cpu" unfolding s' by (rule tick_finish_arms [OF inv3])+
  show "armed s' c" if "c \<noteq> cpu" "armed s c"
    unfolding s' using tick_finish_arms(3) [OF inv3] arm2 [OF that] k by (simp add: keeps_timers_def)
qed

text \<open>Moving the timers of another cpu: nothing but the two queues changes, and no timer moves in
  time, because it is inserted without slack.\<close>

lemma move_timers_state:
  assumes "q_inv s" "old \<noteq> cpu" "timer_queue (tm_cpu s old) = es"
  shows "q_inv (move_timers cpu es s) \<and> timer_queue (tm_cpu (move_timers cpu es s) old) = []
    \<and> sched_of (move_timers cpu es s) = sched_of s
    \<and> set (timer_queue (tm_cpu (move_timers cpu es s) cpu)) = set es \<union> set (timer_queue (tm_cpu s cpu))
    \<and> (\<forall>c. c \<noteq> cpu \<longrightarrow> c \<noteq> old \<longrightarrow>
         timer_queue (tm_cpu (move_timers cpu es s) c) = timer_queue (tm_cpu s c))
    \<and> (\<forall>c. next_timer_deadline (tm_cpu (move_timers cpu es s) c) = next_timer_deadline (tm_cpu s c)
         \<and> preempt_timer_deadline (tm_cpu (move_timers cpu es s) c) = preempt_timer_deadline (tm_cpu s c))"
  using assms(1,3)
proof (induction es arbitrary: s)
  case (Cons e es)
  let ?s1 = "unlink e s"
  let ?tm = "sched_of ?s1 e"
  let ?s2 = "insert_timer_in_queue cpu e ?tm ?tm ?s1"
  have inv1: "q_inv ?s1" by (rule keeps_q_inv [OF keeps_unlink [OF Cons.prems(1)]])
  have unq: "t_queue (tm_timer ?s1 e) = None" by simp
  obtain q tm sl where w: "insert_walk (sched_of ?s1) e ?tm ?tm ?tm (timer_queue (tm_cpu ?s1 cpu)) = (q, tm, sl)"
    and s2: "?s2 = upd_cpu cpu (\<lambda>p. p\<lparr> timer_queue := q \<rparr>)
         (upd_timer e (\<lambda>x. x\<lparr> scheduled_time := tm, t_slack := sl, t_queue := Some cpu \<rparr>) ?s1)"
    and inv2: "q_inv ?s2" and q: "set q = insert e (set (timer_queue (tm_cpu ?s1 cpu)))"
    and win: "sint ?tm \<le> sint tm" "sint tm \<le> sint ?tm"
    by (rule insert_timer_state [OF inv1 unq order_refl order_refl, where cpu = cpu]) (rule that)
  have "sint tm = sint ?tm" using win by simp
  then have tm: "tm = ?tm" by (rule signed_word_eqI)
  have sched: "sched_of ?s2 = sched_of s"
    unfolding s2 tm by (rule ext) (simp add: sched_of_def)
  have e: "e \<notin> set (timer_queue (tm_cpu s c))" if "c \<noteq> old" for c
    using q_invD(3) [OF Cons.prems(1), of e] Cons.prems(2) that by (metis list.set_intros(1) option.inject)
  have queues: "timer_queue (tm_cpu ?s2 c) = (if c = cpu then q else remove1 e (timer_queue (tm_cpu s c)))" for c
    by (simp add: s2 unlink_queue [OF Cons.prems(1)])
  have "timer_queue (tm_cpu ?s2 old) = es"
    using assms(2) Cons.prems(2) by (simp add: queues)
  note IH = Cons.IH [OF inv2 this]
  have run: "move_timers cpu (e # es) s = move_timers cpu es ?s2"
    by (simp add: Let_def sched_of_def)
  have q': "set q = insert e (set (timer_queue (tm_cpu s cpu)))"
    using q e [of cpu] assms(2) by (simp add: unlink_queue [OF Cons.prems(1)] remove1_idem)
  have next': "next_timer_deadline (tm_cpu ?s2 c) = next_timer_deadline (tm_cpu s c)
      \<and> preempt_timer_deadline (tm_cpu ?s2 c) = preempt_timer_deadline (tm_cpu s c)" for c
    by (simp add: s2)
  show ?case
    unfolding run using IH sched q' e queues next' by (simp add: remove1_idem)
qed (simp add: assms)

lemma transition_arms:
  assumes "q_inv s" "old \<noteq> cpu"
  shows "keeps_timers s (timer_transition_off_cpu cpu old s)"
    "timer_queue (tm_cpu (timer_transition_off_cpu cpu old s) old) = []"
    "set (timer_queue (tm_cpu (timer_transition_off_cpu cpu old s) cpu))
       = set (timer_queue (tm_cpu s old)) \<union> set (timer_queue (tm_cpu s cpu))"
    "sched_of (timer_transition_off_cpu cpu old s) = sched_of s"
proof -
  let ?s1 = "move_timers cpu (timer_queue (tm_cpu s old)) s"
  note m = move_timers_state [OF assms refl]
  let ?s2 = "case timer_queue (tm_cpu ?s1 cpu) of
                  [] \<Rightarrow> ?s1
                | h # _ \<Rightarrow>
                    if head_is h (timer_queue (tm_cpu s cpu)) then ?s1
                    else update_platform_timer cpu (scheduled_time (tm_timer ?s1 h)) ?s1"
  let ?s3 = "upd_cpu old (\<lambda>p. p\<lparr> preempt_timer_deadline := ZX_TIME_INFINITE,
                               next_timer_deadline := ZX_TIME_INFINITE \<rparr>) ?s2"
  have eq: "timer_transition_off_cpu cpu old s = ?s3"
    by (simp add: timer_transition_off_cpu_def Let_def)
  have q2: "timer_queue (tm_cpu ?s2 c) = timer_queue (tm_cpu ?s1 c)" for c by (simp split: list.split)
  have t2: "tm_timer ?s2 = tm_timer ?s1" by (simp split: list.split)
  have p2: "preempt_timer_deadline (tm_cpu ?s2 c) = preempt_timer_deadline (tm_cpu s c)" for c
    using m by (simp split: list.split)
  have n2: "sint (next_timer_deadline (tm_cpu ?s2 c)) \<le> sint (next_timer_deadline (tm_cpu s c))"
    "c \<noteq> cpu \<Longrightarrow> sint (next_timer_deadline (tm_cpu ?s2 c)) = sint (next_timer_deadline (tm_cpu s c))" for c
    using m by (simp_all split: list.split)
  have inv3: "q_inv ?s3"
  proof (rule q_inv_cong [of ?s3 ?s1])
    show "q_inv ?s1" using m by blast
  qed (simp_all add: q2 t2 sched_of_def)
  have q3: "timer_queue (tm_cpu ?s3 c) = timer_queue (tm_cpu ?s1 c)" for c using q2 by simp
  have s3: "sched_of ?s3 = sched_of s" using m t2 by (simp add: sched_of_def [abs_def])
  have "armed ?s3 c" if arm: "armed s c" for c
  proof -
    consider "c = old" | "c = cpu" | "c \<noteq> old" "c \<noteq> cpu" by blast
    then show ?thesis
    proof cases
      case 1
      then show ?thesis using m by (simp add: armed_def q2)
    next
      case 2
      show ?thesis
      proof (rule armedI_head [OF inv3])
        show "sint (next_timer_deadline (tm_cpu ?s3 c)) \<le> sint (preempt_timer_deadline (tm_cpu ?s3 c))"
          using 2 assms(2) arm n2(1) [of c] p2 [of c] by (auto simp: armed_def)
        fix h r
        assume "timer_queue (tm_cpu ?s3 c) = h # r"
        then have h: "timer_queue (tm_cpu ?s1 cpu) = h # r" using q3 2 by simp
        show "sint (next_timer_deadline (tm_cpu ?s3 c)) \<le> sint (sched_of ?s3 h)"
        proof (cases "head_is h (timer_queue (tm_cpu s cpu))")
          case True
          then have "h \<in> set (timer_queue (tm_cpu s cpu))" by (auto simp: head_is_iff)
          with arm 2 have "sint (next_timer_deadline (tm_cpu s cpu)) \<le> sint (sched_of s h)"
            by (simp add: armed_def)
          with n2(1) [of cpu] 2 assms(2) show ?thesis unfolding s3 by simp
        next
          case False
          have "sched_of ?s1 h = sched_of s h" using m by simp
          with False h 2 assms(2) show ?thesis unfolding s3 by (simp add: sched_of_def)
        qed
      qed
    next
      case 3
      then show ?thesis
        using arm m n2 [of c] p2 [of c] q2 [of c] unfolding armed_def s3 by auto
    qed
  qed
  with inv3 show "keeps_timers s (timer_transition_off_cpu cpu old s)"
    unfolding eq by (simp add: keeps_timers_def)
  show "timer_queue (tm_cpu (timer_transition_off_cpu cpu old s) old) = []"
    "set (timer_queue (tm_cpu (timer_transition_off_cpu cpu old s) cpu))
       = set (timer_queue (tm_cpu s old)) \<union> set (timer_queue (tm_cpu s cpu))"
    "sched_of (timer_transition_off_cpu cpu old s) = sched_of s"
    unfolding eq q3 s3 using m by blast+
qed


section \<open>Reachable timer states\<close>

text \<open>
  What a callback can do to the timers: nothing, or a sequence of calls of the timer interface on
  any cpu.
\<close>

inductive timer_api :: "timers \<Rightarrow> timers \<Rightarrow> bool" where
  api_done: "timer_api s s"
| api_set: "timer_api s s1 \<Longrightarrow> 0 \<le> sint (slack_amount (dl_slack d)) \<Longrightarrow>
     timer_set cpu t d cb arg s1 = Some s2 \<Longrightarrow> timer_api s s2"
| api_cancel: "timer_api s s1 \<Longrightarrow> timer_api s (snd (timer_cancel_locked cpu t s1))"
| api_cancel_finish: "timer_api s s1 \<Longrightarrow> timer_cancel_finish t s1 = Some s2 \<Longrightarrow> timer_api s s2"
| api_preempt_reset: "timer_api s s1 \<Longrightarrow> timer_api s (timer_preempt_reset cpu d s1)"
| api_preempt_cancel: "timer_api s s1 \<Longrightarrow> timer_api s (timer_preempt_cancel cpu s1)"

lemma timer_api_keeps: "timer_api s s' \<Longrightarrow> q_inv s \<Longrightarrow> keeps_timers s s'"
  by (induction rule: timer_api.induct)
    (auto intro: keeps_timers_refl keeps_timers_trans keeps_timer_set keeps_timer_cancel_locked
      keeps_timer_cancel_finish keeps_preempt_reset keeps_preempt_cancel dest: keeps_q_inv)

inductive timer_step :: "timers \<Rightarrow> timers \<Rightarrow> bool" where
  step_api: "timer_api s s' \<Longrightarrow> timer_step s s'"
| step_init: "t_queue (tm_timer s t) = None \<Longrightarrow> timer_step s (timer_init t s)"
| step_tick: "(\<And>f t n a s. timer_api s (cb f t n a s)) \<Longrightarrow> (\<And>n s. timer_api s (preempt n s)) \<Longrightarrow>
     timer_tick fuel cb preempt cpu now s = Some (fired, s') \<Longrightarrow> timer_step s s'"
| step_transition: "old \<noteq> cpu \<Longrightarrow> timer_step s (timer_transition_off_cpu cpu old s)"
| step_thaw: "timer_step s (timer_thaw_percpu cpu s)"

inductive timer_reachable :: "timers \<Rightarrow> bool" where
  timer_reach_init: "(\<And>t. t_queue (tm_timer s t) = None) \<Longrightarrow> timer_reachable (timer_queue_init s)"
| timer_reach_step: "timer_reachable s \<Longrightarrow> timer_step s s' \<Longrightarrow> timer_reachable s'"

lemma timer_step_inv:
  assumes "timer_step s s'" "q_inv s" "\<forall>c. armed s c"
  shows "q_inv s' \<and> (\<forall>c. armed s' c)"
  using assms
proof (induction rule: timer_step.induct)
  case (step_api s s')
  then show ?case using timer_api_keeps [of s s'] by (simp add: keeps_timers_def)
next
  case (step_init s t)
  have "keeps_timers s (timer_init t s)"
    unfolding timer_init_def
    by (rule keeps_upd_timer) (simp_all add: step_init TIMER_INITIAL_VALUE_def)
  with step_init show ?case by (simp add: keeps_timers_def)
next
  case (step_tick cb preempt fuel cpu now s fired s')
  note arms = timer_tick_arms [OF timer_api_keeps [OF step_tick(1)] timer_api_keeps [OF step_tick(2)]
      step_tick(4,3)]
  show ?case using arms step_tick(5) by metis
next
  case (step_transition old cpu s)
  then show ?case using transition_arms(1) [of s old cpu] by (simp add: keeps_timers_def)
next
  case (step_thaw s cpu)
  then show ?case using timer_thaw_arms [of s] by metis
qed

lemma timer_reachable_inv: "timer_reachable s \<Longrightarrow> q_inv s \<and> (\<forall>c. armed s c)"
proof (induction rule: timer_reachable.induct)
  case (timer_reach_init s)
  then show ?case by (simp add: q_inv_def armed_def timer_queue_init_def)
next
  case (timer_reach_step s s')
  then show ?case using timer_step_inv by blast
qed

section \<open>Properties of the timers\<close>


definition timers0 :: timers where
  "timers0 = timer_queue_init \<lparr> tm_timer = (\<lambda>_. TIMER_INITIAL_VALUE), 
               tm_cpu = (\<lambda>_. \<lparr> timer_queue = [], preempt_timer_deadline = 0, next_timer_deadline = 0 \<rparr>),
               tm_oneshot = (\<lambda>_. None) \<rparr>"

lemma timers0_reachable: "timer_reachable timers0"
  unfolding timers0_def by (rule timer_reach_init) (simp add: TIMER_INITIAL_VALUE_def)

text \<open>Timer 1 at 100, then timer 2 at 90 with a slack of 20 around it: they are coalesced.\<close>

definition timers2 :: timers where
  "timers2 =
     the (timer_set 0 2 \<lparr> dl_when = 90, dl_slack = \<lparr> slack_amount = 20, slack_mode = TIMER_SLACK_CENTER \<rparr> \<rparr>
            None None (the (timer_set 0 1 (Deadline_no_slack 100) None None timers0)))"

lemmas timer_example_defs =
  timers0_def timers2_def timer_set_def timer_queue_init_def TIMER_INITIAL_VALUE_def
  Deadline_no_slack_def TimerSlack_none_def earliest_def latest_def Let_def upd_timer_def upd_cpu_def
  insert_timer_in_queue_def head_is_def update_platform_timer_def platform_set_oneshot_timer_def
  zx_time_add_duration_def zx_time_sub_duration_def zx_time_sub_time_def add_overflow_def
  sub_overflow_def insert_walk_Cons stops_at_def

lemma timers1_some: "\<exists>s1. timer_set 0 1 (Deadline_no_slack 100) None None timers0 = Some s1"
  by (simp add: timer_example_defs)

lemma timers2_some: "timer_set 0 2 \<lparr> dl_when = 90, dl_slack = \<lparr> slack_amount = 20, slack_mode = TIMER_SLACK_CENTER \<rparr> \<rparr>
            None None (the (timer_set 0 1 (Deadline_no_slack 100) None None timers0)) = Some timers2"
  by (simp add: timer_example_defs)

lemma timers2_reachable: "timer_reachable timers2"
proof -
  obtain s1 where s1: "timer_set 0 1 (Deadline_no_slack 100) None None timers0 = Some s1"
    using timers1_some by blast
  have "timer_api timers0 s1"
    by (rule api_set [OF api_done _ s1]) (simp add: Deadline_no_slack_def TimerSlack_none_def)
  then have "timer_api timers0 timers2"
    by (rule api_set) (use timers2_some s1 in simp_all)
  then show ?thesis by (rule timer_reach_step [OF timers0_reachable step_api])
qed

lemma timers2_queue: "timer_queue (tm_cpu timers2 0) = [1, 2]" "sched_of timers2 2 = 100"
  "sched_of timers2 1 = 100"
  by (simp_all add: timer_example_defs sched_of_def)



text \<open>
  C26: Setting a timer respects its slack window and coalesces well.  Setting an idle timer in a
  reachable state succeeds; the timer joins the queue of the cpu, whose other entries keep their
  order and their times, at a scheduled time between the earliest and the latest time of its
  deadline.  If no queued timer lies in that window the deadline is kept exactly; otherwise the
  timer takes the time of a queued one, and when no time involved is negative, of the nearest one
  (one that lies exactly at the end of the window is only sure to be considered when it is the
  only one).
\<close>

theorem timer_set_window:
  assumes "timer_reachable s" "t_queue (tm_timer s t) = None" "active_cpu (tm_timer s t) < 0"
    "0 \<le> sint (slack_amount (dl_slack d))"
  shows "\<exists>s'. timer_set cpu t d cb arg s = Some s'
    \<and> remove1 t (timer_queue (tm_cpu s' cpu)) = timer_queue (tm_cpu s cpu)
    \<and> t \<in> set (timer_queue (tm_cpu s' cpu)) \<and> (\<forall>u. u \<noteq> t \<longrightarrow> sched_of s' u = sched_of s u)
    \<and> sint (earliest d) \<le> sint (sched_of s' t) \<and> sint (sched_of s' t) \<le> sint (latest d)
    \<and> ((\<forall>u \<in> set (timer_queue (tm_cpu s cpu)).
           \<not> (sint (earliest d) \<le> sint (sched_of s u) \<and> sint (sched_of s u) \<le> sint (latest d)))
        \<longrightarrow> sched_of s' t = dl_when d)
    \<and> (\<forall>u \<in> set (timer_queue (tm_cpu s cpu)).
         sint (earliest d) \<le> sint (sched_of s u) \<longrightarrow> sint (sched_of s u) \<le> sint (latest d) \<longrightarrow>
         sched_of s' t \<in> sched_of s ` set (timer_queue (tm_cpu s cpu))
         \<and> (0 \<le> sint (dl_when d) \<longrightarrow> (\<forall>v \<in> set (timer_queue (tm_cpu s cpu)). 0 \<le> sint (sched_of s v)) \<longrightarrow>
             sint (sched_of s u) < sint (latest d) \<longrightarrow>
             \<bar>sint (sched_of s' t) - sint (dl_when d)\<bar> \<le> \<bar>sint (sched_of s u) - sint (dl_when d)\<bar>))"
proof -
  have inv: "q_inv s" using timer_reachable_inv [OF assms(1)] by simp
  note win = deadline_window [OF assms(4)]
  let ?s1 = "upd_timer t (\<lambda>x. x\<lparr> scheduled_time := dl_when d, t_callback := cb, t_arg := arg,
                t_cancel := False \<rparr>) s"
  let ?q = "timer_queue (tm_cpu s cpu)"
  have fresh: "t \<notin> set ?q" using q_invD(3) [OF inv] assms(2) by simp
  have inv1: "q_inv ?s1" by (rule keeps_q_inv [OF keeps_upd_timer [OF inv]]) (simp_all add: assms(2))
  have t1: "sched_of ?s1 t = dl_when d" "t_queue (tm_timer ?s1 t) = None"
    by (simp_all add: sched_of_def assms(2))
  have s1: "sched_of ?s1 u = sched_of s u" if "u \<noteq> t" for u using that by (simp add: sched_of_def)
  obtain q tm sl where w: "insert_walk (sched_of ?s1) t (sched_of ?s1 t) (earliest d) (latest d)
        (timer_queue (tm_cpu ?s1 cpu)) = (q, tm, sl)"
    and s2: "insert_timer_in_queue cpu t (earliest d) (latest d) ?s1 =
       upd_cpu cpu (\<lambda>p. p\<lparr> timer_queue := q \<rparr>)
         (upd_timer t (\<lambda>x. x\<lparr> scheduled_time := tm, t_slack := sl, t_queue := Some cpu \<rparr>) ?s1)"
    and "q_inv (insert_timer_in_queue cpu t (earliest d) (latest d) ?s1)"
    and q: "set q = insert t (set (timer_queue (tm_cpu ?s1 cpu)))"
    and range: "sint (earliest d) \<le> sint tm" "sint tm \<le> sint (latest d)"
    by (rule insert_timer_state [OF inv1 t1(2), where cpu = cpu and e = "earliest d" and l = "latest d"])
      (use win t1 that in auto)
  have w': "insert_walk (sched_of ?s1) t (dl_when d) (earliest d) (latest d) ?q = (q, tm, sl)"
    using w by (simp add: sched_of_def)
  have sorted: "sorted_by (sched_of ?s1) ?q" using q_invD(2) [OF inv1, of cpu] by simp
  let ?s2 = "insert_timer_in_queue cpu t (earliest d) (latest d) ?s1"
  let ?s' = "if head_is t (timer_queue (tm_cpu ?s2 cpu)) then update_platform_timer cpu (dl_when d) ?s2 else ?s2"
  have run: "timer_set cpu t d cb arg s = Some ?s'"
    using assms(2,3) by (simp add: timer_set_def Let_def)
  have sched': "sched_of ?s' u = (if u = t then tm else sched_of s u)" for u
    by (simp add: s2 sched_of_def)
  have queue': "timer_queue (tm_cpu ?s' cpu) = q" by (simp add: s2)
  have sq: "sched_of ?s1 u = sched_of s u" if "u \<in> set ?q" for u using that fresh s1 by metis
  have alone: "tm = dl_when d" if "\<forall>u \<in> set ?q.
      \<not> (sint (earliest d) \<le> sint (sched_of s u) \<and> sint (sched_of s u) \<le> sint (latest d))"
    using insert_walk_alone [OF w' win] that sq by simp
  have coal: "tm \<in> sched_of s ` set ?q"
    if "u \<in> set ?q" "sint (earliest d) \<le> sint (sched_of s u)" "sint (sched_of s u) \<le> sint (latest d)" for u
    using insert_walk_coalesces [OF w' sorted win that(1)] that sq by (auto simp: image_iff)
  have near: "\<bar>sint tm - sint (dl_when d)\<bar> \<le> \<bar>sint (sched_of s u) - sint (dl_when d)\<bar>"
    if "u \<in> set ?q" "sint (earliest d) \<le> sint (sched_of s u)" "sint (sched_of s u) < sint (latest d)"
      "0 \<le> sint (dl_when d)" "\<forall>v \<in> set ?q. 0 \<le> sint (sched_of s v)" for u
    using insert_walk_nearest [OF w' sorted win that(4) _ that(1)] that sq by simp
  show ?thesis
    unfolding run using insert_walk_queue [OF w' fresh] range alone coal near
    by (intro exI [of _ ?s'] conjI refl) (auto simp: sched' queue')
qed

theorem timer_set_window_witness:
  "\<exists>s'. timer_set 0 3 \<lparr> dl_when = 95, dl_slack = \<lparr> slack_amount = 20, slack_mode = TIMER_SLACK_LATE \<rparr> \<rparr>
       None None timers2 = Some s' \<and> sched_of s' 3 = 100 \<and> 3 \<in> set (timer_queue (tm_cpu s' 0))"
proof -
  let ?d = "\<lparr> dl_when = 95, dl_slack = \<lparr> slack_amount = 20, slack_mode = TIMER_SLACK_LATE \<rparr> \<rparr> :: Deadline"
  have idle: "t_queue (tm_timer timers2 3) = None" "active_cpu (tm_timer timers2 3) < 0"
    by (simp_all add: timer_example_defs)
  have times: "sint (earliest ?d) = 95" "sint (latest ?d) = 115"
    by (simp_all add: timer_example_defs)
  obtain s' where run: "timer_set 0 3 ?d None None timers2 = Some s'"
    and q: "3 \<in> set (timer_queue (tm_cpu s' 0))"
    and coal: "\<forall>u \<in> set (timer_queue (tm_cpu timers2 0)).
         sint (earliest ?d) \<le> sint (sched_of timers2 u) \<longrightarrow> sint (sched_of timers2 u) \<le> sint (latest ?d) \<longrightarrow>
         sched_of s' 3 \<in> sched_of timers2 ` set (timer_queue (tm_cpu timers2 0))"
    using timer_set_window [OF timers2_reachable idle, of ?d 0 None None] by auto
  have "sched_of s' 3 = 100"
    using coal timers2_queue unfolding times by simp
  with run q show ?thesis by blast
qed

text \<open>A tick whose callbacks leave the timers alone.\<close>

lemma tick_loop_fires:
  assumes cb: "\<And>f t n a s. cb f t n a s = s"
    and "q_inv s" "fuel > length (timer_queue (tm_cpu s cpu))"
  shows "\<exists>s'. tick_loop fuel cb cpu now s =
      Some (filter (\<lambda>t. sint (sched_of s t) \<le> sint now) (timer_queue (tm_cpu s cpu)), s')
    \<and> q_inv s' \<and> sched_of s' = sched_of s
    \<and> timer_queue (tm_cpu s' cpu)
        = filter (\<lambda>t. \<not> sint (sched_of s t) \<le> sint now) (timer_queue (tm_cpu s cpu))
    \<and> (\<forall>c. c \<noteq> cpu \<longrightarrow> tm_cpu s' c = tm_cpu s c)
    \<and> preempt_timer_deadline (tm_cpu s' cpu) = preempt_timer_deadline (tm_cpu s cpu)
    \<and> next_timer_deadline (tm_cpu s' cpu) = next_timer_deadline (tm_cpu s cpu)"
  using assms(2,3)
proof (induction fuel arbitrary: s)
  case (Suc fuel)
  show ?case
  proof (cases "timer_queue (tm_cpu s cpu)")
    case Nil
    then show ?thesis using Suc.prems(1) by simp
  next
    case (Cons t q)
    show ?thesis
    proof (cases "sint now < sint (sched_of s t)")
      case True
      have "\<forall>u \<in> set (t # q). sint now < sint (sched_of s u)"
        using q_invD(2) [OF Suc.prems(1), of cpu] True unfolding Cons by auto
      then have none: "filter (\<lambda>t. sint (sched_of s t) \<le> sint now) (t # q) = []"
        "filter (\<lambda>t. \<not> sint (sched_of s t) \<le> sint now) (t # q) = t # q"
        by (auto simp: filter_empty_conv filter_id_conv)
      show ?thesis
        unfolding Cons none using True Suc.prems(1) Cons by (simp add: sched_of_def)
    next
      case False
      let ?s1 = "upd_timer t (\<lambda>x. x\<lparr> active_cpu := int cpu \<rparr>) (unlink t s)"
      let ?s3 = "upd_timer t (\<lambda>x. x\<lparr> active_cpu := -1 \<rparr>) ?s1"
      have k0: "keeps_timers s (unlink t s)" by (rule keeps_unlink [OF Suc.prems(1)])
      have k1: "keeps_timers (unlink t s) ?s1" by (rule keeps_upd_timer [OF keeps_q_inv [OF k0]]) simp_all
      have "keeps_timers ?s1 ?s3" by (rule keeps_upd_timer [OF keeps_q_inv [OF k1]]) simp_all
      then have inv3: "q_inv ?s3" by (rule keeps_q_inv)
      have sched3: "sched_of ?s3 = sched_of s" by (simp add: sched_of_def fun_eq_iff)
      have q3: "timer_queue (tm_cpu ?s3 cpu) = q"
        using Cons by (simp add: unlink_queue [OF Suc.prems(1)])
      have "t_queue (tm_timer s t) = Some cpu" using q_invD(3) [OF Suc.prems(1), of t cpu] Cons by simp
      then have c3: "tm_cpu ?s3 c = tm_cpu s c" if "c \<noteq> cpu" for c
        using that by (simp add: unlink_def)
      have step: "tick_loop (Suc fuel) cb cpu now s
          = map_option (\<lambda>(fired, s'). (t # fired, s')) (tick_loop fuel cb cpu now ?s3)"
        using Cons False by (simp add: cb Let_def sched_of_def)
      have "length (timer_queue (tm_cpu ?s3 cpu)) < fuel" using Suc.prems(2) Cons q3 by simp
      from Suc.IH [OF inv3 this] obtain s' where
        r: "tick_loop fuel cb cpu now ?s3 = Some (filter (\<lambda>t. sint (sched_of s t) \<le> sint now) q, s')"
        and p: "q_inv s'" "sched_of s' = sched_of s"
          "timer_queue (tm_cpu s' cpu) = filter (\<lambda>t. \<not> sint (sched_of s t) \<le> sint now) q"
          "\<forall>c. c \<noteq> cpu \<longrightarrow> tm_cpu s' c = tm_cpu ?s3 c"
          "preempt_timer_deadline (tm_cpu s' cpu) = preempt_timer_deadline (tm_cpu ?s3 cpu)"
          "next_timer_deadline (tm_cpu s' cpu) = next_timer_deadline (tm_cpu ?s3 cpu)"
        unfolding sched3 q3 by blast
      show ?thesis
        unfolding step r Cons using p c3 False by simp
    qed
  qed
qed simp



end
