(* ===== verification/Pow2RangeAllocator.thy ===== *)
theory Pow2RangeAllocator
  imports Kernel_Prelude
begin

text \<open>
  The power-of-two range allocator: \<^verbatim>\<open>kernel/lib/pow2_range_allocator/pow2_range_allocator.cpp\<close>,
  a buddy allocator for ranges of 32-bit ids.  Starts and lengths are 32-bit words with their
  wrap-around; bucket numbers are naturals.  The outcome of the \<open>n\<close>-th memory allocation is an
  argument.  A loop that need not end is a partial function whose value is \<^const>\<open>None\<close> when it
  does not.  The lemmas count, for every id, the blocks that contain it: blocks of the free lists
  and allocated blocks together contain each id of the added ranges exactly once.
\<close>

section \<open>State\<close>

record p2ra_block =
  blk_bucket :: nat
  blk_start :: "32 word"

record p2ra_range =
  rng_start :: "32 word"
  rng_len :: "32 word"

record p2ra_state =
  p2_ranges :: "p2ra_range list"
  p2_unused :: "p2ra_block list"
  p2_allocated :: "p2ra_block list"
  p2_free :: "p2ra_block list list"
  p2_callocs :: nat

abbreviation bucket_count :: "p2ra_state \<Rightarrow> nat" where
  "bucket_count s \<equiv> length (p2_free s)"

definition ispow2 :: "32 word \<Rightarrow> bool" where
  "ispow2 v \<longleftrightarrow> (v - 1) AND v = 0"

fun log2_uint_floor_nat :: "nat \<Rightarrow> nat" where
  "log2_uint_floor_nat v = (if v \<le> 1 then 0 else Suc (log2_uint_floor_nat (v div 2)))"

declare log2_uint_floor_nat.simps [simp del]

definition log2_uint_floor :: "32 word \<Rightarrow> nat" where
  "log2_uint_floor v = log2_uint_floor_nat (unat v)"

definition p2ra_init :: "bool \<Rightarrow> 32 word \<Rightarrow> zx_status_t + p2ra_state" where
  "p2ra_init malloc_ok max_alloc_size =
     (if max_alloc_size = 0 \<or> \<not> ispow2 max_alloc_size then Inl ZX_ERR_INVALID_ARGS
      else if \<not> malloc_ok then Inl ZX_ERR_NO_MEMORY
      else Inr \<lparr> p2_ranges = [], p2_unused = [], p2_allocated = [],
                 p2_free = replicate (log2_uint_floor max_alloc_size + 1) [], p2_callocs = 0 \<rparr>)"

definition p2ra_free :: "p2ra_state \<Rightarrow> p2ra_state" where
  "p2ra_free s =
     s\<lparr> p2_ranges := [], p2_unused := [], p2_allocated := [],
        p2_free := replicate (bucket_count s) [] \<rparr>"

text \<open>\<open>mem n\<close>: whether the \<open>n\<close>-th \<^verbatim>\<open>calloc\<close> succeeds.\<close>

definition p2ra_calloc :: "(nat \<Rightarrow> bool) \<Rightarrow> p2ra_state \<Rightarrow> bool \<times> p2ra_state" where
  "p2ra_calloc mem s = (mem (p2_callocs s), s\<lparr> p2_callocs := Suc (p2_callocs s) \<rparr>)"

definition p2ra_get_unused_block ::
  "(nat \<Rightarrow> bool) \<Rightarrow> p2ra_state \<Rightarrow> p2ra_block option \<times> p2ra_state" where
  "p2ra_get_unused_block mem s =
     (case p2_unused s of
        b # bs \<Rightarrow> (Some b, s\<lparr> p2_unused := bs \<rparr>)
      | [] \<Rightarrow> (case p2ra_calloc mem s of
                (ok, s') \<Rightarrow> (if ok then Some \<lparr> blk_bucket = 0, blk_start = 0 \<rparr> else None, s')))"

section \<open>Returning a block\<close>

text \<open>
  The block goes in front of the first one with a larger start, and is merged with its buddy if the
  buddy is its neighbour in the list.  The parameter \<^verbatim>\<open>merge_allowed\<close> of the code has no effect
  but in an assertion; \<open>needs_merge\<close> below says when that assertion fails for a caller that does
  not allow a merge.  Another assertion keeps the bucket below the bucket count, so that \<open>\<ge>\<close> below
  is the equality of the code.
\<close>

definition blk_len :: "p2ra_block \<Rightarrow> 32 word" where
  "blk_len b = push_bit (blk_bucket b) 1"

definition list_before :: "p2ra_block \<Rightarrow> p2ra_block list \<Rightarrow> p2ra_block list" where
  "list_before b l = takeWhile (\<lambda>a. \<not> blk_start a > blk_start b) l"

definition list_after :: "p2ra_block \<Rightarrow> p2ra_block list \<Rightarrow> p2ra_block list" where
  "list_after b l = dropWhile (\<lambda>a. \<not> blk_start a > blk_start b) l"

definition odd_aligned :: "p2ra_block \<Rightarrow> bool" where
  "odd_aligned b \<longleftrightarrow> blk_start b AND (push_bit 1 (blk_len b) - 1) \<noteq> 0"

text \<open>The merge pair, if there is one: first block, second block and the list without them.\<close>

definition merge_pair ::
  "p2ra_block \<Rightarrow> p2ra_block list \<Rightarrow> (p2ra_block \<times> p2ra_block \<times> p2ra_block list) option" where
  "merge_pair b l =
     (let pre = list_before b l; post = list_after b l
      in if odd_aligned b
         then (if pre \<noteq> [] \<and> blk_start (last pre) + blk_len (last pre) = blk_start b
               then Some (last pre, b, butlast pre @ post) else None)
         else (if post \<noteq> [] \<and> blk_start b + blk_len b = blk_start (hd post)
               then Some (b, hd post, pre @ tl post) else None))"

function p2ra_return_free_block :: "p2ra_block \<Rightarrow> p2ra_state \<Rightarrow> p2ra_state" where
  "p2ra_return_free_block b s =
     (let l = p2_free s ! blk_bucket b;
          s1 = s\<lparr> p2_free := (p2_free s)[blk_bucket b := list_before b l @ b # list_after b l] \<rparr>
      in if blk_bucket b + 1 \<ge> bucket_count s then s1
         else case merge_pair b l of
                None \<Rightarrow> s1
              | Some (first, second, rest) \<Rightarrow>
                  p2ra_return_free_block (first\<lparr> blk_bucket := blk_bucket b + 1 \<rparr>)
                    (s\<lparr> p2_free := (p2_free s)[blk_bucket b := rest],
                        p2_unused := p2_unused s @ [second] \<rparr>))"
  by pat_completeness auto
termination
  by (relation "measure (\<lambda>(b, s). length (p2_free s) - blk_bucket b)") auto

declare p2ra_return_free_block.simps [simp del]

definition needs_merge :: "p2ra_block \<Rightarrow> p2ra_state \<Rightarrow> bool" where
  "needs_merge b s \<longleftrightarrow>
     blk_bucket b + 1 < bucket_count s \<and> merge_pair b (p2_free s ! blk_bucket b) \<noteq> None"

section \<open>Adding a range\<close>

text \<open>The three loops: shrinking the chunk size, growing it, and breaking off chunks.\<close>

partial_function (option) shrink_chunk ::
  "32 word \<Rightarrow> 32 word \<Rightarrow> 32 word \<Rightarrow> nat \<Rightarrow> bool \<Rightarrow> (32 word \<times> nat \<times> bool) option" where
  "shrink_chunk range_start range_len csize bucket shrunk =
     (if range_start AND (csize - 1) \<noteq> 0 \<or> range_len < csize
      then shrink_chunk range_start range_len (drop_bit 1 csize) (bucket - 1) True
      else Some (csize, bucket, shrunk))"

partial_function (option) grow_chunk ::
  "32 word \<Rightarrow> 32 word \<Rightarrow> 32 word \<Rightarrow> 32 word \<Rightarrow> 32 word \<Rightarrow> nat \<Rightarrow> (32 word \<times> nat) option" where
  "grow_chunk range_start range_len max_csize tmp csize bucket =
     (if tmp \<le> max_csize \<and> tmp \<le> range_len \<and> range_start AND (tmp - 1) = 0
      then grow_chunk range_start range_len max_csize (push_bit 1 tmp) tmp (bucket + 1)
      else Some (csize, bucket))"

definition size_chunk ::
  "32 word \<Rightarrow> 32 word \<Rightarrow> 32 word \<Rightarrow> 32 word \<Rightarrow> nat \<Rightarrow> (32 word \<times> nat) option" where
  "size_chunk range_start range_len max_csize csize bucket =
     (case shrink_chunk range_start range_len csize bucket False of
        None \<Rightarrow> None
      | Some (cs, bk, shrunk) \<Rightarrow>
          if shrunk then Some (cs, bk)
          else grow_chunk range_start range_len max_csize (push_bit 1 cs) cs bk)"

text \<open>\<open>Some (Inl e, s)\<close>: the allocation of the bookkeeping failed.\<close>

partial_function (option) chunk_range ::
  "(nat \<Rightarrow> bool) \<Rightarrow> 32 word \<Rightarrow> 32 word \<Rightarrow> 32 word \<Rightarrow> 32 word \<Rightarrow> nat \<Rightarrow> p2ra_block list
   \<Rightarrow> p2ra_state \<Rightarrow> ((zx_status_t + p2ra_block list) \<times> p2ra_state) option" where
  "chunk_range mem max_csize range_start range_len csize bucket new_blocks s =
     (if range_len = 0 then Some (Inr new_blocks, s)
      else case size_chunk range_start range_len max_csize csize bucket of
             None \<Rightarrow> None
           | Some (cs, bk) \<Rightarrow>
               (case p2ra_get_unused_block mem s of
                  (None, s') \<Rightarrow> Some (Inl ZX_ERR_NO_MEMORY, s')
                | (Some blk, s') \<Rightarrow>
                    chunk_range mem max_csize (range_start + cs) (range_len - cs) cs bk
                      (new_blocks @ [blk\<lparr> blk_bucket := bk, blk_start := range_start \<rparr>]) s'))"

definition range_overlaps :: "32 word \<Rightarrow> 32 word \<Rightarrow> p2ra_range \<Rightarrow> bool" where
  "range_overlaps range_start range_len r \<longleftrightarrow>
     rng_start r \<ge> range_start \<and> rng_start r < range_start + range_len \<or>
     range_start \<ge> rng_start r \<and> range_start < rng_start r + rng_len r"

definition p2ra_add_range ::
  "(nat \<Rightarrow> bool) \<Rightarrow> 32 word \<Rightarrow> 32 word \<Rightarrow> p2ra_state \<Rightarrow> (zx_status_t \<times> p2ra_state) option" where
  "p2ra_add_range mem range_start range_len s =
     (if range_len = 0 \<or> range_start + range_len < range_start then Some (ZX_ERR_INVALID_ARGS, s)
      else if list_ex (range_overlaps range_start range_len) (p2_ranges s)
      then Some (ZX_ERR_ALREADY_EXISTS, s)
      else case p2ra_calloc mem s of
             (False, s1) \<Rightarrow> Some (ZX_ERR_NO_MEMORY, s1)
           | (True, s1) \<Rightarrow>
               (let bucket = bucket_count s1 - 1; csize = push_bit bucket 1
                in case chunk_range mem csize range_start range_len csize bucket [] s1 of
                     None \<Rightarrow> None
                   | Some (Inl e, s2) \<Rightarrow> Some (e, s2)
                   | Some (Inr new_blocks, s2) \<Rightarrow>
                       Some (ZX_OK,
                         foldl (\<lambda>s b. p2ra_return_free_block b s)
                           (s2\<lparr> p2_ranges := p2_ranges s2 @ [\<lparr> rng_start = range_start, rng_len = range_len \<rparr>] \<rparr>)
                           new_blocks)))"

section \<open>Allocating and freeing\<close>

function find_bucket :: "nat \<Rightarrow> p2ra_block list list \<Rightarrow> nat option" where
  "find_bucket bucket free =
     (if bucket < length free
      then (if free ! bucket \<noteq> [] then Some bucket else find_bucket (bucket + 1) free)
      else None)"
  by pat_completeness auto
termination
  by (relation "measure (\<lambda>(b, l). length l - b)") auto

declare find_bucket.simps [simp del]

text \<open>The splitting loop: \<open>n\<close> is the number of halvings left.\<close>

primrec split_block ::
  "(nat \<Rightarrow> bool) \<Rightarrow> nat \<Rightarrow> p2ra_block \<Rightarrow> p2ra_state \<Rightarrow> (zx_status_t + p2ra_block) \<times> p2ra_state" where
  "split_block mem 0 b s = (Inr b, s)"
| "split_block mem (Suc n) b s =
     (case p2ra_get_unused_block mem s of
        (None, s1) \<Rightarrow> (Inl ZX_ERR_NO_MEMORY, p2ra_return_free_block b s1)
      | (Some sb, s1) \<Rightarrow>
          (let b' = b\<lparr> blk_bucket := blk_bucket b - 1 \<rparr>;
               sb' = sb\<lparr> blk_start := blk_start b' + blk_len b', blk_bucket := blk_bucket b' \<rparr>
           in split_block mem n b' (p2ra_return_free_block sb' s1)))"

definition p2ra_allocate_range ::
  "(nat \<Rightarrow> bool) \<Rightarrow> 32 word \<Rightarrow> p2ra_state \<Rightarrow> (zx_status_t + 32 word) \<times> p2ra_state" where
  "p2ra_allocate_range mem sz s =
     (if sz = 0 \<or> \<not> ispow2 sz then (Inl ZX_ERR_INVALID_ARGS, s)
      else let orig_bucket = log2_uint_floor sz
           in if orig_bucket \<ge> bucket_count s then (Inl ZX_ERR_INVALID_ARGS, s)
              else case find_bucket orig_bucket (p2_free s) of
                     None \<Rightarrow> (Inl ZX_ERR_NO_RESOURCES, s)
                   | Some bucket \<Rightarrow>
                       (let b = hd (p2_free s ! bucket);
                            s1 = s\<lparr> p2_free := (p2_free s)[bucket := tl (p2_free s ! bucket)] \<rparr>
                        in case split_block mem (bucket - orig_bucket) b s1 of
                             (Inl e, s2) \<Rightarrow> (Inl e, s2)
                           | (Inr b', s2) \<Rightarrow>
                               (Inr (blk_start b'), s2\<lparr> p2_allocated := b' # p2_allocated s2 \<rparr>)))"

text \<open>
  Freeing, as built with assertions: the block is looked up among the allocated ones, and
  \<^const>\<open>None\<close> is the failed assertion that it is there.
\<close>

definition p2ra_free_range :: "32 word \<Rightarrow> 32 word \<Rightarrow> p2ra_state \<Rightarrow> p2ra_state option" where
  "p2ra_free_range range_start sz s =
     (let b = \<lparr> blk_bucket = log2_uint_floor sz, blk_start = range_start \<rparr>
      in if b \<in> set (p2_allocated s)
         then Some (p2ra_return_free_block b (s\<lparr> p2_allocated := remove1 b (p2_allocated s) \<rparr>))
         else None)"

section \<open>Powers of two in 32-bit words\<close>

lemma pow2_less_word: "n < 32 \<Longrightarrow> (2::nat) ^ n < 2 ^ 32"
  by (rule power_strict_increasing) simp_all

lemma unat_shift_one:
  assumes "n < 32"
  shows "unat (push_bit n 1 :: 32 word) = 2 ^ n"
  unfolding unsigned_push_bit_eq
  using pow2_less_word [OF assms] by (simp add: take_bit_eq_mod push_bit_eq_mult)

lemma mask_eq_0_iff: "n < 32 \<Longrightarrow> x AND (push_bit n 1 - 1) = 0 \<longleftrightarrow> 2 ^ n dvd unat (x :: 32 word)"
proof -
  have "x AND (push_bit n 1 - 1) = take_bit n x"
    by (simp add: take_bit_eq_mask mask_eq_exp_minus_1)
  moreover have "take_bit n x = 0 \<longleftrightarrow> unat (take_bit n x) = 0"
    by (simp add: unat_eq_0)
  moreover have "unat (take_bit n x) = unat x mod 2 ^ n"
    by (simp only: unsigned_take_bit_eq) (simp only: take_bit_eq_mod)
  ultimately show ?thesis
    by (simp add: dvd_eq_mod_eq_0)
qed

lemma log2_nat_bounds:
  "0 < v \<Longrightarrow> 2 ^ log2_uint_floor_nat v \<le> v \<and> v < 2 ^ Suc (log2_uint_floor_nat v)"
proof (induction v rule: log2_uint_floor_nat.induct)
  case (1 v)
  show ?case
  proof (cases "v \<le> 1")
    case False
    then have "2 ^ log2_uint_floor_nat (v div 2) \<le> v div 2 \<and> v div 2 < 2 ^ Suc (log2_uint_floor_nat (v div 2))"
      using 1 by simp
    then have "2 * 2 ^ log2_uint_floor_nat (v div 2) \<le> v \<and> v < 2 * (2 * 2 ^ log2_uint_floor_nat (v div 2))"
      by (simp del: mult_Suc_right) linarith
    then show ?thesis
      using False by (simp add: log2_uint_floor_nat.simps [of v])
  qed (use 1 in \<open>simp add: log2_uint_floor_nat.simps\<close>)
qed

lemma log2_floor_bounds:
  "v \<noteq> 0 \<Longrightarrow> 2 ^ log2_uint_floor v \<le> unat v \<and> unat v < 2 ^ Suc (log2_uint_floor v)"
  using log2_nat_bounds [of "unat v"] by (simp add: log2_uint_floor_def unat_gt_0)

lemma log2_floor_less: "log2_uint_floor v < 32"
proof (cases "v = 0")
  case False
  have "(2::nat) ^ log2_uint_floor v < 2 ^ 32"
    using log2_floor_bounds [OF False] unsigned_less [of v, where ?'a = nat] by simp
  then show ?thesis
    by (rule power_less_imp_less_exp [rotated]) simp
qed (simp add: log2_uint_floor_def log2_uint_floor_nat.simps)

lemma top_bit:
  assumes "2 ^ n \<le> unat (w :: 32 word)" "unat w < 2 ^ Suc n"
  shows "bit w n"
proof -
  have "unat w div 2 ^ n = 1"
    using assms by (intro div_nat_eqI) simp_all
  then have "odd (unat w div 2 ^ n)"
    by simp
  then have "bit (unat w) n"
    by (simp add: bit_iff_odd)
  then show ?thesis
    by (simp add: bit_unsigned_iff)
qed

lemma ispow2_unat:
  assumes "v \<noteq> 0" "ispow2 v"
  shows "unat v = 2 ^ log2_uint_floor v"
proof (rule ccontr)
  let ?n = "log2_uint_floor v"
  assume "unat v \<noteq> 2 ^ ?n"
  then have gt: "2 ^ ?n < unat v"
    using log2_floor_bounds [OF assms(1)] by simp
  have um: "unat (v - 1) = unat v - 1"
    using assms(1) by (simp add: unat_minus_one)
  have "bit v ?n"
    using log2_floor_bounds [OF assms(1)] by (intro top_bit) simp_all
  moreover have "bit (v - 1) ?n"
    using log2_floor_bounds [OF assms(1)] gt by (intro top_bit) (simp_all add: um)
  ultimately have "bit ((v - 1) AND v) ?n"
    by (simp add: bit_and_iff)
  then show False
    using assms(2) by (simp add: ispow2_def)
qed

lemma log2_nat_pow2: "log2_uint_floor_nat (2 ^ n) = n"
proof (induction n)
  case (Suc n)
  have "\<not> (2::nat) ^ Suc n \<le> 1"
    using one_less_power [of "2::nat" "Suc n"] by simp
  moreover have "(2::nat) ^ Suc n div 2 = 2 ^ n"
    by simp
  ultimately show ?case
    by (subst log2_uint_floor_nat.simps) (simp only: Suc.IH if_False)
qed (simp add: log2_uint_floor_nat.simps)

lemma log2_pow2: "n < 32 \<Longrightarrow> log2_uint_floor (push_bit n 1) = n"
  by (simp only: log2_uint_floor_def unat_shift_one log2_nat_pow2)

section \<open>Ids of a block, blocks of an id\<close>

definition blk_ids :: "p2ra_block \<Rightarrow> nat set" where
  "blk_ids b = {unat (blk_start b) ..< unat (blk_start b) + 2 ^ blk_bucket b}"

definition rng_ids :: "p2ra_range \<Rightarrow> nat set" where
  "rng_ids r = {unat (rng_start r) ..< unat (rng_start r) + unat (rng_len r)}"

definition owners :: "p2ra_block list \<Rightarrow> nat \<Rightarrow> nat" where
  "owners l x = length (filter (\<lambda>b. x \<in> blk_ids b) l)"

lemma owners_simps [simp]:
  "owners [] x = 0"
  "owners (b # l) x = (if x \<in> blk_ids b then Suc (owners l x) else owners l x)"
  "owners (l @ l') x = owners l x + owners l' x"
  by (simp_all add: owners_def)

lemma owners_remove1: "b \<in> set l \<Longrightarrow> owners l x = owners (remove1 b l) x + owners [b] x"
  by (induction l) auto

lemma owners_pos: "0 < owners l x \<longleftrightarrow> (\<exists>b\<in>set l. x \<in> blk_ids b)"
  by (auto simp: owners_def filter_empty_conv)

lemma owners_update:
  "i < length ls \<Longrightarrow> owners (concat ls) x + owners l x = owners (concat (ls[i := l])) x + owners (ls ! i) x"
  by (induction ls arbitrary: i) (auto split: nat.splits simp: nth_Cons')

text \<open>A block the allocator may hold: its bucket exists, it is aligned, it does not wrap.\<close>

definition wf_block :: "nat \<Rightarrow> p2ra_block \<Rightarrow> bool" where
  "wf_block n b \<longleftrightarrow>
     blk_bucket b < n \<and> n \<le> 32 \<and> 2 ^ blk_bucket b dvd unat (blk_start b) \<and>
     unat (blk_start b) + 2 ^ blk_bucket b < 2 ^ 32"

lemma list_before_after: "list_before b l @ list_after b l = l"
  by (simp add: list_before_def list_after_def)

section \<open>Buddies\<close>

lemma unat_blk_end:
  assumes "wf_block n b"
  shows "unat (blk_start b + blk_len b) = unat (blk_start b) + 2 ^ blk_bucket b"
proof -
  have "blk_bucket b < 32"
    using assms by (simp add: wf_block_def)
  then have "unat (blk_len b) = 2 ^ blk_bucket b"
    unfolding blk_len_def by (rule unat_shift_one)
  then show ?thesis
    using assms by (simp add: wf_block_def unat_word_ariths)
qed

lemma odd_aligned_iff:
  assumes "wf_block n b" "blk_bucket b + 1 < n"
  shows "odd_aligned b \<longleftrightarrow> \<not> 2 ^ Suc (blk_bucket b) dvd unat (blk_start b)"
proof -
  have "push_bit 1 (blk_len b) = push_bit (Suc (blk_bucket b)) 1"
    by (simp add: blk_len_def)
  moreover have "Suc (blk_bucket b) < 32"
    using assms by (simp add: wf_block_def)
  ultimately show ?thesis
    unfolding odd_aligned_def by (simp only: mask_eq_0_iff)
qed

lemma even_buddy:
  assumes "2 ^ k dvd (x::nat)" "\<not> 2 ^ Suc k dvd x" "y + 2 ^ k = x"
  shows "2 ^ Suc k dvd y"
proof -
  obtain m where m: "x = 2 ^ k * m"
    using assms(1) by (rule dvdE)
  then have "odd m"
    using assms(2) by (auto elim!: evenE)
  then obtain j where "m = 2 * j + 1"
    by (rule oddE)
  then show ?thesis
    using m assms(3) by (simp add: algebra_simps)
qed

text \<open>Two blocks of the same bucket, the first even, the second right behind it.\<close>

definition buddies :: "p2ra_block \<Rightarrow> p2ra_block \<Rightarrow> bool" where
  "buddies f g \<longleftrightarrow> blk_bucket f = blk_bucket g \<and>
     2 ^ Suc (blk_bucket f) dvd unat (blk_start f) \<and> unat (blk_start f) + 2 ^ blk_bucket f = unat (blk_start g)"

lemma owners_buddies:
  "buddies f g \<Longrightarrow> owners [f\<lparr> blk_bucket := blk_bucket f + 1 \<rparr>] x = owners [f] x + owners [g] x"
  by (auto simp: buddies_def blk_ids_def)

lemma wf_merged:
  "buddies f g \<Longrightarrow> wf_block n g \<Longrightarrow> blk_bucket f + 1 < n
    \<Longrightarrow> wf_block n (f\<lparr> blk_bucket := blk_bucket f + 1 \<rparr>)"
  by (auto simp: buddies_def wf_block_def)

definition wf_bucket :: "nat \<Rightarrow> nat \<Rightarrow> p2ra_block list \<Rightarrow> bool" where
  "wf_bucket n i l \<longleftrightarrow>
     (\<forall>b\<in>set l. blk_bucket b = i \<and> wf_block n b) \<and> sorted (map blk_start l)"

lemma sorted_last_hd:
  "sorted (map blk_start (pre @ post)) \<Longrightarrow> sorted (map blk_start (butlast pre @ post))"
  by (cases pre rule: rev_cases) (auto simp: sorted_append)

lemma list_before_le: "a \<in> set (list_before b l) \<Longrightarrow> blk_start a \<le> blk_start b"
  by (auto simp: list_before_def dest: set_takeWhileD)

lemma sorted_insert_block:
  assumes "sorted (map blk_start l)"
  shows "sorted (map blk_start (list_before b l @ b # list_after b l))"
proof -
  have s: "sorted (map blk_start (list_before b l @ list_after b l))"
    using assms by (simp add: list_before_after)
  have "blk_start b < blk_start a" if a: "a \<in> set (list_after b l)" for a
  proof -
    obtain c cs where c: "list_after b l = c # cs"
      using a by (cases "list_after b l") auto
    then have "blk_start b < blk_start c"
      unfolding list_after_def by (auto simp: dropWhile_eq_Cons_conv)
    moreover have "blk_start c \<le> blk_start a"
      using s a by (auto simp: c sorted_append)
    ultimately show ?thesis
      by simp
  qed
  then show ?thesis
    using s by (auto simp: sorted_append dest: list_before_le less_imp_le)
qed

lemma wf_bucket_insert:
  assumes l: "wf_bucket n i l" and b: "wf_block n b" "blk_bucket b = i"
  shows "wf_bucket n i (list_before b l @ b # list_after b l)"
proof -
  have "set (list_before b l @ b # list_after b l) = insert b (set l)"
    using arg_cong [OF list_before_after [of b l], of set] by simp
  moreover have "sorted (map blk_start (list_before b l @ b # list_after b l))"
    using l by (intro sorted_insert_block) (simp add: wf_bucket_def)
  ultimately show ?thesis
    using l b unfolding wf_bucket_def by simp
qed

lemma owners_insert: "owners (list_before b l @ b # list_after b l) x = owners l x + owners [b] x"
  using arg_cong [OF list_before_after [of b l], of "\<lambda>l. owners l x"] by simp

text \<open>What a merge takes out of the free list, and what it leaves there.\<close>

definition merges ::
  "nat \<Rightarrow> p2ra_block \<Rightarrow> p2ra_block list \<Rightarrow> p2ra_block \<Rightarrow> p2ra_block \<Rightarrow> p2ra_block list \<Rightarrow> bool" where
  "merges n b l f g rest \<longleftrightarrow>
     buddies f g \<and> wf_block n g \<and> blk_bucket f = blk_bucket b \<and> wf_bucket n (blk_bucket b) rest \<and>
     (\<forall>x. owners l x + owners [b] x = owners rest x + owners [f] x + owners [g] x)"

lemma wf_bucket_D:
  assumes "wf_bucket n i l"
  shows "a \<in> set l \<Longrightarrow> blk_bucket a = i" "a \<in> set l \<Longrightarrow> wf_block n a" "sorted (map blk_start l)"
  using assms by (simp_all add: wf_bucket_def)

lemma wf_bucket_sub:
  "wf_bucket n i l \<Longrightarrow> set l' \<subseteq> set l \<Longrightarrow> sorted (map blk_start l') \<Longrightarrow> wf_bucket n i l'"
  by (auto simp: wf_bucket_def)

lemma merges_odd:
  assumes l: "wf_bucket n (blk_bucket b) (pre @ f # post)"
    and b: "wf_block n b" "blk_bucket b + 1 < n" "odd_aligned b"
    and adj: "blk_start f + blk_len f = blk_start b"
  shows "merges n b (pre @ f # post) f b (pre @ post)"
proof -
  have f: "blk_bucket f = blk_bucket b" "wf_block n f"
    using wf_bucket_D(1,2) [OF l, of f] by simp_all
  have st: "unat (blk_start f) + 2 ^ blk_bucket b = unat (blk_start b)"
    using unat_blk_end [OF f(2)] f(1) adj by simp
  have "2 ^ Suc (blk_bucket b) dvd unat (blk_start f)"
    using b(3) odd_aligned_iff [OF b(1,2)] b(1) st
    by (intro even_buddy [where x = "unat (blk_start b)"]) (simp_all add: wf_block_def)
  then have "buddies f b"
    using st f(1) by (simp add: buddies_def)
  moreover have "wf_bucket n (blk_bucket b) (pre @ post)"
    using wf_bucket_D(3) [OF l] by (intro wf_bucket_sub [OF l]) (auto simp: sorted_append)
  ultimately show ?thesis
    using b(1) f(1) by (simp add: merges_def)
qed

lemma merges_even:
  assumes l: "wf_bucket n (blk_bucket b) (pre @ g # post)"
    and b: "wf_block n b" "blk_bucket b + 1 < n" "\<not> odd_aligned b"
    and adj: "blk_start b + blk_len b = blk_start g"
  shows "merges n b (pre @ g # post) b g (pre @ post)"
proof -
  have g: "blk_bucket g = blk_bucket b" "wf_block n g"
    using wf_bucket_D(1,2) [OF l, of g] by simp_all
  have "buddies b g"
    using b(3) odd_aligned_iff [OF b(1,2)] unat_blk_end [OF b(1)] g(1) adj by (simp add: buddies_def)
  moreover have "wf_bucket n (blk_bucket b) (pre @ post)"
    using wf_bucket_D(3) [OF l] by (intro wf_bucket_sub [OF l]) (auto simp: sorted_append)
  ultimately show ?thesis
    using g by (simp add: merges_def)
qed

lemma merge_pair_merges:
  assumes m: "merge_pair b l = Some (f, g, rest)"
    and l: "wf_bucket n (blk_bucket b) l" and b: "wf_block n b" "blk_bucket b + 1 < n"
  shows "merges n b l f g rest"
proof (cases "odd_aligned b")
  case True
  then obtain pre where pre: "list_before b l = pre @ [f]" and "g = b" "rest = pre @ list_after b l"
    and adj: "blk_start f + blk_len f = blk_start b"
    using m by (cases "list_before b l" rule: rev_cases) (auto simp: merge_pair_def Let_def split: if_splits)
  moreover have "l = pre @ f # list_after b l"
    using list_before_after [of b l] pre by simp
  ultimately show ?thesis
    using merges_odd [OF _ b True adj] l by metis
next
  case False
  then obtain post where post: "list_after b l = g # post" and "f = b" "rest = list_before b l @ post"
    and adj: "blk_start b + blk_len b = blk_start g"
    using m by (cases "list_after b l") (auto simp: merge_pair_def Let_def split: if_splits)
  moreover have "l = list_before b l @ g # post"
    using list_before_after [of b l] post by simp
  ultimately show ?thesis
    using merges_even [OF _ b False adj] l by metis
qed

section \<open>Returning a block keeps the free lists well formed and adds its ids\<close>

definition wf_free :: "p2ra_state \<Rightarrow> bool" where
  "wf_free s \<longleftrightarrow> 0 < bucket_count s \<and> bucket_count s \<le> 32 \<and>
     (\<forall>i<bucket_count s. wf_bucket (bucket_count s) i (p2_free s ! i))"

lemma wf_free_update:
  "wf_free s \<Longrightarrow> wf_bucket (bucket_count s) i l \<Longrightarrow> wf_free (s\<lparr> p2_free := (p2_free s)[i := l] \<rparr>)"
  by (cases "i < bucket_count s") (auto simp: wf_free_def nth_list_update)

text \<open>What returning a block leaves alone.\<close>

definition same_books :: "p2ra_state \<Rightarrow> p2ra_state \<Rightarrow> bool" where
  "same_books s s' \<longleftrightarrow> bucket_count s' = bucket_count s \<and> p2_ranges s' = p2_ranges s \<and>
     p2_allocated s' = p2_allocated s"

definition free_ids :: "p2ra_state \<Rightarrow> nat \<Rightarrow> nat" where
  "free_ids s = owners (concat (p2_free s))"

lemma free_ids_update:
  "i < bucket_count s \<Longrightarrow>
    free_ids (s\<lparr> p2_free := (p2_free s)[i := l] \<rparr>) x + owners (p2_free s ! i) x = free_ids s x + owners l x"
  unfolding free_ids_def using owners_update [of i "p2_free s" x l] by simp

text \<open>The state and the block of the recursive call after a merge.\<close>

abbreviation merged_state :: "p2ra_block \<Rightarrow> p2ra_block \<Rightarrow> p2ra_block list \<Rightarrow> p2ra_state \<Rightarrow> p2ra_state" where
  "merged_state b g rest s \<equiv>
     s\<lparr> p2_free := (p2_free s)[blk_bucket b := rest], p2_unused := p2_unused s @ [g] \<rparr>"

abbreviation inserted_state :: "p2ra_block \<Rightarrow> p2ra_state \<Rightarrow> p2ra_state" where
  "inserted_state b s \<equiv>
     s\<lparr> p2_free := (p2_free s)[blk_bucket b :=
        list_before b (p2_free s ! blk_bucket b) @ b # list_after b (p2_free s ! blk_bucket b)] \<rparr>"

lemma wf_free_bucket:
  assumes "wf_free s" "wf_block (bucket_count s) b"
  shows "blk_bucket b < bucket_count s" "wf_bucket (bucket_count s) (blk_bucket b) (p2_free s ! blk_bucket b)"
  using assms by (simp_all add: wf_free_def wf_block_def)

lemma merge_step:
  assumes s: "wf_free s" "wf_block (bucket_count s) b" "blk_bucket b + 1 < bucket_count s"
    and m: "merge_pair b (p2_free s ! blk_bucket b) = Some (f, g, rest)"
  shows "wf_free (merged_state b g rest s)" "wf_block (bucket_count s) (f\<lparr> blk_bucket := blk_bucket b + 1 \<rparr>)"
    "free_ids (merged_state b g rest s) x + owners [f\<lparr> blk_bucket := blk_bucket b + 1 \<rparr>] x
     = free_ids s x + owners [b] x"
    "p2ra_return_free_block b s
     = p2ra_return_free_block (f\<lparr> blk_bucket := blk_bucket b + 1 \<rparr>) (merged_state b g rest s)"
proof -
  let ?l = "p2_free s ! blk_bucket b"
  note wf = wf_free_bucket [OF s(1,2)]
  have mg: "merges (bucket_count s) b ?l f g rest"
    by (rule merge_pair_merges [OF m wf(2) s(2,3)])
  then have f: "blk_bucket f = blk_bucket b" and rest: "wf_bucket (bucket_count s) (blk_bucket b) rest"
    and bd: "buddies f g" and g: "wf_block (bucket_count s) g"
    and own: "owners ?l x + owners [b] x = owners rest x + owners [f] x + owners [g] x"
    by (simp_all add: merges_def del: owners_simps)
  show "wf_free (merged_state b g rest s)"
    using wf_free_update [OF s(1) rest] by (simp add: wf_free_def)
  show "wf_block (bucket_count s) (f\<lparr> blk_bucket := blk_bucket b + 1 \<rparr>)"
    using wf_merged [OF bd g] f s(3) by simp
  show "free_ids (merged_state b g rest s) x + owners [f\<lparr> blk_bucket := blk_bucket b + 1 \<rparr>] x
     = free_ids s x + owners [b] x"
    using free_ids_update [OF wf(1), of rest x] own owners_buddies [OF bd, of x]
    by (simp add: free_ids_def f del: owners_simps)
  show "p2ra_return_free_block b s
     = p2ra_return_free_block (f\<lparr> blk_bucket := blk_bucket b + 1 \<rparr>) (merged_state b g rest s)"
    using s(3) m by (subst p2ra_return_free_block.simps) (simp add: Let_def)
qed

lemma insert_step:
  assumes s: "wf_free s" "wf_block (bucket_count s) b"
  shows "wf_free (inserted_state b s)" "free_ids (inserted_state b s) x = free_ids s x + owners [b] x"
proof -
  note wf = wf_free_bucket [OF s]
  show "wf_free (inserted_state b s)"
    by (rule wf_free_update [OF s(1) wf_bucket_insert [OF wf(2) s(2) refl]])
  show "free_ids (inserted_state b s) x = free_ids s x + owners [b] x"
    using free_ids_update [OF wf(1), of "list_before b (p2_free s ! blk_bucket b) @ b # list_after b (p2_free s ! blk_bucket b)" x]
      owners_insert [of b "p2_free s ! blk_bucket b" x]
    by linarith
qed

text \<open>Induction along the merges of one call.\<close>

lemma return_free_block_induct [consumes 2, case_names insert merge]:
  assumes "wf_free s" "wf_block (bucket_count s) b"
    and ins: "\<And>b s. wf_free s \<Longrightarrow> wf_block (bucket_count s) b
      \<Longrightarrow> bucket_count s \<le> blk_bucket b + 1 \<or> merge_pair b (p2_free s ! blk_bucket b) = None
      \<Longrightarrow> p2ra_return_free_block b s = inserted_state b s \<Longrightarrow> P b s"
    and mrg: "\<And>b s f g rest. wf_free s \<Longrightarrow> wf_block (bucket_count s) b \<Longrightarrow> blk_bucket b + 1 < bucket_count s
      \<Longrightarrow> merge_pair b (p2_free s ! blk_bucket b) = Some (f, g, rest)
      \<Longrightarrow> P (f\<lparr> blk_bucket := blk_bucket b + 1 \<rparr>) (merged_state b g rest s) \<Longrightarrow> P b s"
  shows "P b s"
  using assms(1,2)
proof (induction b s rule: p2ra_return_free_block.induct)
  case (1 b s)
  show ?case
  proof (cases "bucket_count s \<le> blk_bucket b + 1 \<or> merge_pair b (p2_free s ! blk_bucket b) = None")
    case True
    moreover have "p2ra_return_free_block b s = inserted_state b s"
      using True by (subst p2ra_return_free_block.simps) (auto simp: Let_def)
    ultimately show ?thesis
      using 1(2,3) by (intro ins)
  next
    case False
    then obtain f g rest where m: "merge_pair b (p2_free s ! blk_bucket b) = Some (f, g, rest)"
      and lt: "blk_bucket b + 1 < bucket_count s"
      by (cases "merge_pair b (p2_free s ! blk_bucket b)") auto
    note st = merge_step [OF 1(2,3) lt m]
    have "P (f\<lparr> blk_bucket := blk_bucket b + 1 \<rparr>) (merged_state b g rest s)"
      using 1(1) [OF refl refl _ m refl refl] st(1,2) lt by simp
    then show ?thesis
      by (rule mrg [OF 1(2,3) lt m])
  qed
qed

lemma return_free_block:
  assumes "wf_free s" "wf_block (bucket_count s) b"
  shows "wf_free (p2ra_return_free_block b s) \<and> same_books s (p2ra_return_free_block b s) \<and>
    (\<forall>x. free_ids (p2ra_return_free_block b s) x = free_ids s x + owners [b] x)"
  using assms
proof (induction rule: return_free_block_induct)
  case (insert b s)
  then show ?case
    using insert_step [OF insert(1,2)] by (simp add: same_books_def del: owners_simps)
next
  case (merge b s f g rest)
  then show ?case
    using merge_step [OF merge(1-4)] by (simp add: same_books_def del: owners_simps)
qed

section \<open>The invariant\<close>

definition rng_ok :: "p2ra_range \<Rightarrow> bool" where
  "rng_ok r \<longleftrightarrow> 0 < unat (rng_len r) \<and> unat (rng_start r) + unat (rng_len r) < 2 ^ 32"

definition added_ids :: "p2ra_state \<Rightarrow> nat set" where
  "added_ids s = (\<Union>r\<in>set (p2_ranges s). rng_ids r)"

text \<open>
  Every id of the added ranges is in exactly one block, free or allocated, and no other id is in
  any.  The blocks are aligned, and the free ones are in the bucket of their size, in order.
\<close>

definition p2_inv :: "p2ra_state \<Rightarrow> bool" where
  "p2_inv s \<longleftrightarrow> wf_free s \<and> (\<forall>b\<in>set (p2_allocated s). wf_block (bucket_count s) b) \<and>
     (\<forall>r\<in>set (p2_ranges s). rng_ok r) \<and>
     (\<forall>x. free_ids s x + owners (p2_allocated s) x = (if x \<in> added_ids s then 1 else 0))"

lemma get_unused_block_frame:
  assumes "p2ra_get_unused_block mem s = (r, s')"
  shows "p2_free s' = p2_free s" "same_books s s'" "wf_free s' = wf_free s" "free_ids s' = free_ids s"
proof -
  have *: "p2_free s' = p2_free s \<and> same_books s s'"
    using assms
    by (auto simp: p2ra_get_unused_block_def p2ra_calloc_def same_books_def split: list.splits if_splits)
  then show "p2_free s' = p2_free s" "same_books s s'" "wf_free s' = wf_free s" "free_ids s' = free_ids s"
    by (simp_all add: wf_free_def free_ids_def)
qed

lemma same_books_trans: "same_books s t \<Longrightarrow> same_books t u \<Longrightarrow> same_books s u"
  by (simp add: same_books_def)

subsection \<open>Splitting\<close>

abbreviation lower_half :: "p2ra_block \<Rightarrow> p2ra_block" where
  "lower_half b \<equiv> b\<lparr> blk_bucket := blk_bucket b - 1 \<rparr>"

abbreviation upper_half :: "p2ra_block \<Rightarrow> p2ra_block \<Rightarrow> p2ra_block" where
  "upper_half b u \<equiv> u\<lparr> blk_start := blk_start b + blk_len (lower_half b), blk_bucket := blk_bucket b - 1 \<rparr>"

lemma halves:
  assumes b: "wf_block n b" "0 < blk_bucket b"
  shows "wf_block n (lower_half b)" "wf_block n (upper_half b u)" "buddies (lower_half b) (upper_half b u)"
    "owners [b] x = owners [lower_half b] x + owners [upper_half b u] x"
proof -
  obtain k where k: "blk_bucket b = Suc k"
    using b(2) by (cases "blk_bucket b") auto
  have al: "2 * 2 ^ k dvd unat (blk_start b)"
    using b(1) k by (simp add: wf_block_def)
  then have al': "2 ^ k dvd unat (blk_start b)"
    by (rule dvd_mult_right)
  show l: "wf_block n (lower_half b)"
    using b(1) k al' by (simp add: wf_block_def)
  have st: "unat (blk_start b + blk_len (lower_half b)) = unat (blk_start b) + 2 ^ k"
    using unat_blk_end [OF l] k by simp
  show "wf_block n (upper_half b u)"
    using b(1) k st al' by (simp add: wf_block_def)
  show bd: "buddies (lower_half b) (upper_half b u)"
    using k st al by (simp add: buddies_def)
  have "b = (lower_half b)\<lparr> blk_bucket := blk_bucket (lower_half b) + 1 \<rparr>"
    using k by simp
  then show "owners [b] x = owners [lower_half b] x + owners [upper_half b u] x"
    using owners_buddies [OF bd, of x] by simp
qed

lemma split_step:
  assumes u: "p2ra_get_unused_block mem s = (Some u, s1)"
    and s: "wf_free s" "wf_block (bucket_count s) b" "0 < blk_bucket b"
  defines "s2 \<equiv> p2ra_return_free_block (upper_half b u) s1"
  shows "wf_free s2" "same_books s s2" "wf_block (bucket_count s2) (lower_half b)"
    "free_ids s2 x + owners [lower_half b] x = free_ids s x + owners [b] x"
proof -
  note fr = get_unused_block_frame [OF u]
  have n1: "bucket_count s1 = bucket_count s"
    using fr(2) by (simp add: same_books_def)
  have wu: "wf_block (bucket_count s1) (upper_half b u)"
    using halves(2) [OF s(2,3)] n1 by simp
  have r: "wf_free s2 \<and> same_books s1 s2 \<and> (\<forall>x. free_ids s2 x = free_ids s1 x + owners [upper_half b u] x)"
    unfolding s2_def using fr(3) s(1) wu by (intro return_free_block) simp_all
  then show "wf_free s2" and sb: "same_books s s2"
    using fr(2) by (auto intro: same_books_trans)
  show "wf_block (bucket_count s2) (lower_half b)"
    using halves(1) [OF s(2,3)] sb by (simp add: same_books_def)
  show "free_ids s2 x + owners [lower_half b] x = free_ids s x + owners [b] x"
    using r fr(4) halves(4) [OF s(2,3), of x u] by (simp del: owners_simps)
qed

lemma split_block_ok:
  assumes "split_block mem k b s = (Inr b', s')" "wf_free s" "wf_block (bucket_count s) b" "k \<le> blk_bucket b"
  shows "wf_free s' \<and> same_books s s' \<and> wf_block (bucket_count s) b' \<and> blk_bucket b' = blk_bucket b - k \<and>
    blk_start b' = blk_start b \<and> (\<forall>x. free_ids s' x + owners [b'] x = free_ids s x + owners [b] x)"
  using assms
proof (induction k arbitrary: b s)
  case (Suc k)
  obtain u s1 where u: "p2ra_get_unused_block mem s = (Some u, s1)"
    and rec: "split_block mem k (lower_half b) (p2ra_return_free_block (upper_half b u) s1) = (Inr b', s')"
    using Suc.prems(1) by (auto simp: Let_def split: prod.splits option.splits)
  have pos: "0 < blk_bucket b"
    using Suc.prems(4) by simp
  note st = split_step [OF u Suc.prems(2,3) pos]
  have "k \<le> blk_bucket (lower_half b)"
    using Suc.prems(4) by simp
  note IH = Suc.IH [OF rec st(1,3) this]
  then show ?case
    using same_books_trans [OF st(2)] st(2,4) by (simp add: same_books_def del: owners_simps)
qed (simp add: same_books_def)

lemma split_block_fail:
  assumes "split_block mem k b s = (Inl e, s')" "wf_free s" "wf_block (bucket_count s) b" "k \<le> blk_bucket b"
  shows "e = ZX_ERR_NO_MEMORY \<and> wf_free s' \<and> same_books s s' \<and>
    (\<forall>x. free_ids s' x = free_ids s x + owners [b] x)"
  using assms
proof (induction k arbitrary: b s)
  case (Suc k)
  obtain r s1 where u: "p2ra_get_unused_block mem s = (r, s1)"
    by fastforce
  show ?case
  proof (cases r)
    case None
    note fr = get_unused_block_frame [OF u]
    have "e = ZX_ERR_NO_MEMORY" "s' = p2ra_return_free_block b s1"
      using Suc.prems(1) u None by simp_all
    then show ?thesis
      using return_free_block [of s1 b] fr Suc.prems(2,3) same_books_trans [OF fr(2)]
      by (simp add: same_books_def del: owners_simps)
  next
    case (Some v)
    have pos: "0 < blk_bucket b" and k: "k \<le> blk_bucket (lower_half b)"
      using Suc.prems(4) by simp_all
    note st = split_step [OF u [unfolded Some] Suc.prems(2,3) pos]
    have "split_block mem k (lower_half b) (p2ra_return_free_block (upper_half b v) s1) = (Inl e, s')"
      using Suc.prems(1) u Some by (simp add: Let_def)
    note IH = Suc.IH [OF this st(1,3) k]
    then show ?thesis
      using same_books_trans [OF st(2)] st(4) by (simp del: owners_simps)
  qed
qed simp

subsection \<open>Allocating\<close>

lemma find_bucket_Some:
  "find_bucket i free = Some k \<Longrightarrow> i \<le> k \<and> k < length free \<and> free ! k \<noteq> [] \<and> (\<forall>j. i \<le> j \<and> j < k \<longrightarrow> free ! j = [])"
proof (induction i free rule: find_bucket.induct)
  case (1 i free)
  show ?case
  proof (cases "free ! i = []")
    case True
    then have "find_bucket (i + 1) free = Some k" "i < length free"
      using 1(2) by (simp_all add: find_bucket.simps [of i] split: if_splits)
    note IH = 1(1) [OF this(2) _ this(1)]
    show ?thesis
      using IH True by (metis Suc_eq_plus1 Suc_leI Suc_leD le_neq_implies_less)
  qed (use 1(2) in \<open>auto simp: find_bucket.simps [of i] split: if_splits\<close>)
qed

lemma find_bucket_None:
  "find_bucket i free = None \<Longrightarrow> i \<le> j \<Longrightarrow> j < length free \<Longrightarrow> free ! j = []"
proof (induction i free rule: find_bucket.induct)
  case (1 i free)
  have e: "free ! i = []" "find_bucket (i + 1) free = None" "i < length free"
    using 1(2-4) by (simp_all add: find_bucket.simps [of i] split: if_splits)
  show ?case
    using 1(1) [OF e(3) _ e(2)] e(1) 1(3,4) by (cases "i = j") auto
qed

lemma take_head:
  assumes s: "wf_free s" and k: "k < bucket_count s" and ne: "p2_free s ! k \<noteq> []"
  defines "b \<equiv> hd (p2_free s ! k)" and "s1 \<equiv> s\<lparr> p2_free := (p2_free s)[k := tl (p2_free s ! k)] \<rparr>"
  shows "wf_free s1" "same_books s s1" "wf_block (bucket_count s1) b" "blk_bucket b = k"
    "free_ids s1 x + owners [b] x = free_ids s x"
proof -
  obtain l where l: "p2_free s ! k = b # l"
    using ne by (cases "p2_free s ! k") (simp_all add: b_def)
  have wf: "wf_bucket (bucket_count s) k (b # l)"
    using s k l unfolding wf_free_def by metis
  then have "wf_bucket (bucket_count s) k l"
    by (auto simp: wf_bucket_def)
  then show "wf_free s1"
    unfolding s1_def using s l by (intro wf_free_update) simp_all
  show "same_books s s1"
    by (simp add: same_books_def s1_def)
  show "wf_block (bucket_count s1) b" "blk_bucket b = k"
    using wf by (simp_all add: wf_bucket_def s1_def)
  show "free_ids s1 x + owners [b] x = free_ids s x"
    using free_ids_update [OF k, of l x] l by (simp add: s1_def split: if_splits)
qed

lemma wf_free_frame [simp]:
  "wf_free (s\<lparr> p2_allocated := l \<rparr>) = wf_free s" "wf_free (s\<lparr> p2_ranges := rs \<rparr>) = wf_free s"
  "free_ids (s\<lparr> p2_allocated := l \<rparr>) = free_ids s" "free_ids (s\<lparr> p2_ranges := rs \<rparr>) = free_ids s"
  by (simp_all add: wf_free_def free_ids_def)

text \<open>The result of an allocation that got past the argument checks.\<close>

lemma allocate_cases:
  assumes a: "p2ra_allocate_range mem sz s = (r, s')" and s: "wf_free s"
    and sz: "sz \<noteq> 0" "ispow2 sz" "log2_uint_floor sz < bucket_count s"
  obtains
    (none) "r = Inl ZX_ERR_NO_RESOURCES" "s' = s" "\<forall>j<bucket_count s. log2_uint_floor sz \<le> j \<longrightarrow> p2_free s ! j = []"
  | (nomem) j where "r = Inl ZX_ERR_NO_MEMORY" "wf_free s'" "same_books s s'" "\<forall>x. free_ids s' x = free_ids s x"
      "log2_uint_floor sz \<le> j" "j < bucket_count s" "p2_free s ! j \<noteq> []"
  | (ok) b where "r = Inr (blk_start b)" "wf_free s'" "bucket_count s' = bucket_count s"
      "p2_ranges s' = p2_ranges s" "p2_allocated s' = b # p2_allocated s" "wf_block (bucket_count s) b"
      "blk_bucket b = log2_uint_floor sz" "\<forall>x. free_ids s' x + owners [b] x = free_ids s x"
proof (cases "find_bucket (log2_uint_floor sz) (p2_free s)")
  case None
  have "r = Inl ZX_ERR_NO_RESOURCES \<and> s' = s"
    using a sz None by (simp add: p2ra_allocate_range_def Let_def)
  then show ?thesis
    using find_bucket_None [OF None] by (intro none) simp_all
next
  case (Some k)
  note fb = find_bucket_Some [OF Some]
  have k: "k < bucket_count s" and ne: "p2_free s ! k \<noteq> []"
    using fb by simp_all
  define b s1 where "b = hd (p2_free s ! k)" and "s1 = s\<lparr> p2_free := (p2_free s)[k := tl (p2_free s ! k)] \<rparr>"
  note h = take_head [OF s k ne, folded b_def s1_def]
  have le: "k - log2_uint_floor sz \<le> blk_bucket b"
    using h(4) by simp
  obtain q s2 where q: "split_block mem (k - log2_uint_floor sz) b s1 = (q, s2)"
    by fastforce
  show ?thesis
  proof (cases q)
    case (Inl e)
    have "r = Inl e" "s' = s2"
      using a sz Some q Inl by (simp_all add: p2ra_allocate_range_def Let_def b_def s1_def)
    moreover note split_block_fail [OF q [unfolded Inl] h(1,3) le]
    ultimately show ?thesis
      using h(5) same_books_trans [OF h(2)] fb by (intro nomem [of k]) (simp_all del: owners_simps)
  next
    case (Inr b')
    have "r = Inr (blk_start b')" "s' = s2\<lparr> p2_allocated := b' # p2_allocated s2 \<rparr>"
      using a sz Some q Inr by (simp_all add: p2ra_allocate_range_def Let_def b_def s1_def)
    moreover note split_block_ok [OF q [unfolded Inr] h(1,3) le]
    moreover have "blk_bucket b - (k - log2_uint_floor sz) = log2_uint_floor sz"
      using h(4) fb by simp
    ultimately show ?thesis
      using h(2,5) by (intro ok [of b']) (simp_all add: same_books_def del: owners_simps)
  qed
qed

lemma allocate_invalid:
  "sz = 0 \<or> \<not> ispow2 sz \<or> bucket_count s \<le> log2_uint_floor sz
    \<Longrightarrow> p2ra_allocate_range mem sz s = (Inl ZX_ERR_INVALID_ARGS, s)"
  by (auto simp: p2ra_allocate_range_def Let_def)

lemma p2_inv_books:
  assumes "p2_inv s" "wf_free s'" "bucket_count s' = bucket_count s" "p2_ranges s' = p2_ranges s"
    "\<forall>b\<in>set (p2_allocated s'). b \<in> set (p2_allocated s) \<or> wf_block (bucket_count s) b"
    "\<And>x. free_ids s' x + owners (p2_allocated s') x = free_ids s x + owners (p2_allocated s) x"
  shows "p2_inv s'"
  using assms by (auto simp: p2_inv_def added_ids_def)

lemma allocate_inv:
  assumes "p2_inv s" "p2ra_allocate_range mem sz s = (r, s')"
  shows "p2_inv s'"
proof (cases "sz = 0 \<or> \<not> ispow2 sz \<or> bucket_count s \<le> log2_uint_floor sz")
  case True
  then show ?thesis
    using allocate_invalid [OF True, of mem] assms by simp
next
  case False
  have s: "wf_free s"
    using assms(1) by (simp add: p2_inv_def)
  have sz: "sz \<noteq> 0" "ispow2 sz" "log2_uint_floor sz < bucket_count s"
    using False by simp_all
  show ?thesis
    using assms(2) s sz
  proof (cases rule: allocate_cases)
    case nomem
    then show ?thesis
      using assms(1) by - (rule p2_inv_books [of s], auto simp: same_books_def)
  next
    case (ok b)
    have "free_ids s' x + owners (p2_allocated s') x = free_ids s x + owners (p2_allocated s) x" for x
      using spec [OF ok(8), of x] owners_simps(3) [of "[b]" "p2_allocated s" x] by (simp add: ok(5) del: owners_simps)
    then show ?thesis
      using ok assms(1) by - (rule p2_inv_books [of s], auto simp del: owners_simps)
  qed (use assms(1) in simp)
qed

subsection \<open>Freeing\<close>

lemma free_inv:
  assumes s: "p2_inv s" and f: "p2ra_free_range range_start sz s = Some s'"
  shows "p2_inv s'"
    "p2_allocated s' = remove1 \<lparr> blk_bucket = log2_uint_floor sz, blk_start = range_start \<rparr> (p2_allocated s)"
proof -
  define b where "b = \<lparr> blk_bucket = log2_uint_floor sz, blk_start = range_start \<rparr>"
  define s1 where "s1 = s\<lparr> p2_allocated := remove1 b (p2_allocated s) \<rparr>"
  have b: "b \<in> set (p2_allocated s)" and s': "s' = p2ra_return_free_block b s1"
    using f by (simp_all add: p2ra_free_range_def Let_def b_def s1_def split: if_splits)
  have "wf_free s1" "wf_block (bucket_count s1) b"
    using s b by (auto simp: p2_inv_def s1_def wf_free_def)
  note r = return_free_block [OF this, folded s']
  have al: "p2_allocated s' = remove1 b (p2_allocated s)" and fr: "free_ids s1 = free_ids s"
    using r by (simp_all add: same_books_def s1_def free_ids_def)
  then show "p2_allocated s' = remove1 \<lparr> blk_bucket = log2_uint_floor sz, blk_start = range_start \<rparr> (p2_allocated s)"
    by (simp add: b_def)
  have "free_ids s' x + owners (p2_allocated s') x = free_ids s x + owners (p2_allocated s) x" for x
    using r al fr owners_remove1 [OF b, of x] by (simp del: owners_simps)
  moreover have "bucket_count s' = bucket_count s" "p2_ranges s' = p2_ranges s"
    using r by (simp_all add: same_books_def s1_def)
  moreover have "set (p2_allocated s') \<subseteq> set (p2_allocated s)"
    unfolding al by (rule set_remove1_subset)
  ultimately show "p2_inv s'"
    using s r by - (rule p2_inv_books [of s], auto)
qed

subsection \<open>Breaking a range into chunks\<close>

lemma unat_le_pow2: "k < 32 \<Longrightarrow> push_bit k 1 \<le> (w :: 32 word) \<longleftrightarrow> 2 ^ k \<le> unat w"
  by (simp only: word_le_nat_alt unat_shift_one)

lemma pow2_le_pow2: "k < 32 \<Longrightarrow> m < 32 \<Longrightarrow> push_bit k (1 :: 32 word) \<le> push_bit m 1 \<longleftrightarrow> k \<le> m"
  by (simp only: word_le_nat_alt unat_shift_one) simp

lemma halve_pow2:
  assumes "Suc k < 32"
  shows "drop_bit 1 (push_bit (Suc k) 1 :: 32 word) = push_bit k 1"
proof -
  have "unat (drop_bit 1 (push_bit (Suc k) 1) :: 32 word) = 2 ^ Suc k div 2"
    using pow2_less_word [OF assms]
    by (simp only: unsigned_drop_bit_eq unat_shift_one [OF assms]) (simp add: drop_bit_eq_div take_bit_eq_mod)
  then show ?thesis
    unfolding word_unat_eq_iff using unat_shift_one [of k] assms by simp
qed

lemma shrink_chunk_total:
  assumes "k < 32" "len \<noteq> 0"
  shows "\<exists>j shr. shrink_chunk st len (push_bit k 1) k sh = Some (push_bit j 1, j, shr) \<and> j \<le> k \<and>
    2 ^ j dvd unat st \<and> 2 ^ j \<le> unat len"
  using assms
proof (induction k arbitrary: sh)
  case 0
  have "shrink_chunk st len (push_bit 0 1) 0 sh = Some (push_bit 0 1, 0, sh)"
    using 0 by (subst shrink_chunk.simps) (simp add: word_less_1)
  then show ?case
    using 0 by (intro exI conjI) (auto simp: unat_gt_0 Suc_le_eq)
next
  case (Suc k)
  show ?case
  proof (cases "st AND (push_bit (Suc k) 1 - 1) \<noteq> 0 \<or> len < push_bit (Suc k) 1")
    case True
    then have "shrink_chunk st len (push_bit (Suc k) 1) (Suc k) sh = shrink_chunk st len (push_bit k 1) k True"
      using halve_pow2 [OF Suc.prems(1)] by (subst shrink_chunk.simps) (simp del: push_bit_of_1 push_bit_Suc)
    then show ?thesis
      using Suc.IH [of True] Suc.prems by (auto intro: le_SucI)
  next
    case False
    then have "shrink_chunk st len (push_bit (Suc k) 1) (Suc k) sh = Some (push_bit (Suc k) 1, Suc k, sh)"
      by (subst shrink_chunk.simps) (simp del: push_bit_of_1 push_bit_Suc)
    moreover have "2 ^ Suc k dvd unat st" "2 ^ Suc k \<le> unat len"
      using False Suc.prems(1) by (simp_all only: mask_eq_0_iff unat_le_pow2 not_less de_Morgan_disj not_not)
    ultimately show ?thesis
      by blast
  qed
qed

text \<open>
  Growing ends, unless the whole 32-bit word is used up: with the largest chunk size at \<open>2 ^ 31\<close>,
  the doubled size wraps to zero, which passes every test when the chunk starts at zero.
\<close>

definition grow_safe :: "nat \<Rightarrow> 32 word \<Rightarrow> 32 word \<Rightarrow> bool" where
  "grow_safe m st len \<longleftrightarrow> m < 31 \<or> st \<noteq> 0 \<or> unat len < 2 ^ 31"

lemma double_pow2: "push_bit 1 (push_bit k 1) = (push_bit (Suc k) 1 :: 32 word)"
  by simp

lemma grow_chunk_total:
  assumes "k \<le> m" "m < 32" "2 ^ k dvd unat st" "2 ^ k \<le> unat len" "grow_safe m st len"
  shows "\<exists>j. grow_chunk st len (push_bit m 1) (push_bit 1 (push_bit k 1)) (push_bit k 1) k = Some (push_bit j 1, j) \<and>
    k \<le> j \<and> j \<le> m \<and> 2 ^ j dvd unat st \<and> 2 ^ j \<le> unat len"
  using assms
proof (induction "m - k" arbitrary: k)
  case 0
  then have km: "k = m"
    by simp
  have "\<not> (push_bit 1 (push_bit k 1) \<le> (push_bit m 1 :: 32 word) \<and> push_bit 1 (push_bit k 1) \<le> len \<and>
    st AND (push_bit 1 (push_bit k 1) - 1) = 0)"
  proof (cases "m = 31")
    case True
    then have z: "push_bit 1 (push_bit k 1) = (0 :: 32 word)"
      using km by simp
    show ?thesis
      unfolding z using 0(5,6) km True by (simp add: grow_safe_def)
  next
    case False
    then show ?thesis
      using 0 km unfolding double_pow2 by (simp add: pow2_le_pow2 del: push_bit_of_1 push_bit_Suc)
  qed
  then show ?case
    using 0 km by (subst grow_chunk.simps) (auto simp del: push_bit_of_1 push_bit_push_bit push_bit_Suc)
next
  case (Suc d)
  then have k: "Suc k \<le> m" "Suc k < 32"
    by simp_all
  let ?t = "push_bit (Suc k) 1 :: 32 word"
  show ?case
  proof (cases "?t \<le> push_bit m 1 \<and> ?t \<le> len \<and> st AND (?t - 1) = 0")
    case True
    then have "grow_chunk st len (push_bit m 1) ?t (push_bit k 1) k = grow_chunk st len (push_bit m 1) (push_bit 1 ?t) ?t (Suc k)"
      by (subst grow_chunk.simps) (simp del: push_bit_of_1 push_bit_push_bit push_bit_Suc)
    moreover have "2 ^ Suc k dvd unat st" "2 ^ Suc k \<le> unat len"
      using True k(2) by (simp_all only: mask_eq_0_iff unat_le_pow2)
    moreover have "d = m - Suc k"
      using Suc.hyps(2) by simp
    ultimately show ?thesis
      using Suc.hyps(1) [of "Suc k"] Suc.prems(2,5) k unfolding double_pow2 by (auto dest: Suc_leD)
  next
    case False
    then have "grow_chunk st len (push_bit m 1) ?t (push_bit k 1) k = Some (push_bit k 1, k)"
      by (subst grow_chunk.simps) (rule if_not_P)
    then show ?thesis
      using Suc.prems unfolding double_pow2 by blast
  qed
qed

lemma size_chunk_total:
  assumes "k \<le> m" "m < 32" "len \<noteq> 0" "grow_safe m st len"
  shows "\<exists>j. size_chunk st len (push_bit m 1) (push_bit k 1) k = Some (push_bit j 1, j) \<and>
    j \<le> m \<and> 2 ^ j dvd unat st \<and> 2 ^ j \<le> unat len"
proof -
  have "k < 32"
    using assms by simp
  from shrink_chunk_total [OF this assms(3), of st False]
  obtain i shr where i: "shrink_chunk st len (push_bit k 1) k False = Some (push_bit i 1, i, shr)"
    and ik: "i \<le> k" "2 ^ i dvd unat st" "2 ^ i \<le> unat len"
    by blast
  have "i \<le> m"
    using ik(1) assms(1) by simp
  from grow_chunk_total [OF this assms(2) ik(2,3) assms(4)]
  show ?thesis
    using i ik \<open>i \<le> m\<close> by (cases shr) (auto simp: size_chunk_def simp del: push_bit_of_1 push_bit_push_bit)
qed

subsection \<open>Adding a range\<close>

text \<open>A list of blocks that tiles an interval of ids, each aligned.\<close>

definition tiles :: "nat \<Rightarrow> nat \<Rightarrow> nat \<Rightarrow> p2ra_block list \<Rightarrow> bool" where
  "tiles n lo hi bs \<longleftrightarrow> (\<forall>b\<in>set bs. wf_block n b) \<and>
     (\<forall>x. owners bs x = (if lo \<le> x \<and> x < hi then 1 else 0))"

lemma tiles_Nil: "tiles n lo lo []"
  by (simp add: tiles_def)

lemma tiles_Cons:
  assumes "tiles n (lo + 2 ^ blk_bucket b) hi bs" "wf_block n b" "lo = unat (blk_start b)" "lo + 2 ^ blk_bucket b \<le> hi"
  shows "tiles n lo hi (b # bs)"
  using assms by (auto simp: tiles_def blk_ids_def)

lemma chunk_range_step:
  assumes len: "len \<noteq> 0" and k: "k \<le> m" "m < 32" and safe: "grow_safe m st len"
    and nowrap: "unat st + unat len < 2 ^ 32"
  obtains j where "j \<le> m"
    "\<And>acc s. chunk_range mem (push_bit m 1) st len (push_bit k 1) k acc s =
       (case p2ra_get_unused_block mem s of
          (None, s') \<Rightarrow> Some (Inl ZX_ERR_NO_MEMORY, s')
        | (Some blk, s') \<Rightarrow>
            chunk_range mem (push_bit m 1) (st + push_bit j 1) (len - push_bit j 1) (push_bit j 1) j
              (acc @ [blk\<lparr> blk_bucket := j, blk_start := st \<rparr>]) s')"
    "unat (st + push_bit j 1) = unat st + 2 ^ j" "unat (len - push_bit j 1) = unat len - 2 ^ j"
    "2 ^ j \<le> unat len" "2 ^ j dvd unat st"
proof -
  obtain j where j: "size_chunk st len (push_bit m 1) (push_bit k 1) k = Some (push_bit j 1, j)"
    and jm: "j \<le> m" and al: "2 ^ j dvd unat st" and le: "2 ^ j \<le> unat len"
    using size_chunk_total [OF k len safe] by blast
  have j32: "j < 32"
    using jm k(2) by simp
  note u = unat_shift_one [OF j32]
  show ?thesis
  proof (rule that [OF jm _ _ _ le al])
    show "unat (st + push_bit j 1) = unat st + 2 ^ j"
      using nowrap le u by (simp add: unat_word_ariths del: push_bit_of_1)
    show "unat (len - push_bit j 1) = unat len - 2 ^ j"
      using le u by (simp add: unat_sub word_le_nat_alt del: push_bit_of_1)
  qed (subst chunk_range.simps, simp add: len j del: push_bit_of_1)
qed

text \<open>The chunk loop returned: it ran out of memory, or it appended blocks that tile the interval.\<close>

definition chunked ::
  "nat \<Rightarrow> nat \<Rightarrow> nat \<Rightarrow> p2ra_block list \<Rightarrow> p2ra_state
   \<Rightarrow> ((zx_status_t + p2ra_block list) \<times> p2ra_state) option \<Rightarrow> bool" where
  "chunked n lo hi acc s res \<longleftrightarrow>
     (case res of
        None \<Rightarrow> False
      | Some (r, s') \<Rightarrow> p2_free s' = p2_free s \<and> same_books s s' \<and>
          (case r of Inl e \<Rightarrow> e = ZX_ERR_NO_MEMORY
           | Inr l \<Rightarrow> \<exists>bs. l = acc @ bs \<and> tiles n lo hi bs))"

lemma chunked_step:
  assumes c: "chunked n (lo + 2 ^ blk_bucket b) hi (acc @ [b]) s1 res"
    and b: "wf_block n b" "lo = unat (blk_start b)" "lo + 2 ^ blk_bucket b \<le> hi"
    and fr: "p2_free s1 = p2_free s" "same_books s s1"
  shows "chunked n lo hi acc s res"
proof -
  have t: "tiles n lo hi (b # bs)" if "tiles n (lo + 2 ^ blk_bucket b) hi bs" for bs
    using that b by (rule tiles_Cons)
  obtain r s' where res: "res = Some (r, s')"
    using c by (cases res) (auto simp: chunked_def)
  show ?thesis
    using c fr t same_books_trans [OF fr(2)] unfolding res by (cases r) (auto simp: chunked_def)
qed

lemma chunk_range_total:
  assumes "k \<le> m" "m < 32" "grow_safe m st len" "unat st + unat len < 2 ^ 32"
  shows "chunked (Suc m) (unat st) (unat st + unat len) acc s
    (chunk_range mem (push_bit m 1) st len (push_bit k 1) k acc s)"
  using assms
proof (induction "unat len" arbitrary: st len k acc s rule: less_induct)
  case less
  show ?case
  proof (cases "len = 0")
    case True
    then show ?thesis
      by (subst chunk_range.simps) (simp add: chunked_def same_books_def tiles_Nil)
  next
    case False
    obtain j where jm: "j \<le> m" and eq: "\<And>acc s. chunk_range mem (push_bit m 1) st len (push_bit k 1) k acc s =
       (case p2ra_get_unused_block mem s of
          (None, s') \<Rightarrow> Some (Inl ZX_ERR_NO_MEMORY, s')
        | (Some blk, s') \<Rightarrow>
            chunk_range mem (push_bit m 1) (st + push_bit j 1) (len - push_bit j 1) (push_bit j 1) j
              (acc @ [blk\<lparr> blk_bucket := j, blk_start := st \<rparr>]) s')"
      and us: "unat (st + push_bit j 1) = unat st + 2 ^ j" and ul: "unat (len - push_bit j 1) = unat len - 2 ^ j"
      and le: "2 ^ j \<le> unat len" and al: "2 ^ j dvd unat st"
      by (rule chunk_range_step [OF False less.prems, where mem = mem]) (rule that)
    obtain q s1 where q: "p2ra_get_unused_block mem s = (q, s1)"
      by fastforce
    note fr = get_unused_block_frame [OF q]
    show ?thesis
    proof (cases q)
      case None
      then show ?thesis
        using eq [of acc s] q fr(1,2) by (simp add: chunked_def)
    next
      case (Some blk)
      let ?b = "blk\<lparr> blk_bucket := j, blk_start := st \<rparr>"
      let ?res = "chunk_range mem (push_bit m 1) (st + push_bit j 1) (len - push_bit j 1) (push_bit j 1) j (acc @ [?b]) s1"
      have safe: "grow_safe m (st + push_bit j 1) (len - push_bit j 1)"
        using us by (auto simp: grow_safe_def word_unat_eq_iff)
      have lt: "unat (len - push_bit j 1) < unat len"
        unfolding ul using le False by (intro diff_less) (simp_all add: unat_gt_0)
      have nw: "unat (st + push_bit j 1) + unat (len - push_bit j 1) < 2 ^ 32"
        unfolding us ul using le less.prems(4) by simp
      have hi: "unat (st + push_bit j 1) + unat (len - push_bit j 1) = unat st + unat len"
        unfolding us ul using le by simp
      have "chunked (Suc m) (unat st + 2 ^ j) (unat st + unat len) (acc @ [?b]) s1 ?res"
        using less.hyps [OF lt jm less.prems(2) safe nw, of "acc @ [?b]" s1] by (simp only: hi) (simp only: us)
      moreover have "wf_block (Suc m) ?b"
        using jm al le less.prems(2,4) by (auto simp: wf_block_def)
      ultimately have "chunked (Suc m) (unat st) (unat st + unat len) acc s ?res"
        using le fr(1,2) by - (rule chunked_step [where b = ?b], simp_all)
      then show ?thesis
        using eq [of acc s] q Some by simp
    qed
  qed
qed

text \<open>The doubled size wraps to zero, and from there growing never ends.\<close>

lemma grow_chunk_diverges: "grow_chunk 0 len max_csize 0 csize bucket = None"
proof -
  have "\<not> (st = 0 \<and> tmp = 0)" if "grow_chunk st len mx tmp csize bucket = Some y" for st tmp csize bucket y mx
    using _ that
  proof (rule grow_chunk.raw_induct [of "\<lambda>st len mx tmp csize bucket y. \<not> (st = 0 \<and> tmp = 0)"])
    fix grow :: "32 word \<Rightarrow> 32 word \<Rightarrow> 32 word \<Rightarrow> 32 word \<Rightarrow> 32 word \<Rightarrow> nat \<Rightarrow> (32 word \<times> nat) option"
      and st len mx tmp csize :: "32 word" and bucket y
    assume IH: "\<And>st len mx tmp csize bucket y. grow st len mx tmp csize bucket = Some y \<Longrightarrow> \<not> (st = 0 \<and> tmp = 0)"
      and eq: "(if tmp \<le> mx \<and> tmp \<le> len \<and> st AND (tmp - 1) = 0
        then grow st len mx (push_bit 1 tmp) tmp (bucket + 1) else Some (csize, bucket)) = Some y"
    show "\<not> (st = 0 \<and> tmp = 0)"
      using IH [of st len mx "push_bit 1 tmp" tmp "bucket + 1" y] eq by auto
  qed
  then show ?thesis
    by (cases "grow_chunk 0 len max_csize 0 csize bucket") blast+
qed

lemma add_range_diverges:
  assumes "2 ^ 31 \<le> unat len" "bucket_count s = 32" "mem (p2_callocs s)"
    "\<not> list_ex (range_overlaps 0 len) (p2_ranges s)"
  shows "p2ra_add_range mem 0 len s = None"
proof -
  have len: "len \<noteq> 0" "push_bit 31 1 \<le> len"
    using assms(1) unat_le_pow2 [of 31 len] by auto
  then have "shrink_chunk 0 len (push_bit 31 1) 31 False = Some (push_bit 31 1, 31, False)"
    by (subst shrink_chunk.simps) (simp add: linorder_not_less [THEN iffD2] del: push_bit_of_1)
  moreover have "push_bit 1 (push_bit 31 1) = (0 :: 32 word)"
    by simp
  ultimately have "size_chunk 0 len (push_bit 31 1) (push_bit 31 1) 31 = None"
    by (simp add: size_chunk_def grow_chunk_diverges del: push_bit_of_1 push_bit_push_bit)
  then have "chunk_range mem (push_bit 31 1) 0 len (push_bit 31 1) 31 [] s1 = None" for s1
    using len(1) by (subst chunk_range.simps) simp
  then show ?thesis
    using assms len(1) by (simp add: p2ra_add_range_def p2ra_calloc_def Let_def del: push_bit_of_1)
qed

section \<open>Free buddies are merged\<close>

definition coalesced :: "p2ra_state \<Rightarrow> bool" where
  "coalesced s \<longleftrightarrow> (\<forall>k f g. k + 1 < bucket_count s \<and> f \<in> set (p2_free s ! k) \<and> g \<in> set (p2_free s ! k) \<longrightarrow> \<not> buddies f g)"

lemma next_multiple:
  assumes "2 ^ k dvd (x::nat)" "2 ^ k dvd y" "x < y"
  shows "x + 2 ^ k \<le> y"
proof -
  have "2 ^ k dvd y - x"
    using assms by (intro dvd_diff_nat)
  then have "2 ^ k \<le> y - x"
    using assms(3) by (intro dvd_imp_le) simp_all
  then show ?thesis
    using assms(3) by simp
qed

lemma list_after_gt:
  assumes "sorted (map blk_start l)" "a \<in> set (list_after b l)"
  shows "blk_start b < blk_start a"
proof -
  obtain c cs where c: "list_after b l = c # cs"
    using assms(2) by (cases "list_after b l") auto
  then have "blk_start b < blk_start c"
    unfolding list_after_def by (auto simp: dropWhile_eq_Cons_conv)
  moreover have "sorted (map blk_start (c # cs))"
    using assms(1) list_before_after [of b l] by (metis c map_append sorted_append)
  then have "blk_start c \<le> blk_start a"
    using assms(2) by (auto simp: c)
  ultimately show ?thesis
    by simp
qed

lemma no_merge_even:
  assumes l: "wf_bucket n (blk_bucket b) l" and b: "wf_block n b" "blk_bucket b + 1 < n"
    and m: "merge_pair b l = None" and a: "a \<in> set l"
  shows "\<not> buddies b a"
proof
  assume bd: "buddies b a"
  note d = wf_bucket_D [OF l]
  have ev: "\<not> odd_aligned b"
    using bd unfolding odd_aligned_iff [OF b] buddies_def by blast
  have st: "unat (blk_start b) + 2 ^ blk_bucket b = unat (blk_start a)"
    using bd unfolding buddies_def by blast
  have lt: "blk_start b < blk_start a"
    unfolding word_less_nat_alt st [symmetric] by simp
  then have aft: "a \<in> set (list_after b l)"
    using a list_before_after [of b l] list_before_le [of a b l] by (metis Un_iff linorder_not_less set_append)
  then obtain c cs where c: "list_after b l = c # cs"
    by (cases "list_after b l") auto
  have cl: "c \<in> set l"
    using list_before_after [of b l] c by (metis in_set_conv_decomp)
  have "sorted (map blk_start (c # cs))"
    using d(3) list_before_after [of b l] by (metis c map_append sorted_append)
  then have "blk_start c \<le> blk_start a"
    using aft by (auto simp: c)
  moreover have "blk_start b < blk_start c"
    by (rule list_after_gt [OF d(3)]) (simp add: c)
  then have "unat (blk_start b) + 2 ^ blk_bucket b \<le> unat (blk_start c)"
    using d(1,2) [OF cl] b(1) by (intro next_multiple) (auto simp: wf_block_def word_less_nat_alt)
  ultimately have "unat (blk_start b) + 2 ^ blk_bucket b = unat (blk_start c)"
    using st by (simp add: word_le_nat_alt)
  then have "blk_start b + blk_len b = blk_start c"
    using unat_blk_end [OF b(1)] by (simp add: word_unat_eq_iff)
  then show False
    using m ev c by (simp add: merge_pair_def)
qed

lemma no_merge_odd:
  assumes l: "wf_bucket n (blk_bucket b) l" and b: "wf_block n b" "blk_bucket b + 1 < n"
    and m: "merge_pair b l = None" and a: "a \<in> set l" and fresh: "\<forall>a\<in>set l. blk_start a \<noteq> blk_start b"
  shows "\<not> buddies a b"
proof
  assume bd: "buddies a b"
  note d = wf_bucket_D [OF l]
  have st: "unat (blk_start a) + 2 ^ blk_bucket b = unat (blk_start b)" and al: "2 ^ Suc (blk_bucket b) dvd unat (blk_start a)"
    using bd unfolding buddies_def by auto
  have od: "odd_aligned b"
  proof (rule ccontr)
    assume "\<not> odd_aligned b"
    then have "2 ^ Suc (blk_bucket b) dvd unat (blk_start a) + 2 ^ blk_bucket b"
      using odd_aligned_iff [OF b] st by simp
    then have "2 ^ Suc (blk_bucket b) dvd (2::nat) ^ blk_bucket b"
      using al by (simp only: dvd_add_right_iff)
    then show False
      by (simp add: power_dvd_imp_le)
  qed
  have "blk_start a < blk_start b"
    unfolding word_less_nat_alt st [symmetric] by simp
  then have bef: "a \<in> set (list_before b l)"
    using a list_before_after [of b l] list_after_gt [OF d(3), of a b]
    by (metis Un_iff linorder_not_less less_imp_le set_append)
  then obtain pre c where c: "list_before b l = pre @ [c]"
    by (cases "list_before b l" rule: rev_cases) auto
  have cl: "c \<in> set l"
    using list_before_after [of b l] c by (metis append.assoc append_Cons in_set_conv_decomp)
  have "sorted (map blk_start (pre @ [c]))"
    using d(3) list_before_after [of b l] by (metis c map_append sorted_append)
  then have "blk_start a \<le> blk_start c"
    using bef by (auto simp: c sorted_append)
  moreover have "blk_start c < blk_start b"
    using list_before_le [of c b l] fresh cl by (auto simp: c order_le_less)
  then have "unat (blk_start c) + 2 ^ blk_bucket b \<le> unat (blk_start b)"
    using d(1,2) [OF cl] b(1) by (intro next_multiple) (auto simp: wf_block_def word_less_nat_alt)
  ultimately have "unat (blk_start c) + 2 ^ blk_bucket c = unat (blk_start b)"
    using st d(1) [OF cl] by (simp add: word_le_nat_alt)
  then have "blk_start c + blk_len c = blk_start b"
    using unat_blk_end [OF d(2) [OF cl]] by (simp add: word_unat_eq_iff)
  then show False
    using m od c by (simp add: merge_pair_def)
qed

lemma free_ids_mem:
  assumes "k < bucket_count s" "b \<in> set (p2_free s ! k)" "x \<in> blk_ids b"
  shows "0 < free_ids s x"
proof -
  have "b \<in> set (concat (p2_free s))"
    using assms(1,2) by (auto intro!: bexI [of _ "p2_free s ! k"])
  then show ?thesis
    using assms(3) by (auto simp: free_ids_def owners_pos simp del: set_concat)
qed

lemma start_in_ids [simp]: "unat (blk_start b) \<in> blk_ids b"
  by (simp add: blk_ids_def)

text \<open>A block none of whose ids is free, added to free lists without overlaps.\<close>

definition fresh_block :: "p2ra_block \<Rightarrow> p2ra_state \<Rightarrow> bool" where
  "fresh_block b s \<longleftrightarrow> (\<forall>x. free_ids s x + owners [b] x \<le> 1)"

lemma fresh_start:
  assumes "fresh_block b s" "k < bucket_count s" "a \<in> set (p2_free s ! k)"
  shows "blk_start a \<noteq> blk_start b"
proof
  assume eq: "blk_start a = blk_start b"
  have "0 < free_ids s (unat (blk_start b))"
    using free_ids_mem [OF assms(2,3), of "unat (blk_start b)"] by (simp flip: eq)
  then show False
    using spec [OF assms(1) [unfolded fresh_block_def], of "unat (blk_start b)"] by simp
qed

lemma coalesced_update:
  assumes "coalesced s" "\<And>f g. k + 1 < bucket_count s \<Longrightarrow> f \<in> set l \<Longrightarrow> g \<in> set l \<Longrightarrow> \<not> buddies f g"
  shows "coalesced (s\<lparr> p2_free := (p2_free s)[k := l] \<rparr>)"
  unfolding coalesced_def
proof (intro allI impI)
  fix j f g
  assume "j + 1 < bucket_count (s\<lparr> p2_free := (p2_free s)[k := l] \<rparr>) \<and>
    f \<in> set (p2_free (s\<lparr> p2_free := (p2_free s)[k := l] \<rparr>) ! j) \<and>
    g \<in> set (p2_free (s\<lparr> p2_free := (p2_free s)[k := l] \<rparr>) ! j)"
  then have j: "j + 1 < bucket_count s" and fg: "f \<in> set ((p2_free s)[k := l] ! j)" "g \<in> set ((p2_free s)[k := l] ! j)"
    by simp_all
  show "\<not> buddies f g"
  proof (cases "j = k")
    case True
    then show ?thesis
      using assms(2) j fg by simp
  next
    case False
    then show ?thesis
      using assms(1) j fg unfolding coalesced_def by simp
  qed
qed

lemma coalesced_frame: "p2_free s' = p2_free s \<Longrightarrow> coalesced s' = coalesced s"
  by (simp add: coalesced_def)

lemma merge_pair_rest:
  assumes "merge_pair b l = Some (f, g, rest)"
  shows "set rest \<subseteq> set l"
proof -
  have l: "set l = set (list_before b l) \<union> set (list_after b l)"
    using arg_cong [OF list_before_after [of b l], of set] by simp
  have "rest = butlast (list_before b l) @ list_after b l \<or> rest = list_before b l @ tl (list_after b l)"
    using assms by (auto simp: merge_pair_def Let_def split: if_splits)
  then show ?thesis
    unfolding l by (cases "list_after b l") (auto dest: in_set_butlastD)
qed

lemma return_free_block_coalesced:
  assumes "wf_free s" "wf_block (bucket_count s) b"
  shows "coalesced s \<Longrightarrow> fresh_block b s \<Longrightarrow> coalesced (p2ra_return_free_block b s)"
  using assms
proof (induction rule: return_free_block_induct)
  case (insert b s)
  let ?l = "p2_free s ! blk_bucket b"
  note wf = wf_free_bucket [OF insert(1,2)]
  have st: "\<forall>a\<in>set ?l. blk_start a \<noteq> blk_start b"
    using fresh_start [OF insert(6) wf(1)] by blast
  have l: "set (list_before b ?l @ b # list_after b ?l) = insert b (set ?l)"
    using arg_cong [OF list_before_after [of b ?l], of set] by simp
  have "\<not> buddies f g" if lt: "blk_bucket b + 1 < bucket_count s" and f: "f \<in> insert b (set ?l)" and g: "g \<in> insert b (set ?l)" for f g
  proof -
    have m: "merge_pair b ?l = None"
      using insert(3) lt by simp
    have "\<not> buddies b b"
      by (simp add: buddies_def)
    moreover have "\<not> buddies f g" if "f \<in> set ?l" "g \<in> set ?l"
      using insert(5) lt that unfolding coalesced_def by blast
    ultimately show ?thesis
      using no_merge_even [OF wf(2) insert(2) lt m] no_merge_odd [OF wf(2) insert(2) lt m _ st] f g by blast
  qed
  then have "coalesced (inserted_state b s)"
    by (intro coalesced_update [OF insert(5)]) (unfold l, blast)
  then show ?case
    using insert(4) by simp
next
  case (merge b s f g rest)
  note st = merge_step [OF merge(1-4)]
  have "coalesced (s\<lparr> p2_free := (p2_free s)[blk_bucket b := rest] \<rparr>)"
    using merge(6) merge_pair_rest [OF merge(4)]
    by (intro coalesced_update) (auto simp: coalesced_def)
  then have "coalesced (merged_state b g rest s)"
    by (simp add: coalesced_def)
  moreover have "fresh_block (f\<lparr> blk_bucket := blk_bucket b + 1 \<rparr>) (merged_state b g rest s)"
    using merge(7) unfolding fresh_block_def st(3) .
  ultimately show ?case
    using merge(5) st(4) by simp
qed

lemma split_block_coalesced:
  assumes "split_block mem k b s = (r, s')" "wf_free s" "wf_block (bucket_count s) b" "k \<le> blk_bucket b"
    "coalesced s" "fresh_block b s"
  shows "coalesced s'"
  using assms
proof (induction k arbitrary: b s)
  case (Suc k)
  obtain q s1 where u: "p2ra_get_unused_block mem s = (q, s1)"
    by fastforce
  note fr = get_unused_block_frame [OF u]
  have c1: "coalesced s1" and n1: "bucket_count s1 = bucket_count s"
    using Suc.prems(5) fr(1) coalesced_frame [OF fr(1)] by simp_all
  show ?case
  proof (cases q)
    case None
    then have s': "s' = p2ra_return_free_block b s1"
      using Suc.prems(1) u by simp
    show ?thesis
      unfolding s' using c1 n1 fr Suc.prems(2,3,6)
      by (intro return_free_block_coalesced) (simp_all add: fresh_block_def del: owners_simps)
  next
    case (Some v)
    have pos: "0 < blk_bucket b" and k: "k \<le> blk_bucket (lower_half b)"
      using Suc.prems(4) by simp_all
    note st = split_step [OF u [unfolded Some] Suc.prems(2,3) pos]
    have rec: "split_block mem k (lower_half b) (p2ra_return_free_block (upper_half b v) s1) = (r, s')"
      using Suc.prems(1) u Some by (simp add: Let_def)
    have "fresh_block (upper_half b v) s1"
      unfolding fresh_block_def
    proof
      fix x
      show "free_ids s1 x + owners [upper_half b v] x \<le> 1"
        using halves(4) [OF Suc.prems(3) pos, of x v] spec [OF Suc.prems(6) [unfolded fresh_block_def], of x] fr(4)
        by (simp del: owners_simps)
    qed
    then have "coalesced (p2ra_return_free_block (upper_half b v) s1)"
      using c1 n1 fr Suc.prems(2) halves(2) [OF Suc.prems(3) pos]
      by (intro return_free_block_coalesced) simp_all
    moreover have "fresh_block (lower_half b) (p2ra_return_free_block (upper_half b v) s1)"
      using Suc.prems(6) unfolding fresh_block_def st(4) .
    ultimately show ?thesis
      using Suc.IH [OF rec st(1,3) k] by blast
  qed
qed simp

section \<open>The operations keep the invariant\<close>

definition p2_good :: "p2ra_state \<Rightarrow> bool" where
  "p2_good s \<longleftrightarrow> p2_inv s \<and> coalesced s"

lemma p2_inv_free_le: "p2_inv s \<Longrightarrow> free_ids s x + owners (p2_allocated s) x \<le> 1"
  by (simp add: p2_inv_def)

lemma coalesced_allocated [simp]: "coalesced (s\<lparr> p2_allocated := l \<rparr>) = coalesced s"
  by (simp add: coalesced_def)

lemma allocate_good:
  assumes s: "p2_good s" and a: "p2ra_allocate_range mem sz s = (r, s')"
  shows "p2_good s'"
proof -
  have inv: "p2_inv s" "coalesced s" "wf_free s"
    using s by (simp_all add: p2_good_def p2_inv_def)
  have "coalesced s'"
  proof (cases "sz = 0 \<or> \<not> ispow2 sz \<or> bucket_count s \<le> log2_uint_floor sz \<or>
      find_bucket (log2_uint_floor sz) (p2_free s) = None")
    case True
    then have "s' = s"
      using a by (auto simp: p2ra_allocate_range_def Let_def split: if_splits)
    then show ?thesis
      using inv by simp
  next
    case False
    then obtain k where k: "find_bucket (log2_uint_floor sz) (p2_free s) = Some k"
      by blast
    define b s1 where "b = hd (p2_free s ! k)" and "s1 = s\<lparr> p2_free := (p2_free s)[k := tl (p2_free s ! k)] \<rparr>"
    note h = take_head [OF inv(3), of k, folded b_def s1_def]
    have kn: "k < bucket_count s" "p2_free s ! k \<noteq> []"
      using find_bucket_Some [OF k] by simp_all
    obtain q s2 where q: "split_block mem (k - log2_uint_floor sz) b s1 = (q, s2)"
      by fastforce
    have "coalesced s1"
      unfolding s1_def using inv(2) kn
      by (intro coalesced_update) (auto simp: coalesced_def dest: list.set_sel(2))
    moreover have "fresh_block b s1"
      unfolding fresh_block_def h(5) [OF kn] using p2_inv_free_le [OF inv(1)] by (auto intro: add_leD1)
    ultimately have "coalesced s2"
      using q h(1,3,4) [OF kn] by (intro split_block_coalesced [OF q]) simp_all
    moreover have "s' = s2 \<or> (\<exists>l. s' = s2\<lparr> p2_allocated := l \<rparr>)"
      using a False k q by (auto simp: p2ra_allocate_range_def Let_def b_def s1_def split: sum.splits)
    ultimately show ?thesis
      by auto
  qed
  then show ?thesis
    using allocate_inv [OF inv(1) a] by (simp add: p2_good_def)
qed

lemma free_good:
  assumes s: "p2_good s" and f: "p2ra_free_range range_start sz s = Some s'"
  shows "p2_good s'"
proof -
  define b where "b = \<lparr> blk_bucket = log2_uint_floor sz, blk_start = range_start \<rparr>"
  define s1 where "s1 = s\<lparr> p2_allocated := remove1 b (p2_allocated s) \<rparr>"
  have inv: "p2_inv s" "coalesced s" "wf_free s"
    using s by (simp_all add: p2_good_def p2_inv_def)
  have b: "b \<in> set (p2_allocated s)" and s': "s' = p2ra_return_free_block b s1"
    using f by (simp_all add: p2ra_free_range_def Let_def b_def s1_def split: if_splits)
  have "free_ids s1 x + owners [b] x \<le> 1" for x
    using owners_remove1 [OF b, of x] p2_inv_free_le [OF inv(1), of x] by (simp add: s1_def del: owners_simps)
  then have "fresh_block b s1"
    by (simp add: fresh_block_def del: owners_simps)
  moreover have "wf_free s1" "coalesced s1" "wf_block (bucket_count s1) b"
    using inv b by (auto simp: p2_inv_def s1_def)
  ultimately have "coalesced s'"
    unfolding s' by (intro return_free_block_coalesced)
  then show ?thesis
    using free_inv(1) [OF inv(1) f] by (simp add: p2_good_def)
qed

lemma fold_return:
  assumes "wf_free s" "\<forall>b\<in>set bs. wf_block (bucket_count s) b" "coalesced s" "\<forall>x. free_ids s x + owners bs x \<le> 1"
  defines "s' \<equiv> foldl (\<lambda>s b. p2ra_return_free_block b s) s bs"
  shows "wf_free s' \<and> same_books s s' \<and> coalesced s' \<and> (\<forall>x. free_ids s' x = free_ids s x + owners bs x)"
  using assms(1-4) unfolding s'_def
proof (induction bs arbitrary: s)
  case (Cons b bs)
  let ?s1 = "p2ra_return_free_block b s"
  have b: "wf_block (bucket_count s) b"
    using Cons.prems(2) by simp
  note r = return_free_block [OF Cons.prems(1) b]
  have split: "owners (b # bs) x = owners [b] x + owners bs x" for x
    by simp
  have "fresh_block b s"
    unfolding fresh_block_def using Cons.prems(4) unfolding split by (metis add.assoc add_leD1)
  then have c: "coalesced ?s1"
    by (rule return_free_block_coalesced [OF Cons.prems(1) b Cons.prems(3)])
  have "\<forall>x. free_ids ?s1 x + owners bs x \<le> 1"
    using Cons.prems(4) r unfolding split by (simp add: add.assoc del: owners_simps)
  moreover have "\<forall>b\<in>set bs. wf_block (bucket_count ?s1) b"
    using Cons.prems(2) r by (simp add: same_books_def)
  ultimately have IH: "wf_free (foldl (\<lambda>s b. p2ra_return_free_block b s) ?s1 bs) \<and>
    same_books ?s1 (foldl (\<lambda>s b. p2ra_return_free_block b s) ?s1 bs) \<and>
    coalesced (foldl (\<lambda>s b. p2ra_return_free_block b s) ?s1 bs) \<and>
    (\<forall>x. free_ids (foldl (\<lambda>s b. p2ra_return_free_block b s) ?s1 bs) x = free_ids ?s1 x + owners bs x)"
    using Cons.IH [of ?s1] r c by blast
  then show ?case
    using r same_books_trans [of s ?s1] unfolding split by (simp add: add.assoc del: owners_simps)
qed (simp add: same_books_def)

lemma no_overlap_disjoint:
  assumes "rng_ok r" "rng_ok r'" "\<not> range_overlaps (rng_start r') (rng_len r') r"
  shows "rng_ids r \<inter> rng_ids r' = {}"
proof -
  have "unat (rng_start q + rng_len q) = unat (rng_start q) + unat (rng_len q)" if "rng_ok q" for q
    using that by (simp add: rng_ok_def unat_word_ariths)
  then show ?thesis
    using assms by (auto simp: range_overlaps_def rng_ids_def rng_ok_def word_le_nat_alt word_less_nat_alt)
qed

lemma nowrap_iff: "st + len < st \<longleftrightarrow> \<not> unat st + unat (len :: 32 word) < 2 ^ 32"
proof -
  have "unat (st + len) = (unat st + unat len) mod 2 ^ 32"
    by (simp add: unat_word_ariths)
  then show ?thesis
    using unsigned_less [of st, where ?'a = nat] unsigned_less [of len, where ?'a = nat]
    by (auto simp: word_less_nat_alt mod_if)
qed

subsection \<open>Adding a range\<close>

lemma add_range_blocks:
  assumes s: "p2_good s" and r: "rng_ok r" "\<forall>q\<in>set (p2_ranges s). \<not> range_overlaps (rng_start r) (rng_len r) q"
    and fr: "p2_free s2 = p2_free s" "same_books s s2"
    and t: "tiles (bucket_count s) (unat (rng_start r)) (unat (rng_start r) + unat (rng_len r)) bs"
  defines "s' \<equiv> foldl (\<lambda>s b. p2ra_return_free_block b s) (s2\<lparr> p2_ranges := p2_ranges s2 @ [r] \<rparr>) bs"
  shows "p2_good s' \<and> p2_allocated s' = p2_allocated s \<and> p2_ranges s' = p2_ranges s @ [r]"
proof -
  let ?s3 = "s2\<lparr> p2_ranges := p2_ranges s2 @ [r] \<rparr>"
  have inv: "p2_inv s" "coalesced s" "wf_free s"
    using s by (simp_all add: p2_good_def p2_inv_def)
  have eq: "free_ids ?s3 = free_ids s" "wf_free ?s3" "coalesced ?s3" "bucket_count ?s3 = bucket_count s"
    "p2_ranges ?s3 = p2_ranges s @ [r]" "p2_allocated ?s3 = p2_allocated s"
    using fr inv by (simp_all add: free_ids_def wf_free_def coalesced_def same_books_def)
  have own: "owners bs x = (if x \<in> rng_ids r then 1 else 0)" for x
    using t by (simp add: tiles_def rng_ids_def)
  have "rng_ids q \<inter> rng_ids r = {}" if "q \<in> set (p2_ranges s)" for q
    using that r inv(1) by (intro no_overlap_disjoint) (simp_all add: p2_inv_def)
  then have dis: "x \<notin> rng_ids r" if "x \<in> added_ids s" for x
    using that by (auto simp: added_ids_def)
  have cnt: "free_ids s x + owners (p2_allocated s) x = (if x \<in> added_ids s then 1 else 0)" for x
    using inv(1) by (simp add: p2_inv_def)
  have "free_ids s x + owners bs x \<le> 1" for x
    using cnt [of x] own [of x] dis [of x] by (cases "x \<in> added_ids s") auto
  then have f: "wf_free s' \<and> same_books ?s3 s' \<and> coalesced s' \<and> (\<forall>x. free_ids s' x = free_ids ?s3 x + owners bs x)"
    unfolding s'_def using t eq by (intro fold_return) (simp_all add: tiles_def)
  have books: "p2_ranges s' = p2_ranges s @ [r]" "p2_allocated s' = p2_allocated s" "bucket_count s' = bucket_count s"
    using f eq by (simp_all add: same_books_def)
  have "free_ids s' x + owners (p2_allocated s') x = (if x \<in> added_ids s' then 1 else 0)" for x
    using cnt [of x] own [of x] dis [of x] f eq(1) books by (auto simp: added_ids_def)
  then have "p2_inv s'"
    using f inv(1) r(1) books by (auto simp: p2_inv_def)
  then show ?thesis
    using f books by (simp add: p2_good_def)
qed

lemma add_range_total:
  assumes s: "p2_good s" and safe: "bucket_count s < 32 \<or> range_start \<noteq> 0 \<or> unat range_len < 2 ^ 31"
  shows "\<exists>st s'. p2ra_add_range mem range_start range_len s = Some (st, s') \<and> p2_good s' \<and>
    p2_allocated s' = p2_allocated s \<and>
    (st = ZX_ERR_INVALID_ARGS \<longleftrightarrow> range_len = 0 \<or> 2 ^ 32 \<le> unat range_start + unat range_len) \<and>
    (st = ZX_OK \<longrightarrow> p2_ranges s' = p2_ranges s @ [\<lparr> rng_start = range_start, rng_len = range_len \<rparr>]) \<and>
    (st \<noteq> ZX_OK \<longrightarrow> p2_ranges s' = p2_ranges s \<and> p2_free s' = p2_free s)"
proof -
  let ?r = "\<lparr> rng_start = range_start, rng_len = range_len \<rparr>"
  have unchanged: "p2_good s'" if "p2_free s' = p2_free s" "same_books s s'" for s'
    using s that
    by (simp add: p2_good_def p2_inv_def wf_free_def coalesced_def same_books_def free_ids_def added_ids_def)
  consider (invalid) "range_len = 0 \<or> \<not> unat range_start + unat range_len < 2 ^ 32"
    | (exists) "range_len \<noteq> 0" "unat range_start + unat range_len < 2 ^ 32"
        "list_ex (range_overlaps range_start range_len) (p2_ranges s)"
    | (nomem) "range_len \<noteq> 0" "unat range_start + unat range_len < 2 ^ 32"
        "\<not> list_ex (range_overlaps range_start range_len) (p2_ranges s)" "\<not> mem (p2_callocs s)"
    | (chunk) "range_len \<noteq> 0" "unat range_start + unat range_len < 2 ^ 32"
        "\<not> list_ex (range_overlaps range_start range_len) (p2_ranges s)" "mem (p2_callocs s)"
    by blast
  then show ?thesis
  proof cases
    case chunk
    let ?m = "bucket_count s - 1"
    let ?s1 = "s\<lparr> p2_callocs := Suc (p2_callocs s) \<rparr>"
    have n: "Suc ?m = bucket_count s" "?m < 32"
      using s by (auto simp: p2_good_def p2_inv_def wf_free_def)
    have "grow_safe ?m range_start range_len"
      using safe n by (auto simp: grow_safe_def)
    from chunk_range_total [OF order_refl n(2) this chunk(2), of "[]" ?s1 mem]
    obtain q s2 where q: "chunk_range mem (push_bit ?m 1) range_start range_len (push_bit ?m 1) ?m [] ?s1 = Some (q, s2)"
      and fr: "p2_free s2 = p2_free s" "same_books s s2"
      and res: "case q of Inl e \<Rightarrow> e = ZX_ERR_NO_MEMORY
        | Inr l \<Rightarrow> tiles (bucket_count s) (unat range_start) (unat range_start + unat range_len) l"
      unfolding chunked_def n(1) by (auto simp: same_books_def split: option.splits sum.splits)
    have ov: "\<forall>q\<in>set (p2_ranges s). \<not> range_overlaps (rng_start ?r) (rng_len ?r) q" and ok: "rng_ok ?r"
      using chunk by (auto simp: list_ex_iff rng_ok_def unat_gt_0)
    show ?thesis
    proof (cases q)
      case (Inl e)
      then show ?thesis
        using chunk q res fr unchanged [OF fr]
        by (simp add: p2ra_add_range_def p2ra_calloc_def nowrap_iff same_books_def Let_def del: push_bit_of_1)
    next
      case (Inr l)
      then have "tiles (bucket_count s) (unat (rng_start ?r)) (unat (rng_start ?r) + unat (rng_len ?r)) l"
        using res by simp
      from add_range_blocks [OF s ok ov fr this] show ?thesis
        using chunk q Inr by (simp add: p2ra_add_range_def p2ra_calloc_def nowrap_iff Let_def del: push_bit_of_1)
    qed
  qed (use unchanged in \<open>auto simp: p2ra_add_range_def p2ra_calloc_def nowrap_iff same_books_def s\<close>)
qed

section \<open>A free run is found\<close>

lemma in_run_div: "0 < d \<Longrightarrow> d * m \<le> x \<and> x < d * m + d \<longleftrightarrow> x div d = (m::nat)"
  using dividend_less_times_div [of d x] times_div_less_eq_dividend [of d x]
  by (auto intro!: div_nat_eqI simp: algebra_simps)

lemma block_ids_div:
  assumes "wf_block n b"
  shows "x \<in> blk_ids b \<longleftrightarrow> x div 2 ^ blk_bucket b = unat (blk_start b) div 2 ^ blk_bucket b"
proof -
  obtain m where m: "unat (blk_start b) = 2 ^ blk_bucket b * m"
    using assms by (auto simp: wf_block_def elim: dvdE)
  then show ?thesis
    using in_run_div [of "2 ^ blk_bucket b" m x] by (simp add: blk_ids_def)
qed

lemma div_pow2_mono:
  assumes "j \<le> (k::nat)" "x div 2 ^ j = y div (2 ^ j :: nat)"
  shows "x div 2 ^ k = y div 2 ^ k"
proof -
  have "(2::nat) ^ k = 2 ^ j * 2 ^ (k - j)"
    using assms(1) by (simp flip: power_add)
  then show ?thesis
    using assms(2) by (simp add: div_mult2_eq)
qed

lemma owners_two:
  assumes "b \<in> set l" "c \<in> set l" "b \<noteq> c" "x \<in> blk_ids b" "x \<in> blk_ids c"
  shows "2 \<le> owners l x"
proof -
  have "card {b, c} \<le> card (set (filter (\<lambda>b. x \<in> blk_ids b) l))"
    using assms by (intro card_mono) auto
  also have "\<dots> \<le> owners l x"
    unfolding owners_def by (rule card_length)
  finally show ?thesis
    using assms(3) by simp
qed

text \<open>The other half of the next larger aligned run around a block.\<close>

definition buddy_start :: "p2ra_block \<Rightarrow> nat" where
  "buddy_start b = 2 ^ blk_bucket b *
     (let q = unat (blk_start b) div 2 ^ blk_bucket b in if even q then q + 1 else q - 1)"

lemma buddy_start_div:
  "buddy_start b div 2 ^ Suc (blk_bucket b) = unat (blk_start b) div 2 ^ Suc (blk_bucket b)"
proof -
  have "buddy_start b div 2 ^ blk_bucket b div 2 = unat (blk_start b) div 2 ^ blk_bucket b div 2"
    by (auto simp: buddy_start_def Let_def elim!: oddE evenE)
  then show ?thesis
    by (simp add: div_mult2_eq [symmetric] mult.commute)
qed

lemma buddy_start_buddies:
  assumes b: "wf_block n b" and c: "wf_block n c" "blk_bucket c = blk_bucket b" "buddy_start b \<in> blk_ids c"
  shows "buddies b c \<or> buddies c b"
proof -
  obtain q where q: "unat (blk_start b) = 2 ^ blk_bucket b * q"
    using b by (auto simp: wf_block_def elim: dvdE)
  obtain p where p: "unat (blk_start c) = 2 ^ blk_bucket b * p"
    using c(1,2) by (auto simp: wf_block_def elim: dvdE)
  have "p = (if even q then q + 1 else q - 1)"
    using c(2,3) block_ids_div [OF c(1), of "buddy_start b"] p q by (simp add: buddy_start_def Let_def)
  then show ?thesis
    using p q c(2) by (auto simp: buddies_def algebra_simps elim!: oddE)
qed

lemma free_run_block:
  assumes s: "p2_good s" and k: "k < bucket_count s" and free: "\<And>x. x div 2 ^ k = q \<Longrightarrow> 0 < free_ids s x"
  shows "\<exists>j. k \<le> j \<and> j < bucket_count s \<and> p2_free s ! j \<noteq> []"
proof (rule ccontr)
  assume no: "\<not> ?thesis"
  have wf: "wf_free s" and co: "coalesced s"
    using s by (simp_all add: p2_good_def p2_inv_def)
  let ?F = "set (concat (p2_free s))"
  have F: "wf_block (bucket_count s) b \<and> b \<in> set (p2_free s ! blk_bucket b) \<and> blk_bucket b < k" if bF: "b \<in> ?F" for b
  proof -
    obtain i where "i < bucket_count s" "b \<in> set (p2_free s ! i)"
      using bF unfolding set_concat by (metis UN_E in_set_conv_nth)
    moreover from this have "blk_bucket b = i" "wf_block (bucket_count s) b"
      using wf unfolding wf_free_def wf_bucket_def by blast+
    ultimately show ?thesis
      using no by (metis emptyE list.set(1) linorder_not_less)
  qed
  have ex: "\<exists>b\<in>?F. x \<in> blk_ids b" if "x div 2 ^ k = q" for x
    using free [OF that] by (simp add: free_ids_def owners_pos)
  define meets where "meets b \<longleftrightarrow> b \<in> ?F \<and> (\<exists>x\<in>blk_ids b. x div 2 ^ k = q)" for b
  have "(2 ^ k * q) div 2 ^ k = q"
    by simp
  then have "\<exists>b. meets b"
    using ex [of "2 ^ k * q"] unfolding meets_def by blast
  then obtain b where b: "meets b" and least: "\<And>c. meets c \<Longrightarrow> blk_bucket b \<le> blk_bucket c"
    using ex_has_least_nat [of meets _ blk_bucket] by blast
  obtain x where bF: "b \<in> ?F" and x: "x \<in> blk_ids b" "x div 2 ^ k = q"
    using b unfolding meets_def by blast
  note Fb = F [OF bF]
  then have jk: "blk_bucket b \<le> k" "Suc (blk_bucket b) \<le> k" and wb: "wf_block (bucket_count s) b"
    by simp_all
  have bk: "unat (blk_start b) div 2 ^ k = q"
    using div_pow2_mono [OF jk(1) x(1) [unfolded block_ids_div [OF wb]]] x(2) by simp
  have yq: "buddy_start b div 2 ^ k = q"
    using div_pow2_mono [OF jk(2) buddy_start_div] bk by simp
  then obtain c where c: "c \<in> ?F" "buddy_start b \<in> blk_ids c"
    using ex by blast
  then have "meets c"
    using yq unfolding meets_def by blast
  then have le: "blk_bucket b \<le> blk_bucket c"
    by (rule least)
  show False
  proof (cases "blk_bucket c = blk_bucket b")
    case True
    then have "buddies b c \<or> buddies c b"
      using buddy_start_buddies Fb F [OF c(1)] c(2) by blast
    then show ?thesis
      using co Fb F [OF c(1)] k True unfolding coalesced_def
      by (metis Suc_eq_plus1 Suc_leI le_less_trans)
  next
    case False
    then have "buddy_start b div 2 ^ blk_bucket c = unat (blk_start b) div 2 ^ blk_bucket c"
      using le by (intro div_pow2_mono [OF _ buddy_start_div]) simp
    then have "unat (blk_start b) \<in> blk_ids c"
      using block_ids_div [of "bucket_count s" c] F [OF c(1)] c(2) by simp
    then have "2 \<le> free_ids s (unat (blk_start b))"
      unfolding free_ids_def using bF c(1) False by (intro owners_two [of b _ c]) auto
    then show ?thesis
      using s p2_inv_free_le [of s "unat (blk_start b)"] by (simp add: p2_good_def)
  qed
qed

section \<open>Reachable allocators\<close>

lemma init_good:
  assumes "p2ra_init ok sz = Inr s"
  shows "p2_good s" "bucket_count s = log2_uint_floor sz + 1" "p2_ranges s = []" "p2_allocated s = []"
proof -
  have s: "s = \<lparr> p2_ranges = [], p2_unused = [], p2_allocated = [],
                 p2_free = replicate (log2_uint_floor sz + 1) [], p2_callocs = 0 \<rparr>"
    using assms by (auto simp: p2ra_init_def split: if_splits)
  have nil: "p2_free s ! i = []" if "i < bucket_count s" for i
    using that by (simp add: s del: replicate_Suc)
  have "wf_free s"
    using log2_floor_less [of sz] nil unfolding wf_free_def wf_bucket_def by (simp add: s)
  moreover have "owners (concat (replicate n [])) x = 0" for n x
    by (induction n) simp_all
  moreover have "coalesced s"
    unfolding coalesced_def using nil by (metis add_lessD1 emptyE list.set(1))
  ultimately show "p2_good s"
    unfolding p2_good_def p2_inv_def by (simp add: s free_ids_def added_ids_def)
  show "bucket_count s = log2_uint_floor sz + 1" "p2_ranges s = []" "p2_allocated s = []"
    by (simp_all add: s)
qed

lemma add_range_good:
  assumes s: "p2_good s" and a: "p2ra_add_range mem range_start range_len s = Some (st, s')"
  shows "p2_good s'"
proof (cases "bucket_count s < 32 \<or> range_start \<noteq> 0 \<or> unat range_len < 2 ^ 31")
  case True
  then show ?thesis
    using add_range_total [OF s True, of mem] a by auto
next
  case False
  then have c: "bucket_count s = 32" "range_start = 0" "2 ^ 31 \<le> unat range_len"
    using s by (auto simp: p2_good_def p2_inv_def wf_free_def)
  then have "list_ex (range_overlaps 0 range_len) (p2_ranges s) \<or> \<not> mem (p2_callocs s)"
    using add_range_diverges [of range_len s mem] a by auto
  then have "p2_free s' = p2_free s \<and> same_books s s'"
    using a by (auto simp: c(2) p2ra_add_range_def p2ra_calloc_def same_books_def split: if_splits)
  then show ?thesis
    using s by (simp add: p2_good_def p2_inv_def wf_free_def coalesced_def same_books_def free_ids_def added_ids_def)
qed

inductive p2ra_reach :: "p2ra_state \<Rightarrow> bool" where
  p2ra_start: "p2ra_init ok max_alloc_size = Inr s \<Longrightarrow> p2ra_reach s"
| p2ra_add: "p2ra_reach s \<Longrightarrow> p2ra_add_range mem range_start range_len s = Some (st, s') \<Longrightarrow> p2ra_reach s'"
| p2ra_alloc: "p2ra_reach s \<Longrightarrow> p2ra_allocate_range mem sz s = (r, s') \<Longrightarrow> p2ra_reach s'"
| p2ra_release: "p2ra_reach s \<Longrightarrow> p2ra_free_range range_start sz s = Some s' \<Longrightarrow> p2ra_reach s'"

lemma reach_good: "p2ra_reach s \<Longrightarrow> p2_good s"
  by (induction rule: p2ra_reach.induct)
    (blast intro: init_good(1) add_range_good allocate_good free_good)+

text \<open>An aligned run of ids, all of them free.\<close>

definition free_run :: "nat \<Rightarrow> p2ra_state \<Rightarrow> bool" where
  "free_run len s \<longleftrightarrow> (\<exists>a. len dvd a \<and> (\<forall>x. a \<le> x \<and> x < a + len \<longrightarrow> 0 < free_ids s x))"

lemma free_run_iff:
  assumes s: "p2_good s" and k: "k < bucket_count s"
  shows "free_run (2 ^ k) s \<longleftrightarrow> (\<exists>j. k \<le> j \<and> j < bucket_count s \<and> p2_free s ! j \<noteq> [])"
proof
  assume "free_run (2 ^ k) s"
  then obtain q where q: "\<forall>x. 2 ^ k * q \<le> x \<and> x < 2 ^ k * q + 2 ^ k \<longrightarrow> 0 < free_ids s x"
    by (auto simp: free_run_def elim!: dvdE)
  have "0 < free_ids s x" if "x div 2 ^ k = q" for x
    using q in_run_div [of "2 ^ k" q x] that by simp
  then show "\<exists>j. k \<le> j \<and> j < bucket_count s \<and> p2_free s ! j \<noteq> []"
    by (rule free_run_block [OF s k])
next
  assume "\<exists>j. k \<le> j \<and> j < bucket_count s \<and> p2_free s ! j \<noteq> []"
  then obtain j where j: "k \<le> j" "j < bucket_count s" "p2_free s ! j \<noteq> []"
    by blast
  let ?b = "hd (p2_free s ! j)"
  have wf: "wf_free s"
    using s by (simp add: p2_good_def p2_inv_def)
  note h = take_head [OF wf j(2,3)]
  have "2 ^ k dvd unat (blk_start ?b)"
    using h(3,4) j(1) by (auto simp: wf_block_def intro: power_le_dvd)
  moreover have le: "(2::nat) ^ k \<le> 2 ^ j"
    by (rule power_increasing [OF j(1)]) simp
  have "x \<in> blk_ids ?b" if "unat (blk_start ?b) \<le> x" "x < unat (blk_start ?b) + 2 ^ k" for x
    unfolding blk_ids_def h(4) atLeastLessThan_iff using that le by linarith
  then have "0 < free_ids s x" if "unat (blk_start ?b) \<le> x" "x < unat (blk_start ?b) + 2 ^ k" for x
    using that free_ids_mem [OF j(2), of ?b x] j(3) by simp
  ultimately show "free_run (2 ^ k) s"
    unfolding free_run_def by blast
qed

section \<open>A run on concrete values\<close>

text \<open>An allocator for up to four ids at once, before and after the range \<open>[0, 4)\<close> was added.\<close>

definition p2_start :: p2ra_state where
  "p2_start = \<lparr> p2_ranges = [], p2_unused = [], p2_allocated = [], p2_free = [[], [], []], p2_callocs = 0 \<rparr>"

definition p2_four :: p2ra_state where
  "p2_four = \<lparr> p2_ranges = [\<lparr> rng_start = 0, rng_len = 4 \<rparr>], p2_unused = [], p2_allocated = [],
     p2_free = [[], [], [\<lparr> blk_bucket = 2, blk_start = 0 \<rparr>]], p2_callocs = 2 \<rparr>"

definition p2_two_taken :: p2ra_state where
  "p2_two_taken = \<lparr> p2_ranges = [\<lparr> rng_start = 0, rng_len = 4 \<rparr>], p2_unused = [],
     p2_allocated = [\<lparr> blk_bucket = 1, blk_start = 0 \<rparr>],
     p2_free = [[], [\<lparr> blk_bucket = 1, blk_start = 2 \<rparr>], []], p2_callocs = 3 \<rparr>"

lemma p2_init_run: "p2ra_init True 4 = Inr p2_start"
  by (simp add: p2ra_init_def ispow2_def log2_uint_floor_def log2_uint_floor_nat.simps p2_start_def)

lemma p2_add_run: "p2ra_add_range (\<lambda>_. True) 0 4 p2_start = Some (ZX_OK, p2_four)"
proof -
  have "size_chunk 0 4 4 4 (Suc (Suc 0)) = Some (4, Suc (Suc 0))"
    by (simp add: size_chunk_def shrink_chunk.simps grow_chunk.simps)
  then have "chunk_range (\<lambda>_. True) 4 0 4 4 (Suc (Suc 0)) [] (p2_start\<lparr> p2_callocs := 1 \<rparr>) =
      Some (Inr [\<lparr> blk_bucket = Suc (Suc 0), blk_start = 0 \<rparr>], p2_start\<lparr> p2_callocs := 2 \<rparr>)"
    by (subst chunk_range.simps, simp add: p2ra_get_unused_block_def p2ra_calloc_def p2_start_def, subst chunk_range.simps, simp)
  then show ?thesis
    by (simp add: p2ra_add_range_def p2ra_calloc_def p2_four_def p2_start_def
        p2ra_return_free_block.simps list_before_def list_after_def)
qed

lemma p2_alloc_run: "p2ra_allocate_range (\<lambda>_. True) 2 p2_four = (Inr 0, p2_two_taken)"
  by (simp add: p2ra_allocate_range_def ispow2_def log2_uint_floor_def log2_uint_floor_nat.simps p2_four_def
      find_bucket.simps p2ra_get_unused_block_def p2ra_calloc_def p2ra_return_free_block.simps list_before_def
      list_after_def merge_pair_def odd_aligned_def blk_len_def p2_two_taken_def)

lemma p2_four_reach: "p2ra_reach p2_four"
  by (rule p2ra_add [OF p2ra_start [OF p2_init_run] p2_add_run])


text \<open>
  C8: In every state the allocator can get into by initialisation, additions of ranges,
  allocations and releases, whatever memory allocations fail, each id of the added ranges is in
  exactly one block, free or allocated, and no other id is in any; blocks are aligned to their
  size; the free blocks are in the list of their size, ordered by start; and no two free blocks
  are buddies that could still be merged.
\<close>

theorem p2ra_exact_cover:
  assumes "p2ra_reach s"
  shows "(\<forall>x. free_ids s x + owners (p2_allocated s) x = (if x \<in> added_ids s then 1 else 0)) \<and>
    (\<forall>b\<in>set (p2_allocated s). wf_block (bucket_count s) b) \<and>
    (\<forall>i<bucket_count s. wf_bucket (bucket_count s) i (p2_free s ! i)) \<and> coalesced s"
  using reach_good [OF assms] by (simp add: p2_good_def p2_inv_def wf_free_def)

theorem p2ra_exact_cover_witness:
  "p2ra_reach p2_four \<and> free_ids p2_four 3 + owners (p2_allocated p2_four) 3 = (if 3 \<in> added_ids p2_four then 1 else 0)"
  using p2ra_exact_cover [OF p2_four_reach] p2_four_reach by blast

text \<open>
  C5: An allocation of a valid size in a reachable state fails for want of ids exactly when
  there is no aligned run of that many free ids: fragmentation never hides one.  On failure the
  free ids and the allocated blocks stay; on success the start is aligned, the ids were free and
  no longer are, and the block is on record as allocated.
\<close>

theorem p2ra_allocate_exact:
  assumes s: "p2ra_reach s" and sz: "sz \<noteq> 0" "ispow2 sz" "log2_uint_floor sz < bucket_count s"
    and a: "p2ra_allocate_range mem sz s = (r, s')"
  shows "(r = Inl ZX_ERR_NO_RESOURCES \<longleftrightarrow> \<not> free_run (unat sz) s) \<and>
    (\<forall>e. r = Inl e \<longrightarrow> e \<in> {ZX_ERR_NO_RESOURCES, ZX_ERR_NO_MEMORY} \<and> p2_allocated s' = p2_allocated s \<and>
       (\<forall>x. free_ids s' x = free_ids s x)) \<and>
    (\<forall>start. r = Inr start \<longrightarrow> unat sz dvd unat start \<and>
       p2_allocated s' = \<lparr> blk_bucket = log2_uint_floor sz, blk_start = start \<rparr> # p2_allocated s \<and>
       (\<forall>x. free_ids s x = free_ids s' x + (if unat start \<le> x \<and> x < unat start + unat sz then 1 else 0)))"
proof -
  have g: "p2_good s"
    by (rule reach_good [OF s])
  then have wf: "wf_free s"
    by (simp add: p2_good_def p2_inv_def)
  have u: "unat sz = 2 ^ log2_uint_floor sz"
    by (rule ispow2_unat [OF sz(1,2)])
  note run = free_run_iff [OF g sz(3), folded u]
  from a wf sz show ?thesis
  proof (cases rule: allocate_cases)
    case none
    then show ?thesis
      using run by simp
  next
    case (nomem j)
    then show ?thesis
      using run by (auto simp: same_books_def)
  next
    case (ok b)
    have b: "b = \<lparr> blk_bucket = log2_uint_floor sz, blk_start = blk_start b \<rparr>"
      using ok(7) by simp
    have al: "unat sz dvd unat (blk_start b)"
      using ok(6,7) u by (simp add: wf_block_def)
    have own: "free_ids s x = free_ids s' x + (if unat (blk_start b) \<le> x \<and> x < unat (blk_start b) + unat sz then 1 else 0)" for x
      using spec [OF ok(8), of x] ok(7) u by (auto simp: blk_ids_def split: if_splits)
    have "free_run (unat sz) s"
      unfolding free_run_def using al own by (intro exI [of _ "unat (blk_start b)"]) simp
    then show ?thesis
      using ok(1,5) b al own by auto
  qed
qed

theorem p2ra_allocate_exact_witness:
  "(2::32 word) \<noteq> 0 \<and> ispow2 2 \<and> p2ra_allocate_range (\<lambda>_. True) 2 p2_four = (Inr 0, p2_two_taken) \<and>
   free_run (unat (2::32 word)) p2_four"
proof -
  have v: "(2::32 word) \<noteq> 0" "ispow2 2" "log2_uint_floor 2 < bucket_count p2_four"
    by (simp_all add: ispow2_def log2_uint_floor_def log2_uint_floor_nat.simps p2_four_def)
  show ?thesis
    using p2ra_allocate_exact [OF p2_four_reach v p2_alloc_run] v(2) p2_alloc_run by simp
qed

text \<open>
  Releasing a block right after it was allocated succeeds, and gives back what there was:
  the same allocated blocks, the same ranges, and the same ids free.
\<close>

theorem p2ra_alloc_free_roundtrip:
  assumes s: "p2ra_reach s" and sz: "sz \<noteq> 0" "ispow2 sz" "log2_uint_floor sz < bucket_count s"
    and a: "p2ra_allocate_range mem sz s = (Inr start, s1)"
  shows "\<exists>s2. p2ra_free_range start sz s1 = Some s2 \<and> p2_allocated s2 = p2_allocated s \<and>
    p2_ranges s2 = p2_ranges s \<and> (\<forall>x. free_ids s2 x = free_ids s x)"
proof -
  have g: "p2_good s"
    by (rule reach_good [OF s])
  then have wf: "wf_free s"
    by (simp add: p2_good_def p2_inv_def)
  let ?b = "\<lparr> blk_bucket = log2_uint_floor sz, blk_start = start \<rparr>"
  have al: "p2_allocated s1 = ?b # p2_allocated s \<and> p2_ranges s1 = p2_ranges s \<and>
    (\<forall>x. free_ids s1 x + owners [?b] x = free_ids s x)"
    using a wf sz
  proof (cases rule: allocate_cases)
    case (ok b)
    then have "b = ?b"
      by simp
    then show ?thesis
      using ok(4,5,8) by (simp del: owners_simps)
  qed simp_all
  have g1: "p2_good s1"
    by (rule allocate_good [OF g a])
  let ?s1 = "s1\<lparr> p2_allocated := p2_allocated s \<rparr>"
  have f: "p2ra_free_range start sz s1 = Some (p2ra_return_free_block ?b ?s1)"
    by (simp add: p2ra_free_range_def Let_def al)
  have "wf_free ?s1" "wf_block (bucket_count ?s1) ?b"
    using g1 al by (simp_all add: p2_good_def p2_inv_def)
  note ret = return_free_block [OF this]
  show ?thesis
    using f ret al by (simp add: same_books_def del: owners_simps)
qed

theorem p2ra_alloc_free_roundtrip_witness:
  "\<exists>s2. p2ra_free_range 0 2 p2_two_taken = Some s2 \<and> p2_allocated s2 = []"
proof -
  have v: "(2::32 word) \<noteq> 0" "ispow2 2" "log2_uint_floor 2 < bucket_count p2_four"
    by (simp_all add: ispow2_def log2_uint_floor_def log2_uint_floor_nat.simps p2_four_def)
  have "p2_allocated p2_four = []"
    by (simp add: p2_four_def)
  then show ?thesis
    using p2ra_alloc_free_roundtrip [OF p2_four_reach v p2_alloc_run] by auto
qed



text \<open>
  C40: The exception is real: an allocator set up for \<open>2 ^ 31\<close> ids at once never returns from
  adding a first range of at least \<open>2 ^ 31\<close> ids from zero, because the doubled chunk size wraps to
  zero and then passes every test of the growing loop.
\<close>

theorem p2ra_add_range_hangs:
  assumes "2 ^ 31 \<le> unat range_len" "mem 0"
  shows "\<exists>s. p2ra_init True (push_bit 31 1) = Inr s \<and> p2ra_add_range mem 0 range_len s = None"
proof -
  have "ispow2 (push_bit 31 1)"
    by (simp add: ispow2_def)
  then obtain s where s: "p2ra_init True (push_bit 31 1) = Inr s"
    by (simp add: p2ra_init_def)
  have c: "p2_callocs s = 0"
    using s by (auto simp: p2ra_init_def split: if_splits)
  have "bucket_count s = 32"
    using init_good(2) [OF s] log2_pow2 [of 31] by (simp del: push_bit_of_1)
  then have "p2ra_add_range mem 0 range_len s = None"
    using assms init_good(3) [OF s] c by (intro add_range_diverges) simp_all
  then show ?thesis
    using s by blast
qed

theorem p2ra_add_range_hangs_witness:
  "2 ^ 31 \<le> unat (3000000000 :: 32 word) \<and>
   (\<exists>s. p2ra_init True (push_bit 31 1) = Inr s \<and> p2ra_add_range (\<lambda>_. True) 0 3000000000 s = None)"
  using p2ra_add_range_hangs [of 3000000000 "\<lambda>_. True"] by simp

text \<open>
  Two ranges that meet in the middle of an aligned pair make the second addition merge blocks,
  which its call does not allow: with assertions built in, it stops there.
\<close>

lemma adjacent_ranges_merge:
  "p2_free s = [[\<lparr> blk_bucket = 0, blk_start = 0 \<rparr>], []] \<Longrightarrow> needs_merge \<lparr> blk_bucket = 0, blk_start = 1 \<rparr> s"
  by (simp add: needs_merge_def merge_pair_def list_before_def list_after_def odd_aligned_def blk_len_def)

end
